(* ===== verification/Prelude.thy ===== *)
theory Prelude
  imports Main "HOL-Library.Word"
begin

text \<open>
  Shared vocabulary of the development: machine types, the arithmetic of
  \<^verbatim>\<open>size_t\<close>, failures of the C++ program as values of a sum type, and blocks of
  memory that are read and written with bounds checks.

  \<^item> \<^verbatim>\<open>size_t\<close> values are natural numbers below \<open>2 ^ 64\<close>, and the wrap-around of
    the unsigned operators is written out (\<open>size_add\<close>, \<open>size_sub\<close>, \<open>size_mul\<close>).
    Payload integers (\<^verbatim>\<open>uint8_t\<close> to \<^verbatim>\<open>uint64_t\<close>) are words of their width.
  \<^item> A failing access, a failed \<^verbatim>\<open>assert\<close> and a thrown exception are values of
    \<open>cxx_error\<close>; a fallible operation returns \<open>cxx_error + 'a\<close>, and
    \<open>and_then\<close> sequences two of them.
  \<^item> A block of memory is the list of its cells; \<open>read_n\<close> and \<open>write_n\<close> are the
    two halves of \<^verbatim>\<open>std::copy_n\<close> and \<^verbatim>\<open>memcpy\<close> (read the source range, then
    write the destination range, which is what libstdc++ does for trivially copyable
    cells, also when the ranges overlap).
\<close>

type_synonym u8 = "8 word"
type_synonym u16 = "16 word"
type_synonym u32 = "32 word"
type_synonym u64 = "64 word"

named_theorems size_simps \<open>unsigned size_t arithmetic in the range where it does not wrap\<close>
named_theorems mem_simps \<open>reads and writes of memory blocks that stay inside the block\<close>

section \<open>Arithmetic of size_t\<close>

definition size_add :: "nat \<Rightarrow> nat \<Rightarrow> nat" where
  "size_add a b = (a + b) mod 2 ^ 64"

definition size_sub :: "nat \<Rightarrow> nat \<Rightarrow> nat" where
  "size_sub a b = (2 ^ 64 + a - b) mod 2 ^ 64"

definition size_mul :: "nat \<Rightarrow> nat \<Rightarrow> nat" where
  "size_mul a b = (a * b) mod 2 ^ 64"

lemma size_add_exact [size_simps]: "a + b < 2 ^ 64 \<Longrightarrow> size_add a b = a + b"
  by (simp add: size_add_def)

lemma size_sub_exact [size_simps]: "b \<le> a \<Longrightarrow> a < 2 ^ 64 \<Longrightarrow> size_sub a b = a - b"
proof -
  assume "b \<le> a" and "a < 2 ^ 64"
  then have eq: "2 ^ 64 + a - b = (a - b) + 2 ^ 64" and lt: "a - b < 2 ^ 64" by auto
  show ?thesis unfolding size_sub_def eq mod_add_self2 using lt by (rule mod_less)
qed

lemma size_sub_wraps: "a < b \<Longrightarrow> b \<le> 2 ^ 64 \<Longrightarrow> size_sub a b = 2 ^ 64 - (b - a)"
  by (simp add: size_sub_def)

lemma size_mul_exact [size_simps]: "a * b < 2 ^ 64 \<Longrightarrow> size_mul a b = a * b"
  by (simp add: size_mul_def)

lemma size_ops_bounded: "size_add a b < 2 ^ 64" "size_sub a b < 2 ^ 64" "size_mul a b < 2 ^ 64"
  by (simp_all add: size_add_def size_sub_def size_mul_def)

text \<open>
  A difference that wraps is put right by adding enough to it: the index computations
  \<^verbatim>\<open>length - length_ + writeindex_\<close> rely on this.
\<close>

lemma size_add_sub [size_simps]:
  assumes "b \<le> a + c" and "a + c < 2 ^ 64"
  shows "size_add (size_sub a b) c = a + c - b"
proof -
  have eq: "2 ^ 64 + a - b + c = (a + c - b) + 2 ^ 64" using assms by simp
  have "size_add (size_sub a b) c = (2 ^ 64 + a - b + c) mod 2 ^ 64"
    unfolding size_add_def size_sub_def by (rule mod_add_left_eq)
  also have "\<dots> = (a + c - b) mod 2 ^ 64" unfolding eq by (rule mod_add_self2)
  also have "\<dots> = a + c - b" using assms by (intro mod_less) simp
  finally show ?thesis .
qed

section \<open>Failures\<close>

datatype cxx_error =
    OutOfBounds
  | NullDereference
  | AssertionFailed
  | UndefinedShift
  | BadAlloc
  | BadAnyCast
  | BadWeakPtr
  | BadFunctionCall
  | UseAfterFree
  | InvalidFree
  | LengthError
  | Deadlock
  | Terminated
  | Diverges
  | SystemError int

definition and_then :: "cxx_error + 'a \<Rightarrow> ('a \<Rightarrow> cxx_error + 'b) \<Rightarrow> cxx_error + 'b" where
  "and_then r f = (case r of Inl e \<Rightarrow> Inl e | Inr x \<Rightarrow> f x)"

lemma and_then_simps [simp]:
  "and_then (Inl e) f = Inl e"
  "and_then (Inr x) f = f x"
  by (simp_all add: and_then_def)

lemma and_then_assoc: "and_then (and_then m f) g = and_then m (\<lambda>x. and_then (f x) g)"
  by (cases m) simp_all

lemma and_then_Inr_iff: "and_then r f = Inr y \<longleftrightarrow> (\<exists>x. r = Inr x \<and> f x = Inr y)"
  by (cases r) auto

lemma and_then_cong [fundef_cong]:
  "r = r' \<Longrightarrow> (\<And>x. r' = Inr x \<Longrightarrow> f x = g x) \<Longrightarrow> and_then r f = and_then r' g"
  by (cases r') auto

definition assert_that :: "bool \<Rightarrow> cxx_error + unit" where
  "assert_that p = (if p then Inr () else Inl AssertionFailed)"

lemma assert_that_simps [simp]:
  "p \<Longrightarrow> assert_that p = Inr ()"
  "\<not> p \<Longrightarrow> assert_that p = Inl AssertionFailed"
  by (simp_all add: assert_that_def)

section \<open>Memory blocks\<close>

definition read_n :: "'a list \<Rightarrow> nat \<Rightarrow> nat \<Rightarrow> cxx_error + 'a list" where
  "read_n m off n =
     (if off + n \<le> length m then Inr (take n (drop off m)) else Inl OutOfBounds)"

definition write_n :: "'a list \<Rightarrow> nat \<Rightarrow> 'a list \<Rightarrow> cxx_error + 'a list" where
  "write_n m off xs =
     (if off + length xs \<le> length m then Inr (take off m @ xs @ drop (off + length xs) m)
      else Inl OutOfBounds)"

text \<open>
  \<^verbatim>\<open>new uint8_t[n]\<close>: the cells hold whatever \<open>fresh\<close> says the allocator left
  there; a size beyond \<^verbatim>\<open>PTRDIFF_MAX\<close> throws.
\<close>

definition new_array :: "(nat \<Rightarrow> 'a) \<Rightarrow> nat \<Rightarrow> cxx_error + 'a list" where
  "new_array fresh n = (if n < 2 ^ 63 then Inr (map fresh [0..<n]) else Inl BadAlloc)"

lemma read_n_ok [mem_simps]: "off + n \<le> length m \<Longrightarrow> read_n m off n = Inr (take n (drop off m))"
  by (simp add: read_n_def)

lemma read_n_beyond [mem_simps]: "length m < off + n \<Longrightarrow> read_n m off n = Inl OutOfBounds"
  by (simp add: read_n_def)

lemma write_n_ok [mem_simps]:
  "off + length xs \<le> length m \<Longrightarrow>
     write_n m off xs = Inr (take off m @ xs @ drop (off + length xs) m)"
  by (simp add: write_n_def)

lemma write_n_beyond [mem_simps]:
  "length m < off + length xs \<Longrightarrow> write_n m off xs = Inl OutOfBounds"
  by (simp add: write_n_def)

lemma new_array_ok [mem_simps]: "n < 2 ^ 63 \<Longrightarrow> new_array fresh n = Inr (map fresh [0..<n])"
  by (simp add: new_array_def)

lemma write_n_length: "write_n m off xs = Inr m' \<Longrightarrow> length m' = length m"
  by (auto simp: write_n_def split: if_splits)

text \<open>What was written is read back; reads of a disjoint range are unaffected.\<close>

lemma read_after_write:
  "write_n m off xs = Inr m' \<Longrightarrow> read_n m' off (length xs) = Inr xs"
  by (auto simp: write_n_def read_n_def split: if_splits)

lemma take_drop_split:
  "i \<le> j \<Longrightarrow> take (j - i) (drop i xs) @ drop j xs = drop i xs"
  by (metis append_take_drop_id drop_drop le_add_diff_inverse2)

end
