(* ===== verification/Endian.thy ===== *)
theory Endian
  imports Prelude
begin

text \<open>
  \<^verbatim>\<open>src/set/buffer/yendian.h\<close>: the templates \<^verbatim>\<open>host2network\<close> and
  \<^verbatim>\<open>network2host\<close>.  The host is little endian (the \<^verbatim>\<open>x86_64\<close> Linux the
  repository builds for): a value in memory is the list \<open>le_bytes\<close> of its bytes, least
  significant first, and \<^verbatim>\<open>htobe64\<close>, \<^verbatim>\<open>be64toh\<close> and their narrower
  relatives reverse that list.  The lemmas show that the two directions undo each other and
  that reading bytes from memory and converting them decodes big-endian data.
\<close>

section \<open>Values and their bytes in memory\<close>

fun le_bytes :: "nat \<Rightarrow> 'a::len word \<Rightarrow> u8 list" where
  "le_bytes 0 w = []"
| "le_bytes (Suc n) w = ucast w # le_bytes n (drop_bit 8 w)"

fun le_word :: "u8 list \<Rightarrow> 'a::len word" where
  "le_word [] = 0"
| "le_word (b # bs) = ucast b + 256 * le_word bs"

definition be_word :: "u8 list \<Rightarrow> 'a::len word" where
  "be_word bs = le_word (rev bs)"

definition be_bytes :: "nat \<Rightarrow> 'a::len word \<Rightarrow> u8 list" where
  "be_bytes n w = rev (le_bytes n w)"

text \<open>\<^verbatim>\<open>sizeof(T)\<close> of the unsigned integer type \<open>T\<close>.\<close>

definition octets :: "'a::len word itself \<Rightarrow> nat" where
  "octets _ = LENGTH('a) div 8"

section \<open>host2network and network2host\<close>

definition host2network :: "'a::len word \<Rightarrow> 'a word" where
  "host2network host = le_word (rev (le_bytes (octets TYPE('a word)) host))"

definition network2host :: "'a::len word \<Rightarrow> 'a word" where
  "network2host net = le_word (rev (le_bytes (octets TYPE('a word)) net))"

section \<open>Lemmas\<close>

lemma length_le_bytes [simp]: "length (le_bytes n w) = n"
  by (induction n arbitrary: w) auto

lemma le_bytes_numeral:
  "le_bytes (numeral k) w = ucast w # le_bytes (pred_numeral k) (drop_bit 8 w)"
  by (simp add: numeral_eq_Suc)

lemma length_be_bytes [simp]: "length (be_bytes n w) = n"
  by (simp add: be_bytes_def)

lemma octets_u64 [simp]: "octets TYPE(u64) = 8" by (simp add: octets_def)
lemma octets_u32 [simp]: "octets TYPE(u32) = 4" by (simp add: octets_def)
lemma octets_u8_u16 [simp]: "octets TYPE(u8) = 1 \<and> octets TYPE(u16) = 2" by (simp add: octets_def)

lemma le_word_append:
  "(le_word (xs @ ys) :: 'a::len word) = le_word xs + push_bit (8 * length xs) (le_word ys)"
proof (induction xs)
  case Nil
  then show ?case by simp
next
  case (Cons x xs)
  then show ?case
    by (simp add: push_bit_eq_mult power_add algebra_simps)
qed

lemma bit_le_word:
  "bit (le_word bs :: 'a::len word) i \<longleftrightarrow>
     i < LENGTH('a) \<and> i div 8 < length bs \<and> bit (bs ! (i div 8)) (i mod 8)"
proof (induction bs arbitrary: i)
  case Nil
  then show ?case by simp
next
  case (Cons b bs)
  let ?low = "ucast b :: 'a word" and ?high = "push_bit 8 (le_word bs) :: 'a word"
  have low: "bit ?low j \<longleftrightarrow> j < LENGTH('a) \<and> j < 8 \<and> bit b j" for j
    by (auto simp: bit_ucast_iff dest: bit_imp_le_length)
  have high: "bit ?high j \<longleftrightarrow> 8 \<le> j \<and> j < LENGTH('a) \<and> bit (le_word bs :: 'a word) (j - 8)" for j
    by (auto simp: bit_push_bit_iff)
  have "le_word (b # bs) = ?low + ?high"
    by (simp add: push_bit_eq_mult)
  also have "\<dots> = or ?low ?high"
    by (rule disjunctive_add_eq_or, rule bit_word_eqI) (simp add: bit_and_iff low high)
  finally have "bit (le_word (b # bs) :: 'a word) i \<longleftrightarrow> bit ?low i \<or> bit ?high i"
    by (simp add: bit_or_iff)
  then show ?case
    by (cases "i < 8") (auto simp: low high Cons.IH le_div_geq le_mod_geq dest: bit_imp_le_length)
qed

lemma nth_le_bytes: "i < n \<Longrightarrow> le_bytes n w ! i = ucast (drop_bit (8 * i) w)"
  by (induction n arbitrary: w i) (auto simp: nth_Cons' drop_bit_drop_bit algebra_simps)

lemma bit_nth_le_bytes:
  "i < n \<Longrightarrow> bit (le_bytes n w ! i) j \<longleftrightarrow> j < 8 \<and> bit w (8 * i + j)"
  by (auto simp: nth_le_bytes bit_ucast_iff bit_drop_bit_eq)

text \<open>Storing a value and loading it again, in both directions.\<close>

lemma le_word_le_bytes:
  fixes w :: "'a::len word"
  assumes "LENGTH('a) \<le> 8 * n"
  shows "le_word (le_bytes n w) = w"
proof (rule bit_word_eqI)
  fix i assume "i < LENGTH('a)"
  then have "i div 8 < n" using assms by linarith
  then show "bit (le_word (le_bytes n w) :: 'a word) i = bit w i"
    using \<open>i < LENGTH('a)\<close> by (simp add: bit_le_word bit_nth_le_bytes)
qed

lemma le_bytes_le_word:
  assumes "8 * length bs \<le> LENGTH('a::len)" and "n = length bs"
  shows "le_bytes n (le_word bs :: 'a word) = bs"
proof (rule nth_equalityI)
  show "length (le_bytes n (le_word bs :: 'a word)) = length bs" by (simp add: assms)
next
  fix i assume "i < length (le_bytes n (le_word bs :: 'a word))"
  then have i: "i < length bs" by (simp add: assms)
  show "le_bytes n (le_word bs :: 'a word) ! i = bs ! i"
  proof (rule bit_word_eqI)
    fix j assume j: "j < LENGTH(8)"
    then have "8 * i + j < LENGTH('a)" using assms i by simp
    then show "bit (le_bytes n (le_word bs :: 'a word) ! i) j = bit (bs ! i) j"
      using i j by (simp add: bit_nth_le_bytes bit_le_word assms)
  qed
qed

lemma le_bytes_host2network:
  "8 dvd LENGTH('a::len) \<Longrightarrow>
     le_bytes (octets TYPE('a word)) (host2network (w :: 'a word)) = be_bytes (octets TYPE('a word)) w"
  by (simp add: host2network_def be_bytes_def octets_def le_bytes_le_word)

lemma network2host_le_word:
  "8 dvd LENGTH('a::len) \<Longrightarrow> length bs = octets TYPE('a word) \<Longrightarrow>
     network2host (le_word bs :: 'a word) = be_word bs"
  by (simp add: network2host_def be_word_def octets_def le_bytes_le_word)

lemma be_word_be_bytes:
  "8 dvd LENGTH('a::len) \<Longrightarrow> be_word (be_bytes (octets TYPE('a word)) w) = (w :: 'a word)"
  by (simp add: be_word_def be_bytes_def octets_def le_word_le_bytes)

text \<open>The single byte specialisations return their argument.\<close>

lemma host2network_u8: "host2network (w :: u8) = w" "network2host (w :: u8) = w"
  by (simp_all add: host2network_def network2host_def)

lemma network2host_host2network:
  "8 dvd LENGTH('a::len) \<Longrightarrow> network2host (host2network (w :: 'a word)) = w"
  by (simp add: network2host_def le_bytes_host2network flip: be_word_def) (simp add: be_word_be_bytes)

lemma host2network_network2host:
  "8 dvd LENGTH('a::len) \<Longrightarrow> host2network (network2host (w :: 'a word)) = w"
  using network2host_host2network by (simp add: network2host_def host2network_def)

end
