(* ===== verification/Byte_Queue.thy ===== *)
theory Byte_Queue
  imports Endian
begin

text \<open>
  The interface through which the protocol code uses a buffer, as three locales.
  \<open>byte_source\<close> is a store whose unread bytes can be counted and skipped,
  \<open>word_source\<close> adds decoding a 64 bit number at the front, and \<open>byte_queue\<close> adds
  appending while the store is in a \<open>home\<close> state.  The lemmas proved here once are what
  \<^verbatim>\<open>rtt_server.cpp\<close> relies on: fragments add up to their concatenation, and
  consuming everything brings the store back home.
\<close>

fun append_all :: "('q \<Rightarrow> 'b list \<Rightarrow> cxx_error + 'q) \<Rightarrow> 'q \<Rightarrow> 'b list list \<Rightarrow> cxx_error + 'q" where
  "append_all app q [] = Inr q"
| "append_all app q (xs # xss) = and_then (app q xs) (\<lambda>q. append_all app q xss)"

locale byte_source =
  fixes inv :: "'q \<Rightarrow> bool"
    and data :: "'q \<Rightarrow> u8 list"
    and size :: "'q \<Rightarrow> nat"
    and skip :: "'q \<Rightarrow> nat \<Rightarrow> cxx_error + 'q"
  assumes size_data: "inv q \<Longrightarrow> size q = length (data q)"
    and skip_data: "inv q \<Longrightarrow> n \<le> length (data q) \<Longrightarrow>
          \<exists>q'. skip q n = Inr q' \<and> inv q' \<and> data q' = drop n (data q)"
    and skip_beyond: "inv q \<Longrightarrow> length (data q) < n \<Longrightarrow> skip q n = Inl AssertionFailed"
begin

lemma skip_Inr_iff: "inv q \<Longrightarrow> (\<exists>q'. skip q n = Inr q') \<longleftrightarrow> n \<le> size q"
  using skip_data [of q n] skip_beyond [of q n] size_data [of q] by (cases "n \<le> size q") auto

lemma skip_skip:
  assumes "inv q" and "n + k \<le> length (data q)"
  shows "\<exists>q'. and_then (skip q n) (\<lambda>q. skip q k) = Inr q' \<and> inv q' \<and> data q' = drop (n + k) (data q)"
proof -
  from skip_data [OF assms(1), of n] assms(2) obtain q1
    where q1: "skip q n = Inr q1" "inv q1" "data q1 = drop n (data q)" by auto
  with skip_data [OF q1(2), of k] assms(2) show ?thesis
    by (auto simp: add.commute)
qed

end

locale word_source = byte_source +
  fixes peek64 :: "'a \<Rightarrow> cxx_error + u64"
  assumes peek64_data: "inv q \<Longrightarrow> 8 \<le> length (data q) \<Longrightarrow> peek64 q = Inr (be_word (take 8 (data q)))"
begin

text \<open>Taking one 64 bit number off the front.\<close>

lemma take64:
  assumes "inv q" and "8 \<le> length (data q)"
  shows "\<exists>q'. peek64 q = Inr (be_word (take 8 (data q))) \<and> skip q 8 = Inr q' \<and>
           inv q' \<and> data q' = drop 8 (data q)"
  using skip_data [OF assms] peek64_data [OF assms] by auto

end

locale byte_queue = word_source +
  fixes home :: "'a \<Rightarrow> bool"
    and app :: "'a \<Rightarrow> u8 list \<Rightarrow> cxx_error + 'a"
    and limit :: nat
  assumes home_inv: "home q \<Longrightarrow> inv q"
    and app_data: "home q \<Longrightarrow> length (data q) + length xs \<le> limit \<Longrightarrow>
          \<exists>q'. app q xs = Inr q' \<and> home q' \<and> data q' = data q @ xs"
    and drained: "inv q \<Longrightarrow> skip q (length (data q)) = Inr q' \<Longrightarrow> home q'"
begin

lemma append_all_data:
  "home q \<Longrightarrow> length (data q) + length (concat xss) \<le> limit \<Longrightarrow>
     \<exists>q'. append_all app q xss = Inr q' \<and> home q' \<and> data q' = data q @ concat xss"
proof (induction xss arbitrary: q)
  case Nil
  then show ?case by simp
next
  case (Cons xs xss)
  then obtain q1 where q1: "app q xs = Inr q1" "home q1" "data q1 = data q @ xs"
    using app_data [of q xs] by auto
  with Cons.IH [OF q1(2)] Cons.prems show ?case by auto
qed

text \<open>Whatever the fragmentation, appending and consuming everything leaves an empty home state.\<close>

lemma append_all_drain:
  assumes "home q" and "length (data q) + length (concat xss) \<le> limit"
  shows "\<exists>q'. and_then (append_all app q xss) (\<lambda>q. skip q (size q)) = Inr q' \<and> home q' \<and> data q' = []"
proof -
  from append_all_data [OF assms] obtain q1
    where q1: "append_all app q xss = Inr q1" "home q1" "data q1 = data q @ concat xss" by auto
  note inv1 = home_inv [OF q1(2)]
  from skip_data [OF inv1 order_refl] obtain q2
    where "skip q1 (length (data q1)) = Inr q2" "data q2 = []" by auto
  then show ?thesis using q1 drained [OF inv1] size_data [OF inv1] by auto
qed

end

end
