(* ===== verification/Circulation_Buffer.thy ===== *)
theory Circulation_Buffer
  imports Byte_Queue
begin

text \<open>
  \<^verbatim>\<open>class circulation_buffer\<close> of \<^verbatim>\<open>src/set/buffer/buffer.h\<close>: a ring
  buffer of bytes with a read index, a write index and a gap of \<open>padding\<close> bytes.

  The fields keep their meaning; \<open>buf\<close> is \<open>None\<close> for \<^verbatim>\<open>nullptr\<close> and the
  list of the allocated cells otherwise.  Every operation of the class is one definition
  below.  Indices are \<^verbatim>\<open>size_t\<close> with their wrap-around, copies are bounds checked,
  and \<open>fresh\<close> is the content of memory the allocator hands out uninitialised.

  \<open>cb_data\<close> is the abstraction: the unread bytes in order.  \<open>cb_valid\<close> is what the
  reading operations need; \<open>cb_roomy\<close> adds what the free space computation needs (the
  read index is at least \<open>padding\<close> and a wrapped write index stays \<open>padding\<close> bytes
  behind it); \<open>cb_linear\<close> is a buffer whose data starts at its home position.
\<close>

record circulation_buffer =
  buf :: "u8 list option"
  length_ix :: nat
  readindex :: nat
  writeindex :: nat

definition padding :: nat where
  "padding = 4"

definition circulation_buffer_new :: "nat \<Rightarrow> cxx_error + circulation_buffer" where
  "circulation_buffer_new len =
     and_then (new_array (\<lambda>_. 0) len) (\<lambda>m.
       Inr \<lparr>buf = Some m, length_ix = len, readindex = padding, writeindex = padding\<rparr>)"

definition cb_destroy :: "circulation_buffer \<Rightarrow> circulation_buffer" where
  "cb_destroy b = b\<lparr>buf := None, length_ix := 0, readindex := padding, writeindex := padding\<rparr>"

text \<open>
  Move construction returns the new object and the source left behind; move assignment
  also returns the block the target owned before, which no pointer refers to afterwards.
\<close>

definition cb_move :: "circulation_buffer \<Rightarrow> circulation_buffer \<times> circulation_buffer" where
  "cb_move ot =
     (\<lparr>buf = buf ot, length_ix = length_ix ot, readindex = readindex ot,
       writeindex = writeindex ot\<rparr>, ot\<lparr>buf := None\<rparr>)"

definition cb_move_assign ::
  "circulation_buffer \<Rightarrow> circulation_buffer \<Rightarrow>
     circulation_buffer \<times> circulation_buffer \<times> u8 list option" where
  "cb_move_assign this ot =
     (this\<lparr>buf := buf ot, length_ix := length_ix ot, readindex := readindex ot,
           writeindex := writeindex ot\<rparr>, ot\<lparr>buf := None\<rparr>, buf this)"

definition cb_memory :: "circulation_buffer \<Rightarrow> cxx_error + u8 list" where
  "cb_memory b = (case buf b of None \<Rightarrow> Inl NullDereference | Some m \<Rightarrow> Inr m)"

definition cb_readed_size :: "circulation_buffer \<Rightarrow> nat" where
  "cb_readed_size b =
     (if writeindex b < readindex b
      then size_add (size_sub (length_ix b) (readindex b)) (writeindex b)
      else size_sub (writeindex b) (readindex b))"

definition cb_writed_size :: "circulation_buffer \<Rightarrow> nat" where
  "cb_writed_size b =
     (if writeindex b \<le> size_sub (readindex b) padding
      then size_sub (size_sub (readindex b) padding) (writeindex b)
      else size_sub (size_add (size_sub (length_ix b) (writeindex b)) (readindex b)) padding)"

definition cb_retrieve_all :: "circulation_buffer \<Rightarrow> circulation_buffer" where
  "cb_retrieve_all b = b\<lparr>readindex := padding, writeindex := padding\<rparr>"

definition cb_relocation_location :: "circulation_buffer \<Rightarrow> cxx_error + circulation_buffer" where
  "cb_relocation_location b =
     (let tail = size_sub (length_ix b) (readindex b);
          start = size_sub (readindex b) padding;
          block = size_add tail padding
      in if writeindex b < readindex b then
           and_then (cb_memory b) (\<lambda>m.
             if writeindex b < tail then
               and_then (read_n m 0 (writeindex b)) (\<lambda>t.
               and_then (read_n m start block) (\<lambda>d.
               and_then (write_n m 0 d) (\<lambda>m.
               and_then (write_n m block t) (\<lambda>m.
                 Inr (b\<lparr>buf := Some m, readindex := padding,
                        writeindex := size_add (size_sub (length_ix b) padding) (writeindex b)\<rparr>)))))
             else
               and_then (read_n m start block) (\<lambda>t.
               and_then (read_n m 0 (writeindex b)) (\<lambda>d.
               and_then (write_n m block d) (\<lambda>m.
               and_then (write_n m 0 t) (\<lambda>m.
                 Inr (b\<lparr>buf := Some m, readindex := padding,
                        writeindex := size_add (size_add tail (writeindex b)) padding\<rparr>))))))
         else Inr b)"

definition cb_make_memory ::
  "(nat \<Rightarrow> u8) \<Rightarrow> circulation_buffer \<Rightarrow> nat \<Rightarrow> cxx_error + circulation_buffer" where
  "cb_make_memory fresh b len =
     (if len < cb_writed_size b then Inr b
      else and_then (cb_relocation_location b) (\<lambda>b.
        let new_length = size_add (length_ix b) (size_mul (size_sub len (cb_writed_size b)) 2)
        in and_then (new_array fresh new_length) (\<lambda>new_buf.
           and_then (cb_memory b) (\<lambda>m.
           and_then (read_n m (size_sub (readindex b) padding) (writeindex b)) (\<lambda>d.
           and_then (write_n new_buf 0 d) (\<lambda>new_buf.
             Inr (b\<lparr>buf := Some new_buf, length_ix := new_length\<rparr>)))))))"

text \<open>
  \<^verbatim>\<open>append(data, length)\<close>: \<open>data\<close> is the memory the pointer argument points to,
  \<open>len\<close> the number of bytes to take from it.  \<open>cb_append_place\<close> is the copying part
  of the function, after space has been made.
\<close>

definition cb_append_place ::
  "circulation_buffer \<Rightarrow> u8 list \<Rightarrow> nat \<Rightarrow> cxx_error + circulation_buffer" where
  "cb_append_place b data len =
     and_then (cb_memory b) (\<lambda>m.
       let contiguous =
             and_then (read_n data 0 len) (\<lambda>d.
             and_then (write_n m (writeindex b) d) (\<lambda>m.
               Inr (b\<lparr>buf := Some m, writeindex := size_add (writeindex b) len\<rparr>)))
       in if readindex b \<le> writeindex b \<and> len \<le> size_sub (length_ix b) (writeindex b) then contiguous
       else if writeindex b < readindex b then contiguous
       else
         let front = size_sub (length_ix b) (writeindex b);
             rest = size_add (size_sub len (length_ix b)) (writeindex b)
         in and_then (read_n data 0 front) (\<lambda>d.
            and_then (write_n m (writeindex b) d) (\<lambda>m.
            and_then (read_n data front rest) (\<lambda>d.
            and_then (write_n m 0 d) (\<lambda>m.
              Inr (b\<lparr>buf := Some m, writeindex := rest\<rparr>))))))"

definition cb_append ::
  "(nat \<Rightarrow> u8) \<Rightarrow> circulation_buffer \<Rightarrow> u8 list \<Rightarrow> nat \<Rightarrow> cxx_error + circulation_buffer" where
  "cb_append fresh b data len =
     and_then (if cb_writed_size b < len then cb_make_memory fresh b len else Inr b) (\<lambda>b.
       cb_append_place b data len)"

text \<open>\<^verbatim>\<open>peek()\<close>: the memory from the read index on, as a raw pointer sees it.\<close>

definition cb_peek_raw :: "circulation_buffer \<Rightarrow> cxx_error + u8 list" where
  "cb_peek_raw b = and_then (cb_memory b) (\<lambda>m. Inr (drop (readindex b) m))"

text \<open>
  \<^verbatim>\<open>peek<T>()\<close>: the unread bytes are loaded into a \<open>T\<close>, from one or from two
  pieces, and converted from network order.  The shift \<^verbatim>\<open>r << (re_size * 8)\<close> is
  undefined from the width of the promoted operand on, which is at least 32 bits.
\<close>

definition cb_peek :: "circulation_buffer \<Rightarrow> cxx_error + 'a::len word" where
  "cb_peek b =
     (let n = octets TYPE('a word); r = readindex b; w = writeindex b
      in and_then (assert_that (n \<le> cb_readed_size b)) (\<lambda>_.
         and_then (cb_memory b) (\<lambda>m.
           if w < r then
             (let re_size = size_sub (length_ix b) r in
              if n < re_size then
                and_then (read_n m r n) (\<lambda>bs. Inr (network2host (le_word bs)))
              else
                and_then (read_n m r re_size) (\<lambda>lb.
                and_then (read_n m 0 (size_sub n re_size)) (\<lambda>rb.
                  if max (LENGTH('a)) 32 \<le> re_size * 8 then Inl UndefinedShift
                  else Inr (network2host
                         (le_word lb + push_bit (re_size * 8) (le_word rb))))))
           else
             and_then (assert_that (n \<le> size_sub w r)) (\<lambda>_.
             and_then (read_n m r n) (\<lambda>bs. Inr (network2host (le_word bs)))))))"

definition cb_skip :: "circulation_buffer \<Rightarrow> nat \<Rightarrow> cxx_error + circulation_buffer" where
  "cb_skip b len =
     and_then (assert_that (len \<le> cb_readed_size b)) (\<lambda>_.
       if len < cb_readed_size b then
         if writeindex b < readindex b then
           if len < size_sub (length_ix b) (readindex b) then
             Inr (b\<lparr>readindex := size_add (readindex b) len\<rparr>)
           else
             Inr (b\<lparr>readindex := size_add (size_sub len (length_ix b)) (readindex b)\<rparr>)
         else Inr (b\<lparr>readindex := size_add (readindex b) len\<rparr>)
       else Inr (cb_retrieve_all b))"

section \<open>Abstraction and invariants\<close>

definition cb_data :: "circulation_buffer \<Rightarrow> u8 list" where
  "cb_data b =
     (case buf b of
        None \<Rightarrow> []
      | Some m \<Rightarrow>
          if writeindex b < readindex b then drop (readindex b) m @ take (writeindex b) m
          else take (writeindex b - readindex b) (drop (readindex b) m))"

definition cb_valid :: "circulation_buffer \<Rightarrow> bool" where
  "cb_valid b \<longleftrightarrow>
     (case buf b of None \<Rightarrow> False | Some m \<Rightarrow> length m = length_ix b) \<and>
     padding \<le> length_ix b \<and> length_ix b \<le> 2 ^ 62 \<and>
     readindex b \<le> length_ix b \<and> writeindex b \<le> length_ix b"

definition cb_roomy :: "circulation_buffer \<Rightarrow> bool" where
  "cb_roomy b \<longleftrightarrow>
     cb_valid b \<and> padding \<le> readindex b \<and> length (cb_data b) + padding \<le> length_ix b"

definition cb_linear :: "circulation_buffer \<Rightarrow> bool" where
  "cb_linear b \<longleftrightarrow>
     cb_valid b \<and> readindex b = padding \<and> padding \<le> writeindex b"

definition cb_straight :: "circulation_buffer \<Rightarrow> bool" where
  "cb_straight b \<longleftrightarrow> cb_valid b \<and> readindex b \<le> writeindex b"

lemma cb_validE:
  assumes "cb_valid b"
  obtains m where "buf b = Some m" and "length m = length_ix b"
    and "padding \<le> length_ix b" and "length_ix b \<le> 2 ^ 62"
    and "readindex b \<le> length_ix b" and "writeindex b \<le> length_ix b"
  using assms by (auto simp: cb_valid_def split: option.splits)

lemma cb_roomy_valid: "cb_roomy b \<Longrightarrow> cb_valid b"
  by (simp add: cb_roomy_def)

lemma cb_linear_valid: "cb_linear b \<Longrightarrow> cb_valid b"
  by (simp add: cb_linear_def)

lemma cb_linear_data:
  assumes "cb_linear b"
  shows "length (cb_data b) = writeindex b - padding"
  using assms by (auto simp: cb_linear_def cb_data_def elim!: cb_validE)

lemma cb_linear_roomy: "cb_linear b \<Longrightarrow> cb_roomy b"
  by (auto simp: cb_roomy_def cb_linear_data, auto simp: cb_linear_def cb_valid_def)

section \<open>Reading operations\<close>

lemma cb_readed_size_data: "cb_valid b \<Longrightarrow> cb_readed_size b = length (cb_data b)"
  by (erule cb_validE) (auto simp: cb_readed_size_def cb_data_def size_simps)

lemma cb_retrieve_all_valid: "cb_valid b \<Longrightarrow> cb_valid (cb_retrieve_all b)"
  by (auto simp: cb_valid_def cb_retrieve_all_def split: option.splits)

lemma cb_retrieve_all_data: "cb_data (cb_retrieve_all b) = []"
  by (simp add: cb_data_def cb_retrieve_all_def split: option.splits)

lemma cb_skip_beyond:
  "cb_valid b \<Longrightarrow> length (cb_data b) < len \<Longrightarrow> cb_skip b len = Inl AssertionFailed"
  by (simp add: cb_skip_def cb_readed_size_data)

lemma cb_skip_all:
  "cb_valid b \<Longrightarrow> cb_skip b (length (cb_data b)) = Inr (cb_retrieve_all b)"
  by (simp add: cb_skip_def cb_readed_size_data)

lemma cb_skip_data:
  assumes valid: "cb_valid b" and len: "len \<le> length (cb_data b)"
  shows "\<exists>b'. cb_skip b len = Inr b' \<and> cb_valid b' \<and> cb_data b' = drop len (cb_data b)"
proof (cases "len = length (cb_data b)")
  case True
  with valid show ?thesis
    by (auto simp: cb_skip_all cb_retrieve_all_valid cb_retrieve_all_data)
next
  case False
  then have less: "len < length (cb_data b)" using len by simp
  from valid obtain m where m: "buf b = Some m" "length m = length_ix b"
    and L: "padding \<le> length_ix b" "length_ix b \<le> 2 ^ 62"
    and r: "readindex b \<le> length_ix b" and w: "writeindex b \<le> length_ix b"
    by (rule cb_validE)
  note skip = cb_skip_def cb_readed_size_data [OF valid] cb_data_def cb_valid_def
  consider (before_end) "writeindex b < readindex b" "len < length_ix b - readindex b"
    | (past_end) "writeindex b < readindex b" "length_ix b - readindex b \<le> len"
    | (straight) "readindex b \<le> writeindex b"
    by linarith
  then show ?thesis
  proof cases
    case before_end
    then show ?thesis
      using less r w m L by (simp add: skip size_simps add.commute)
  next
    case past_end
    define r' where "r' = len - (length_ix b - readindex b)"
    have r': "r' < writeindex b" "size_add (size_sub len (length_ix b)) (readindex b) = r'"
      using past_end less r w m L by (simp_all add: r'_def size_simps cb_data_def)
    have "size_sub (length_ix b) (readindex b) \<le> len" using past_end r L by (simp add: size_simps)
    then show ?thesis
      using past_end less r w m L r'
      by (simp add: skip drop_take) (simp add: r'_def)
  next
    case straight
    have "readindex b + len < writeindex b" using straight less m w by (auto simp: cb_data_def)
    then show ?thesis
      using straight less m L w
      by (simp add: skip size_simps drop_take add.commute)
  qed
qed

text \<open>
  \<open>peek<T>\<close> decodes the first \<open>sizeof(T)\<close> unread bytes as a big-endian number,
  whether they lie in one piece or in two.
\<close>

lemma cb_peek_data:
  fixes b :: circulation_buffer
  assumes valid: "cb_valid b" and dvd: "8 dvd LENGTH('a::len)"
    and n: "n = octets TYPE('a word)" and enough: "n \<le> length (cb_data b)"
    and split: "writeindex b < readindex b \<Longrightarrow> length_ix b - readindex b = n \<Longrightarrow> LENGTH('a) < 32"
  shows "cb_peek b = Inr (be_word (take n (cb_data b)) :: 'a word)"
proof -
  from valid obtain m where m: "buf b = Some m" "length m = length_ix b"
    and L: "length_ix b \<le> 2 ^ 62"
    and r: "readindex b \<le> length_ix b" and w: "writeindex b \<le> length_ix b"
    by (rule cb_validE)
  have len: "length (take n (cb_data b)) = octets TYPE('a word)" using n enough by simp
  note loaded = network2host_le_word [OF dvd len]
  have size: "LENGTH('a) = 8 * n" using dvd n by (simp add: octets_def)
  show ?thesis
  proof (cases "writeindex b < readindex b")
    case wrapped: True
    have data: "cb_data b = drop (readindex b) m @ take (writeindex b) m"
      using wrapped by (simp add: cb_data_def m)
    show ?thesis
    proof (cases "n < length_ix b - readindex b")
      case True
      then show ?thesis
        using loaded enough wrapped r m L
        by (simp add: cb_peek_def cb_memory_def cb_readed_size_data [OF valid] data size_simps
            mem_simps Let_def flip: n)
    next
      case False
      define k where "k = length_ix b - readindex b"
      have k: "k \<le> n" "n \<le> k + writeindex b" "k = n \<longrightarrow> LENGTH('a) < 32"
        using False enough r w m split [OF wrapped] by (auto simp: k_def data)
      have bytes: "take n (cb_data b) = drop (readindex b) m @ take (n - k) m"
        using k w r m by (simp add: data k_def min_absorb1)
      have word: "le_word (take n (cb_data b)) =
          (le_word (drop (readindex b) m) + push_bit (k * 8) (le_word (take (n - k) m)) :: 'a word)"
        by (simp add: bytes le_word_append m k_def mult.commute)
      have "n < 2 ^ 64" using k r w L by (simp add: k_def)
      then have pieces: "read_n m (readindex b) k = Inr (drop (readindex b) m)"
          "read_n m 0 (size_sub n k) = Inr (take (n - k) m)"
        using k w r m by (auto simp: mem_simps size_simps k_def)
      have "size_sub (length_ix b) (readindex b) = k" using r L by (simp add: k_def size_simps)
      moreover have "\<not> max (LENGTH('a)) 32 \<le> k * 8" using k size by auto
      ultimately show ?thesis
        using loaded enough wrapped m k
        by (simp add: cb_peek_def cb_memory_def cb_readed_size_data [OF valid] pieces
            Let_def word flip: n)
    qed
  next
    case False
    have data: "cb_data b = take (writeindex b - readindex b) (drop (readindex b) m)"
      using False by (simp add: cb_data_def m)
    have "readindex b + n \<le> length m" using False enough m w by (auto simp: data)
    then have "read_n m (readindex b) n = Inr (take n (cb_data b))"
      using enough by (simp add: mem_simps data)
    then show ?thesis
      using False loaded enough m L w
      by (simp add: cb_peek_def cb_memory_def cb_readed_size_data [OF valid] size_simps
          Let_def data flip: n)
  qed
qed

lemma cb_peek_short:
  "cb_valid b \<Longrightarrow> length (cb_data b) < octets TYPE('a::len word) \<Longrightarrow>
     (cb_peek b :: cxx_error + 'a word) = Inl AssertionFailed"
  by (simp add: cb_peek_def cb_readed_size_data)

section \<open>Appending\<close>

lemma cb_writed_size_roomy:
  assumes "cb_roomy b"
  shows "cb_writed_size b = length_ix b - padding - length (cb_data b)"
proof -
  have valid: "cb_valid b" using assms by (rule cb_roomy_valid)
  then show ?thesis
    using assms
    by (auto simp: cb_writed_size_def cb_roomy_def cb_data_def size_simps padding_def
        elim!: cb_validE split: if_splits)
qed

text \<open>
  The copying part of \<^verbatim>\<open>append\<close> is right whenever the bytes fit without filling
  the memory completely: behind the write index, or in two pieces around the end.
\<close>

lemma cb_append_place_around:
  assumes valid: "cb_valid b" and m: "buf b = Some m"
    and straight: "readindex b \<le> writeindex b" and over: "length_ix b < writeindex b + length xs"
    and fits: "length (cb_data b) + length xs < length_ix b"
  shows "\<exists>b'. cb_append_place b xs (length xs) = Inr b' \<and> cb_valid b' \<and>
           cb_data b' = cb_data b @ xs \<and> length_ix b' = length_ix b \<and> readindex b' = readindex b"
proof -
  define front where "front = length_ix b - writeindex b"
  define rest where "rest = length xs - front"
  define m1 where "m1 = take (writeindex b) m @ take front xs"
  define m2 where "m2 = drop front xs @ drop rest m1"
  have L: "length m = length_ix b" "length_ix b \<le> 2 ^ 62" "writeindex b \<le> length_ix b"
    using valid m by (auto simp: cb_valid_def)
  have sizes: "front < length xs" "rest < readindex b"
    using straight over fits m L by (auto simp: front_def rest_def cb_data_def)
  have l1: "length m1 = length_ix b" using sizes L by (simp add: m1_def front_def)
  have idx: "size_sub (length_ix b) (writeindex b) = front"
      "size_add (size_sub (length xs) (length_ix b)) (writeindex b) = rest"
    using over fits L by (simp_all add: front_def rest_def size_simps)
  have io: "read_n xs 0 front = Inr (take front xs)" "read_n xs front rest = Inr (drop front xs)"
      "write_n m (writeindex b) (take front xs) = Inr m1" "write_n m1 0 (drop front xs) = Inr m2"
    using sizes L l1 straight valid
    by (simp_all add: read_n_def write_n_def rest_def front_def m1_def m2_def cb_valid_def)
  have place: "cb_append_place b xs (length xs) = Inr (b\<lparr>buf := Some m2, writeindex := rest\<rparr>)"
    using straight sizes m by (simp add: cb_append_place_def cb_memory_def Let_def idx io)
  have "drop (readindex b) m2 = drop (readindex b) m1"
    using sizes by (simp add: m2_def rest_def)
  also have "\<dots> = cb_data b @ take front xs"
    using straight L m by (simp add: m1_def cb_data_def drop_take)
  finally have "cb_data (b\<lparr>buf := Some m2, writeindex := rest\<rparr>) = cb_data b @ xs"
    using sizes by (simp add: cb_data_def) (simp add: m2_def rest_def)
  moreover have "cb_valid (b\<lparr>buf := Some m2, writeindex := rest\<rparr>)"
    using valid sizes l1 by (auto simp: cb_valid_def m2_def rest_def)
  ultimately show ?thesis using place by simp
qed

lemma cb_append_place_data:
  assumes valid: "cb_valid b" and fits: "length (cb_data b) + length xs < length_ix b"
  shows "\<exists>b'. cb_append_place b xs (length xs) = Inr b' \<and> cb_valid b' \<and>
           cb_data b' = cb_data b @ xs \<and> length_ix b' = length_ix b \<and> readindex b' = readindex b \<and>
           (writeindex b + length xs \<le> length_ix b \<longrightarrow> writeindex b' = writeindex b + length xs)"
proof -
  from valid obtain m where m: "buf b = Some m" "length m = length_ix b"
    and L: "length_ix b \<le> 2 ^ 62"
    and r: "readindex b \<le> length_ix b" and w: "writeindex b \<le> length_ix b"
    by (rule cb_validE)
  note place = cb_append_place_def cb_memory_def Let_def
  consider (wrapped) "writeindex b < readindex b"
    | (straight) "readindex b \<le> writeindex b" "writeindex b + length xs \<le> length_ix b"
    | (around) "readindex b \<le> writeindex b" "length_ix b < writeindex b + length xs"
    by linarith
  then show ?thesis
  proof cases
    case wrapped
    then have "writeindex b + length xs < readindex b" using fits m r by (simp add: cb_data_def)
    then show ?thesis
      using valid wrapped m L r
      by (simp add: place mem_simps size_simps cb_data_def cb_valid_def)
  next
    case straight
    then have "length xs \<le> size_sub (length_ix b) (writeindex b)" using L by (simp add: size_simps)
    then show ?thesis
      using straight valid m L
      by (simp add: place mem_simps size_simps cb_data_def cb_valid_def drop_take)
  next
    case around
    with cb_append_place_around [OF valid m(1) _ _ fits] show ?thesis by auto
  qed
qed

text \<open>With enough free space by the code's own count, \<^verbatim>\<open>append\<close> is exact.\<close>

lemma cb_append_in_place:
  assumes roomy: "cb_roomy b" and fits: "length xs \<le> cb_writed_size b"
  shows "\<exists>b'. cb_append fresh b xs (length xs) = Inr b' \<and> cb_roomy b' \<and>
           cb_data b' = cb_data b @ xs \<and> length_ix b' = length_ix b"
proof -
  have "length (cb_data b) + length xs < length_ix b"
    using roomy fits by (simp add: cb_writed_size_roomy) (auto simp: cb_roomy_def padding_def)
  from cb_append_place_data [OF cb_roomy_valid [OF roomy] this]
  show ?thesis
    using roomy fits
    by (auto simp: cb_append_def cb_writed_size_roomy) (auto simp: cb_roomy_def)
qed

section \<open>Growing\<close>

text \<open>
  Relocation moves a wrapped buffer back to its home position when the piece at the end of
  the memory is not longer than the piece at its start.
\<close>

lemma cb_relocation_rear:
  assumes roomy: "cb_roomy b" and wrapped: "writeindex b < readindex b"
    and rear: "length_ix b - readindex b \<le> writeindex b"
  shows "\<exists>b'. cb_relocation_location b = Inr b' \<and> cb_linear b' \<and>
           cb_data b' = cb_data b \<and> length_ix b' = length_ix b"
proof -
  from roomy obtain m where m: "buf b = Some m" "length m = length_ix b"
    and L: "length_ix b \<le> 2 ^ 62" and r: "readindex b \<le> length_ix b" "padding \<le> readindex b"
    and gap: "writeindex b + padding \<le> readindex b"
    using wrapped by (auto simp: cb_roomy_def cb_data_def elim!: cb_validE)
  define tail where "tail = length_ix b - readindex b"
  define t where "t = drop (readindex b - padding) m"
  define m1 where "m1 = take (tail + padding) m @ take (writeindex b) m @
                          drop (tail + padding + writeindex b) m"
  define m2 where "m2 = t @ drop (tail + padding) m1"
  have lt: "length t = tail + padding" using m r by (simp add: t_def tail_def)
  have fit: "tail + padding + writeindex b \<le> length m" using m r gap by (simp add: tail_def)
  have idx: "size_sub (length_ix b) (readindex b) = tail"
      "size_sub (readindex b) padding = readindex b - padding"
      "size_add tail padding = tail + padding"
      "size_add (size_add tail (writeindex b)) padding = tail + writeindex b + padding"
    using r gap L by (simp_all add: size_simps tail_def padding_def)
  have io: "read_n m (readindex b - padding) (tail + padding) = Inr t"
      "read_n m 0 (writeindex b) = Inr (take (writeindex b) m)"
      "write_n m (tail + padding) (take (writeindex b) m) = Inr m1" "write_n m1 0 t = Inr m2"
    using m r gap fit lt by (simp_all add: read_n_def write_n_def t_def tail_def m1_def m2_def)
  let ?b = "b\<lparr>buf := Some m2, readindex := padding, writeindex := tail + writeindex b + padding\<rparr>"
  have reloc: "cb_relocation_location b = Inr ?b"
    using wrapped rear m
    by (simp add: cb_relocation_location_def cb_memory_def Let_def idx io not_less flip: tail_def)
  have "drop padding t = drop (readindex b) m" using r by (simp add: t_def)
  then have "cb_data ?b = cb_data b"
    using wrapped m fit lt by (simp add: cb_data_def m2_def m1_def flip: tail_def)
  moreover have "cb_linear ?b"
    using roomy m fit lt by (auto simp: cb_linear_def cb_roomy_def cb_valid_def m2_def m1_def)
  ultimately show ?thesis using reloc by auto
qed

lemma cb_make_memory_relocated:
  assumes reloc: "cb_relocation_location b = Inr b1" and linear: "cb_linear b1"
    and need: "cb_writed_size b \<le> n" "cb_writed_size b1 \<le> n"
    and bound: "length (cb_data b1) + n + padding \<le> 2 ^ 61"
  shows "\<exists>b'. cb_make_memory fresh b n = Inr b' \<and> cb_linear b' \<and> cb_data b' = cb_data b1 \<and>
           length (cb_data b') + n + padding \<le> length_ix b'"
proof -
  define w where "w = writeindex b1"
  define l' where "l' = 2 * n + 2 * w - length_ix b1"
  from linear obtain m where m: "buf b1 = Some m" "length m = length_ix b1"
    and L: "length_ix b1 \<le> 2 ^ 62" "padding \<le> length_ix b1" and w: "padding \<le> w" "w \<le> length_ix b1"
    and r: "readindex b1 = padding"
    by (auto simp: cb_linear_def w_def elim!: cb_validE)
  have d: "length (cb_data b1) = w - padding" using linear by (simp add: cb_linear_data w_def)
  have free: "cb_writed_size b1 = length_ix b1 - w"
    using linear w by (simp add: cb_writed_size_roomy [OF cb_linear_roomy] d)
  have l': "w + n \<le> l'" "l' \<le> 2 ^ 62" "w \<le> l'"
    using need w bound d by (auto simp: l'_def free)
  have idx: "size_add (length_ix b1) (size_mul (size_sub n (cb_writed_size b1)) 2) = l'"
      "size_sub (readindex b1) padding = 0"
    using need w bound d L by (simp_all add: free l'_def size_simps r padding_def)
  let ?m = "take w m @ drop w (map fresh [0..<l'])"
  let ?b = "b1\<lparr>buf := Some ?m, length_ix := l'\<rparr>"
  have "cb_make_memory fresh b n = Inr ?b"
    using need w l' m
    by (simp add: cb_make_memory_def reloc Let_def idx cb_memory_def mem_simps flip: w_def)
  moreover have "cb_data ?b = cb_data b1"
    using m w r by (simp add: cb_data_def drop_take flip: w_def)
  moreover have "cb_linear ?b"
    using w l' m r L by (simp add: cb_linear_def cb_valid_def flip: w_def)
  ultimately show ?thesis using l' d w by auto
qed

text \<open>A buffer at its home position takes any number of bytes and stays there.\<close>

lemma cb_append_place_linear:
  assumes linear: "cb_linear b" and fits: "length (cb_data b) + length xs + padding \<le> length_ix b"
  shows "\<exists>b'. cb_append_place b xs (length xs) = Inr b' \<and> cb_linear b' \<and> cb_data b' = cb_data b @ xs"
proof -
  have w: "writeindex b + length xs \<le> length_ix b"
    using fits linear by (simp add: cb_linear_data)
  have "length (cb_data b) + length xs < length_ix b" using fits by (simp add: padding_def)
  from cb_append_place_data [OF cb_linear_valid [OF linear] this] w linear show ?thesis
    by (auto simp: cb_linear_def)
qed

lemma cb_append_linear:
  assumes linear: "cb_linear b" and bound: "length (cb_data b) + length xs + padding \<le> 2 ^ 61"
  shows "\<exists>b'. cb_append fresh b xs (length xs) = Inr b' \<and> cb_linear b' \<and> cb_data b' = cb_data b @ xs"
proof (cases "cb_writed_size b < length xs")
  case True
  have "cb_relocation_location b = Inr b"
    using linear by (simp add: cb_relocation_location_def cb_linear_def)
  from cb_make_memory_relocated [OF this linear _ _ bound, of fresh] True obtain b1
    where b1: "cb_make_memory fresh b (length xs) = Inr b1" "cb_linear b1" "cb_data b1 = cb_data b"
      "length (cb_data b1) + length xs + padding \<le> length_ix b1" by auto
  with cb_append_place_linear [OF b1(2) b1(4)] True show ?thesis by (simp add: cb_append_def)
next
  case False
  then have "length (cb_data b) + length xs + padding \<le> length_ix b"
    using linear by (simp add: cb_writed_size_roomy [OF cb_linear_roomy])
      (auto simp: cb_linear_data cb_linear_def elim!: cb_validE)
  with cb_append_place_linear [OF linear] False show ?thesis by (simp add: cb_append_def)
qed

text \<open>
  A length beyond the memory the argument points to makes the copy read out of bounds, after
  the buffer has made room for it.
\<close>

lemma cb_append_place_short:
  assumes linear: "cb_linear b" and fits: "length (cb_data b) + len + padding \<le> length_ix b"
    and short: "length xs < len"
  shows "cb_append_place b xs len = Inl OutOfBounds"
proof -
  from linear obtain m where m: "buf b = Some m" and L: "length_ix b \<le> 2 ^ 62"
    by (auto simp: cb_linear_def elim!: cb_validE)
  have "len \<le> size_sub (length_ix b) (writeindex b)"
    using fits linear L by (auto simp: cb_linear_data size_simps cb_linear_def cb_valid_def)
  then show ?thesis
    using linear short m
    by (simp add: cb_append_place_def cb_memory_def Let_def mem_simps cb_linear_def)
qed

lemma cb_append_short:
  assumes linear: "cb_linear b" and bound: "length (cb_data b) + len + padding \<le> 2 ^ 61"
    and short: "length xs < len"
  shows "cb_append fresh b xs len = Inl OutOfBounds"
proof (cases "cb_writed_size b < len")
  case True
  have "cb_relocation_location b = Inr b"
    using linear by (simp add: cb_relocation_location_def cb_linear_def)
  from cb_make_memory_relocated [OF this linear _ _ bound, of fresh] True obtain b1
    where b1: "cb_make_memory fresh b len = Inr b1" "cb_linear b1"
      "length (cb_data b1) + len + padding \<le> length_ix b1" by auto
  with cb_append_place_short [OF b1(2,3) short] True show ?thesis by (simp add: cb_append_def)
next
  case False
  then have "length (cb_data b) + len + padding \<le> length_ix b"
    using linear by (simp add: cb_writed_size_roomy [OF cb_linear_roomy])
      (auto simp: cb_linear_data cb_linear_def elim!: cb_validE)
  with cb_append_place_short [OF linear _ short] False show ?thesis by (simp add: cb_append_def)
qed

lemma cb_append_rear:
  assumes roomy: "cb_roomy b" and wrapped: "writeindex b < readindex b"
    and rear: "length_ix b - readindex b \<le> writeindex b"
    and grow: "cb_writed_size b < length xs"
    and bound: "length (cb_data b) + length xs + padding \<le> 2 ^ 61"
  shows "\<exists>b'. cb_append fresh b xs (length xs) = Inr b' \<and> cb_linear b' \<and> cb_data b' = cb_data b @ xs"
proof -
  from cb_relocation_rear [OF roomy wrapped rear] obtain b1
    where b1: "cb_relocation_location b = Inr b1" "cb_linear b1" "cb_data b1 = cb_data b"
      "length_ix b1 = length_ix b" by auto
  have "cb_writed_size b1 = cb_writed_size b"
    using roomy b1 by (simp add: cb_writed_size_roomy cb_linear_roomy)
  with cb_make_memory_relocated [OF b1(1,2)] grow bound b1(3) obtain b2
    where b2: "cb_make_memory fresh b (length xs) = Inr b2" "cb_linear b2" "cb_data b2 = cb_data b"
      "length (cb_data b2) + length xs + padding \<le> length_ix b2"
    by (metis less_imp_le)
  with cb_append_place_linear [OF b2(2) b2(4)] grow show ?thesis by (simp add: cb_append_def)
qed

section \<open>The buffer as a byte queue\<close>

lemma cb_straight_valid: "cb_straight b \<Longrightarrow> cb_valid b"
  by (simp add: cb_straight_def)

lemma cb_retrieve_all_linear: "cb_valid b \<Longrightarrow> cb_linear (cb_retrieve_all b)"
  by (auto simp: cb_linear_def cb_retrieve_all_valid) (simp_all add: cb_retrieve_all_def)

lemma cb_skip_straight:
  assumes straight: "cb_straight b" and len: "len \<le> length (cb_data b)"
  shows "\<exists>b'. cb_skip b len = Inr b' \<and> cb_straight b' \<and> cb_data b' = drop len (cb_data b)"
proof -
  have valid: "cb_valid b" using straight by (rule cb_straight_valid)
  then have w: "writeindex b \<le> 2 ^ 62" by (auto elim!: cb_validE)
  from cb_skip_data [OF valid len] obtain b'
    where b': "cb_skip b len = Inr b'" "cb_valid b'" "cb_data b' = drop len (cb_data b)" by auto
  have "readindex b' \<le> writeindex b'"
  proof (cases "len < length (cb_data b)")
    case True
    then have "readindex b + len \<le> writeindex b"
      using straight by (auto simp: cb_straight_def cb_data_def elim!: cb_validE)
    with True straight b'(1) w show ?thesis
      by (simp add: cb_skip_def cb_readed_size_data [OF valid] cb_straight_def size_simps)
        (auto simp: size_simps)
  next
    case False
    then have "b' = cb_retrieve_all b" using len b'(1) by (simp add: cb_skip_all [OF valid])
    then show ?thesis by (simp add: cb_retrieve_all_def)
  qed
  with b' show ?thesis by (auto simp: cb_straight_def)
qed

interpretation cbs: byte_source cb_valid cb_data cb_readed_size cb_skip
  by unfold_locales (simp_all add: cb_readed_size_data cb_skip_data cb_skip_beyond)

interpretation cbq: byte_queue cb_straight cb_data cb_readed_size cb_skip cb_peek cb_linear
  "\<lambda>b xs. cb_append fresh b xs (length xs)" "2 ^ 61 - padding" for fresh
proof unfold_locales
  fix q :: circulation_buffer and n :: nat
  assume q: "cb_straight q"
  then have valid: "cb_valid q" by (rule cb_straight_valid)
  show "cb_readed_size q = length (cb_data q)" using valid by (rule cb_readed_size_data)
  show "n \<le> length (cb_data q) \<Longrightarrow>
      \<exists>q'. cb_skip q n = Inr q' \<and> cb_straight q' \<and> cb_data q' = drop n (cb_data q)"
    using q by (rule cb_skip_straight)
  show "length (cb_data q) < n \<Longrightarrow> cb_skip q n = Inl AssertionFailed"
    using valid by (rule cb_skip_beyond)
  show "8 \<le> length (cb_data q) \<Longrightarrow> cb_peek q = Inr (be_word (take 8 (cb_data q)) :: u64)"
    using q by (intro cb_peek_data) (auto simp: cb_straight_def)
  show "cb_skip q (length (cb_data q)) = Inr q' \<Longrightarrow> cb_linear q'" for q'
    using valid by (auto simp: cb_skip_all cb_retrieve_all_linear)
next
  fix q and xs :: "u8 list"
  assume q: "cb_linear q"
  then show "cb_straight q" by (simp add: cb_straight_def cb_linear_def)
  show "length (cb_data q) + length xs \<le> 2 ^ 61 - padding \<Longrightarrow>
      \<exists>q'. cb_append fresh q xs (length xs) = Inr q' \<and> cb_linear q' \<and> cb_data q' = cb_data q @ xs"
    using q by (intro cb_append_linear) (auto simp: padding_def)
qed

lemma circulation_buffer_new_linear:
  "padding \<le> n \<Longrightarrow> n \<le> 2 ^ 62 \<Longrightarrow>
     \<exists>b. circulation_buffer_new n = Inr b \<and> cb_linear b \<and> cb_data b = [] \<and> length_ix b = n"
  by (auto simp: circulation_buffer_new_def mem_simps cb_linear_def cb_valid_def cb_data_def)

section \<open>Growing a buffer whose read index has moved\<close>

text \<open>
  \<^verbatim>\<open>make_memory\<close> copies from \<^verbatim>\<open>peek() - padding\<close> but keeps both indices.
  For a buffer that has not wrapped and whose read index is not at home, the bytes at the
  indices afterwards are others.
\<close>

lemma cb_make_memory_moved:
  assumes roomy: "cb_roomy b" and m: "buf b = Some m" and straight: "readindex b \<le> writeindex b"
    and need: "cb_writed_size b \<le> n" and bound: "length_ix b + 2 * n \<le> 2 ^ 62"
    and inside: "readindex b - padding + writeindex b \<le> length_ix b"
  shows "\<exists>b'. cb_make_memory fresh b n = Inr b' \<and> cb_valid b' \<and>
           length (cb_data b') + n + padding \<le> length_ix b' \<and>
           cb_data b' = take (writeindex b - readindex b) (drop (2 * readindex b - padding) m)"
proof -
  define r w l' where "r = readindex b" and "w = writeindex b"
    and "l' = length_ix b + 2 * (n - cb_writed_size b)"
  have f: "length m = length_ix b" "padding \<le> r" "r \<le> w" "w \<le> length_ix b"
      "length_ix b \<le> 2 ^ 62"
    using roomy m straight by (auto simp: cb_roomy_def cb_valid_def r_def w_def)
  have "length (cb_data b) = w - r"
    using straight f by (simp add: cb_data_def m r_def w_def)
  then have free: "cb_writed_size b = length_ix b - padding - (w - r)"
    by (simp add: cb_writed_size_roomy [OF roomy])
  have l': "l' \<le> 2 ^ 62" "w \<le> l'" "w - r + n + padding \<le> l'"
    using bound f need by (auto simp: l'_def free)
  have idx: "size_add (length_ix b) (size_mul (size_sub n (cb_writed_size b)) 2) = l'"
      "size_sub r padding = r - padding"
    using bound need f by (simp_all add: size_simps l'_def)
  let ?b = "b\<lparr>buf := Some (take w (drop (r - padding) m) @ drop w (map fresh [0..<l'])), length_ix := l'\<rparr>"
  have "cb_make_memory fresh b n = Inr ?b"
    using need inside straight m f l'
    by (simp add: cb_make_memory_def cb_relocation_location_def Let_def idx cb_memory_def mem_simps
        flip: w_def r_def)
  moreover have "cb_data ?b = take (w - r) (drop (2 * r - padding) m)"
    using straight f inside by (simp add: cb_data_def drop_take mult_2 flip: w_def r_def)
  moreover have "cb_valid ?b"
    using roomy f l' inside by (simp add: cb_roomy_def cb_valid_def flip: w_def r_def)
  ultimately show ?thesis using l' by (auto simp: r_def w_def)
qed

lemma cb_make_memory_overread:
  assumes roomy: "cb_roomy b" and straight: "readindex b \<le> writeindex b"
    and need: "cb_writed_size b \<le> n" and bound: "length_ix b + 2 * n \<le> 2 ^ 62"
    and outside: "length_ix b < readindex b - padding + writeindex b"
  shows "cb_make_memory fresh b n = Inl OutOfBounds"
proof -
  from roomy obtain m where m: "buf b = Some m" "length m = length_ix b"
    and f: "padding \<le> readindex b" "readindex b \<le> length_ix b"
    by (auto simp: cb_roomy_def elim!: cb_validE)
  have "size_sub (readindex b) padding = readindex b - padding"
    using f bound by (simp add: size_simps)
  moreover have "size_add (length_ix b) (size_mul (size_sub n (cb_writed_size b)) 2)
      = length_ix b + 2 * (n - cb_writed_size b)"
    using bound need by (simp add: size_simps)
  ultimately show ?thesis
    using need straight m outside bound
    by (simp add: cb_make_memory_def cb_relocation_location_def Let_def cb_memory_def mem_simps)
qed

text \<open>A read index below \<open>padding\<close> makes the free space computation wrap.\<close>

lemma cb_writed_size_underflow:
  assumes "cb_valid b" and "readindex b < padding"
  shows "cb_writed_size b = 2 ^ 64 - (padding - readindex b) - writeindex b"
proof -
  have w: "writeindex b \<le> 2 ^ 62" using assms by (auto elim!: cb_validE)
  have r: "size_sub (readindex b) padding = 2 ^ 64 - (padding - readindex b)"
    using assms by (intro size_sub_wraps) (auto simp: padding_def)
  have le: "writeindex b \<le> 2 ^ 64 - (padding - readindex b)"
    "2 ^ 64 - (padding - readindex b) < (2 ^ 64 :: nat)"
    using w assms by (auto simp: padding_def)
  show ?thesis using le by (simp only: cb_writed_size_def r if_True size_sub_exact)
qed

text \<open>
  Relocating a wrapped buffer whose end piece is the longer one puts the bytes where they
  belong, but computes the write index from the read index it has just overwritten.
\<close>

lemma cb_relocation_front:
  assumes roomy: "cb_roomy b" and wrapped: "writeindex b < readindex b"
    and front: "writeindex b < length_ix b - readindex b"
  shows "\<exists>b' m'. cb_relocation_location b = Inr b' \<and> buf b' = Some m' \<and> readindex b' = padding \<and>
           take (length (cb_data b)) (drop padding m') = cb_data b \<and>
           writeindex b' = length_ix b - padding + writeindex b"
proof -
  from roomy obtain m where m: "buf b = Some m" "length m = length_ix b"
    and L: "length_ix b \<le> 2 ^ 62" and r: "readindex b \<le> length_ix b" "padding \<le> readindex b"
    and gap: "writeindex b + padding \<le> readindex b"
    using wrapped by (auto simp: cb_roomy_def cb_data_def elim!: cb_validE)
  define tail where "tail = length_ix b - readindex b"
  define d where "d = drop (readindex b - padding) m"
  define m1 where "m1 = d @ drop (tail + padding) m"
  define m2 where "m2 = d @ take (writeindex b) m @ drop (tail + padding + writeindex b) m1"
  have ld: "length d = tail + padding" using m r by (simp add: d_def tail_def)
  have fit: "tail + padding + writeindex b \<le> length m" using m r gap by (simp add: tail_def)
  have idx: "size_sub (length_ix b) (readindex b) = tail"
      "size_sub (readindex b) padding = readindex b - padding"
      "size_add tail padding = tail + padding"
      "size_add (size_sub (length_ix b) padding) (writeindex b) = length_ix b - padding + writeindex b"
    using r gap L by (simp_all add: size_simps tail_def padding_def)
  have io: "read_n m 0 (writeindex b) = Inr (take (writeindex b) m)"
      "read_n m (readindex b - padding) (tail + padding) = Inr d"
      "write_n m 0 d = Inr m1" "write_n m1 (tail + padding) (take (writeindex b) m) = Inr m2"
    using m r gap fit ld by (simp_all add: read_n_def write_n_def d_def tail_def m1_def m2_def)
  have reloc: "cb_relocation_location b =
      Inr (b\<lparr>buf := Some m2, readindex := padding,
             writeindex := length_ix b - padding + writeindex b\<rparr>)"
    using wrapped front m
    by (simp add: cb_relocation_location_def cb_memory_def Let_def idx io flip: tail_def)
  have "drop padding d = drop (readindex b) m" using r by (simp add: d_def)
  then have "take (length (cb_data b)) (drop padding m2) = cb_data b"
    using wrapped m fit ld by (simp add: cb_data_def m2_def flip: tail_def)
  with reloc show ?thesis by auto
qed

section \<open>Properties\<close>

text \<open>
  C4: \<^verbatim>\<open>append\<close> with enough free space by the buffer's own count
  (\<^verbatim>\<open>writed_size()\<close>) never fails, adds exactly the given bytes behind the unread
  ones, keeps the capacity and keeps the ring invariant, also when it writes around the end
  of the memory.
\<close>

theorem append_with_room:
  assumes "cb_roomy b" and "length xs \<le> cb_writed_size b"
  shows "\<exists>b'. cb_append fresh b xs (length xs) = Inr b' \<and> cb_roomy b' \<and>
           cb_data b' = cb_data b @ xs \<and> length_ix b' = length_ix b"
  using assms by (rule cb_append_in_place)

theorem append_with_room_witness:
  "\<exists>b'. cb_append (\<lambda>_. 0)
       \<lparr>buf = Some [0, 0, 0, 0, 0, 0, 0, 0, 6, 5], length_ix = 10, readindex = 8, writeindex = 10\<rparr> [1, 2, 3]
       (length [1, 2, 3 :: u8]) = Inr b' \<and> cb_roomy b' \<and> cb_data b' = [6, 5, 1, 2, 3] \<and> length_ix b' = 10"
proof -
  let ?b = "\<lparr>buf = Some [0, 0, 0, 0, 0, 0, 0, 0, 6, 5], length_ix = 10, readindex = 8, writeindex = 10\<rparr>"
  have data: "cb_data ?b = [6, 5]" by (simp add: cb_data_def)
  have roomy: "cb_roomy ?b" by (simp add: cb_roomy_def cb_valid_def data padding_def)
  then have "length [1, 2, 3 :: u8] \<le> cb_writed_size ?b"
    by (simp add: cb_writed_size_roomy data padding_def)
  from append_with_room [OF roomy this, of "\<lambda>_. 0"] show ?thesis by (simp add: data)
qed

text \<open>
  A buffer at its home position (read index at \<open>padding\<close>) accepts any number of
  bytes up to \<open>2 ^ 61\<close>, growing if it has to, keeps every byte in order and stays at home.
\<close>

theorem append_at_home:
  assumes "cb_linear b" and "length (cb_data b) + length xs + padding \<le> 2 ^ 61"
  shows "\<exists>b'. cb_append fresh b xs (length xs) = Inr b' \<and> cb_linear b' \<and> cb_data b' = cb_data b @ xs"
  using assms by (rule cb_append_linear)

theorem append_at_home_witness:
  "\<exists>b'. cb_append (\<lambda>_. 7)
       \<lparr>buf = Some [0, 0, 0, 0, 8, 0], length_ix = 6, readindex = 4, writeindex = 5\<rparr> [1, 2, 3]
       (length [1, 2, 3 :: u8]) = Inr b' \<and> cb_linear b' \<and> cb_data b' = [8, 1, 2, 3]"
proof -
  let ?b = "\<lparr>buf = Some [0, 0, 0, 0, 8, 0], length_ix = 6, readindex = 4, writeindex = 5\<rparr>"
  have data: "cb_data ?b = [8]" by (simp add: cb_data_def)
  have "cb_linear ?b" by (simp add: cb_linear_def cb_valid_def padding_def)
  moreover have "length (cb_data ?b) + length [1, 2, 3 :: u8] + padding \<le> 2 ^ 61"
    by (simp add: data padding_def)
  ultimately show ?thesis using append_at_home [of ?b "[1, 2, 3]" "\<lambda>_. 7"] by (simp add: data)
qed

text \<open>
  C5: \<^verbatim>\<open>peek<T>()\<close> returns the number that the first \<open>sizeof(T)\<close> unread bytes
  encode in network order, for bytes in one piece and for bytes split by the end of the
  memory; the one state excluded is a piece of exactly \<open>sizeof(T)\<close> bytes at the end of a
  wrapped buffer for types of 32 bits and more, where the source shifts by the width of the
  type.
\<close>

theorem peek_decodes_network_order:
  assumes "cb_valid b" and "8 dvd LENGTH('a::len)" and "octets TYPE('a word) \<le> length (cb_data b)"
    and "\<not> (writeindex b < readindex b \<and> length_ix b - readindex b = octets TYPE('a word) \<and>
             32 \<le> LENGTH('a))"
  shows "cb_peek b = Inr (be_word (take (octets TYPE('a word)) (cb_data b)) :: 'a word)"
  by (rule cb_peek_data [OF assms(1,2) refl assms(3)]) (use assms(4) in auto)

theorem peek_decodes_network_order_witness:
  "cb_peek \<lparr>buf = Some [3, 4, 0, 0, 0, 0, 1, 2], length_ix = 8, readindex = 6, writeindex = 2\<rparr>
     = Inr (0x01020304 :: u32)"
proof -
  let ?b = "\<lparr>buf = Some [3, 4, 0, 0, 0, 0, 1, 2 :: u8], length_ix = 8, readindex = 6, writeindex = 2\<rparr>"
  have data: "cb_data ?b = [1, 2, 3, 4]" by (simp add: cb_data_def)
  have "cb_valid ?b" by (simp add: cb_valid_def padding_def)
  then have "cb_peek ?b = Inr (be_word [1, 2, 3, 4] :: u32)"
    using peek_decodes_network_order [of ?b, where 'a = 32] by (simp add: data)
  then show ?thesis by (simp add: be_word_def)
qed

text \<open>
  \<^verbatim>\<open>skip(len)\<close> removes exactly the first \<open>len\<close> unread bytes of any valid
  buffer; skipping more than there is stops at the assertion; skipping everything resets the
  buffer to its home position.
\<close>

theorem skip_removes_prefix:
  assumes "cb_valid b"
  shows "if len \<le> length (cb_data b)
         then \<exists>b'. cb_skip b len = Inr b' \<and> cb_valid b' \<and> cb_data b' = drop len (cb_data b) \<and>
                (len = length (cb_data b) \<longrightarrow> cb_linear b')
         else cb_skip b len = Inl AssertionFailed"
proof (cases "len = length (cb_data b)")
  case True
  then show ?thesis
    using cb_skip_all [OF assms] cb_retrieve_all_linear [OF assms]
    by (simp add: cb_linear_valid cb_retrieve_all_data)
next
  case False
  then show ?thesis using cb_skip_data [OF assms] cb_skip_beyond [OF assms] by auto
qed

theorem skip_removes_prefix_witness:
  "\<exists>b'. cb_skip \<lparr>buf = Some [3, 4, 0, 0, 0, 0, 1, 2], length_ix = 8, readindex = 6, writeindex = 2\<rparr> 3
     = Inr b' \<and> cb_data b' = [4]"
proof -
  let ?b = "\<lparr>buf = Some [3, 4, 0, 0, 0, 0, 1, 2 :: u8], length_ix = 8, readindex = 6, writeindex = 2\<rparr>"
  have "cb_valid ?b" by (simp add: cb_valid_def padding_def)
  moreover have "cb_data ?b = [1, 2, 3, 4]" by (simp add: cb_data_def)
  ultimately show ?thesis using skip_removes_prefix [of ?b 3] by auto
qed

text \<open>
  Bytes go through the buffer in order.  A new buffer of any capacity from \<open>padding\<close>
  on, fed with any sequence of fragments up to \<open>2 ^ 61\<close> bytes in all, holds exactly their
  concatenation, and consuming what it reports as readable leaves it empty and at home.
\<close>

theorem buffer_is_fifo:
  assumes "padding \<le> n" and "n \<le> 2 ^ 62" and "length (concat xss) + padding \<le> 2 ^ 61"
  shows "\<exists>b b1 b2. circulation_buffer_new n = Inr b \<and>
           append_all (\<lambda>b xs. cb_append fresh b xs (length xs)) b xss = Inr b1 \<and>
           cb_data b1 = concat xss \<and> cb_readed_size b1 = length (concat xss) \<and>
           cb_skip b1 (cb_readed_size b1) = Inr b2 \<and> cb_data b2 = [] \<and> cb_linear b2"
proof -
  from circulation_buffer_new_linear [OF assms(1,2)] obtain b
    where b: "circulation_buffer_new n = Inr b" "cb_linear b" "cb_data b = []" by auto
  from cbq.append_all_data [OF b(2), of xss fresh] b(3) assms obtain b1
    where b1: "append_all (\<lambda>b xs. cb_append fresh b xs (length xs)) b xss = Inr b1"
      "cb_linear b1" "cb_data b1 = concat xss" by (auto simp: le_diff_conv2 padding_def)
  note valid = cb_linear_valid [OF b1(2)]
  show ?thesis
    using b(1) b1 cb_skip_all [OF valid] cb_retrieve_all_linear [OF valid]
    by (auto simp: cb_readed_size_data [OF valid] cb_retrieve_all_data)
qed

theorem buffer_is_fifo_witness:
  "\<exists>b b1 b2. circulation_buffer_new 5 = Inr b \<and>
     append_all (\<lambda>b xs. cb_append (\<lambda>_. 0) b xs (length xs)) b [[1, 2], [], [3]] = Inr b1 \<and>
     cb_data b1 = [1, 2, 3] \<and> cb_readed_size b1 = length [1, 2, 3 :: u8] \<and>
     cb_skip b1 (cb_readed_size b1) = Inr b2 \<and> cb_data b2 = [] \<and> cb_linear b2"
  using buffer_is_fifo [of 5 "[[1, 2], [], [3]]" "\<lambda>_. 0"] by (simp add: padding_def)

text \<open>
  C39: growing a buffer that has not wrapped but whose read index has moved from home does
  not keep the unread bytes.  If the copy of \<^verbatim>\<open>make_memory\<close> stays inside the old
  memory, \<^verbatim>\<open>append\<close> succeeds, but in front of the new bytes the buffer then holds
  what lay \<open>readindex - padding\<close> bytes further on; otherwise the copy reads beyond the
  end of the allocation.
\<close>

theorem append_growth_moved:
  assumes roomy: "cb_roomy b" and m: "buf b = Some m" and straight: "readindex b \<le> writeindex b"
    and grow: "cb_writed_size b < length xs" and bound: "length_ix b + 2 * length xs \<le> 2 ^ 62"
  shows "if readindex b - padding + writeindex b \<le> length_ix b
         then \<exists>b'. cb_append fresh b xs (length xs) = Inr b' \<and>
           cb_data b' = take (writeindex b - readindex b) (drop (2 * readindex b - padding) m) @ xs
         else cb_append fresh b xs (length xs) = Inl OutOfBounds"
proof (cases "readindex b - padding + writeindex b \<le> length_ix b")
  case True
  from cb_make_memory_moved [OF roomy m straight _ bound True, of fresh] grow obtain b1
    where b1: "cb_make_memory fresh b (length xs) = Inr b1" "cb_valid b1"
      "length (cb_data b1) + length xs + padding \<le> length_ix b1"
      "cb_data b1 = take (writeindex b - readindex b) (drop (2 * readindex b - padding) m)" by auto
  have "length (cb_data b1) + length xs < length_ix b1" using b1(3) by (simp add: padding_def)
  from cb_append_place_data [OF b1(2) this] show ?thesis
    using True grow b1 by (auto simp: cb_append_def)
next
  case False
  then show ?thesis
    using cb_make_memory_overread [OF roomy straight _ bound] grow by (simp add: cb_append_def)
qed

theorem append_growth_moved_witness:
  "\<exists>b'. cb_append (\<lambda>_. 0)
      \<lparr>buf = Some [0, 0, 0, 0, 1, 2, 3, 0, 0, 0], length_ix = 10, readindex = 6, writeindex = 7\<rparr>
      [9, 9, 9, 9, 9, 9] (length [9, 9, 9, 9, 9, 9 :: u8]) = Inr b' \<and>
     cb_data \<lparr>buf = Some [0, 0, 0, 0, 1, 2, 3, 0, 0, 0], length_ix = 10, readindex = 6, writeindex = 7\<rparr> = [3] \<and>
     cb_data b' = [0, 9, 9, 9, 9, 9, 9]"
proof -
  let ?b = "\<lparr>buf = Some [0, 0, 0, 0, 1, 2, 3, 0, 0, 0 :: u8], length_ix = 10, readindex = 6, writeindex = 7\<rparr>"
  have data: "cb_data ?b = [3]" by (simp add: cb_data_def)
  have roomy: "cb_roomy ?b" by (simp add: cb_roomy_def cb_valid_def data padding_def)
  have grow: "cb_writed_size ?b < length [9, 9, 9, 9, 9, 9 :: u8]"
    by (simp add: cb_writed_size_roomy [OF roomy] data padding_def)
  show ?thesis
    using append_growth_moved [OF roomy _ _ grow, of _ "\<lambda>_. 0"] data by (simp add: padding_def)
qed

text \<open>
  After \<^verbatim>\<open>skip\<close> has taken the read index around the end of the memory to a
  position below \<open>padding\<close>, the subtraction in \<^verbatim>\<open>writed_size()\<close> wraps: the
  buffer reports more than \<open>2 ^ 63\<close> free bytes, whatever its capacity, so that
  \<^verbatim>\<open>append\<close> no longer grows it.
\<close>

theorem free_space_underflow:
  assumes "cb_valid b" and "readindex b < padding"
  shows "cb_writed_size b = 2 ^ 64 - (padding - readindex b) - writeindex b \<and>
         2 ^ 63 < cb_writed_size b \<and>
         (length xs \<le> 2 ^ 63 \<longrightarrow> cb_append fresh b xs (length xs) = cb_append_place b xs (length xs))"
proof -
  note eq = cb_writed_size_underflow [OF assms]
  have "writeindex b \<le> 2 ^ 62" using assms by (auto elim!: cb_validE)
  then have "2 ^ 63 < cb_writed_size b" unfolding eq by (simp add: padding_def)
  then show ?thesis using eq by (simp add: cb_append_def)
qed

lemmas cb_eval = cb_append_def cb_append_place_def cb_skip_def cb_readed_size_def cb_writed_size_def
  cb_memory_def cb_data_def padding_def size_add_def size_sub_def read_n_def write_n_def Let_def

theorem free_space_underflow_witness:
  "\<exists>b1 b2 b3 b4 b5.
     circulation_buffer_new 10 = Inr b1 \<and> cb_append (\<lambda>_. 0) b1 [1, 2, 3, 4, 5] 5 = Inr b2 \<and>
     cb_skip b2 4 = Inr b3 \<and> cb_append (\<lambda>_. 0) b3 [6, 7, 8, 9] 4 = Inr b4 \<and>
     cb_skip b4 3 = Inr b5 \<and> cb_data b5 = [8, 9] \<and> 2 ^ 63 < cb_writed_size b5 \<and>
     cb_append (\<lambda>_. 0) b5 (replicate 20 0) (length (replicate 20 (0 :: u8))) = Inl OutOfBounds"
proof -
  let ?b = "\<lambda>m r w. \<lparr>buf = Some m, length_ix = 10, readindex = r, writeindex = w\<rparr>"
  let ?m1 = "[0, 0, 0, 0, 0, 0, 0, 0, 0, 0] :: u8 list"
    and ?m2 = "[0, 0, 0, 0, 1, 2, 3, 4, 5, 0] :: u8 list"
    and ?m3 = "[7, 8, 9, 0, 1, 2, 3, 4, 5, 6] :: u8 list"
  have "map (\<lambda>_. 0) [0..<10] = ?m1" by code_simp
  then have b1: "circulation_buffer_new 10 = Inr (?b ?m1 4 4)"
    by (simp add: circulation_buffer_new_def new_array_def padding_def)
  have b2: "cb_append (\<lambda>_. 0) (?b ?m1 4 4) [1, 2, 3, 4, 5] 5 = Inr (?b ?m2 4 9)" by (simp add: cb_eval)
  have b3: "cb_skip (?b ?m2 4 9) 4 = Inr (?b ?m2 8 9)" by (simp add: cb_eval)
  have b4: "cb_append (\<lambda>_. 0) (?b ?m2 8 9) [6, 7, 8, 9] 4 = Inr (?b ?m3 8 3)" by (simp add: cb_eval)
  have b5: "cb_skip (?b ?m3 8 3) 3 = Inr (?b ?m3 1 3)" by (simp add: cb_eval)
  have "cb_valid (?b ?m3 1 3)" by (simp add: cb_valid_def padding_def)
  note free_space_underflow [OF this, of "replicate 20 0" "\<lambda>_. 0"]
  moreover have "cb_append_place (?b ?m3 1 3) (replicate 20 0) (length (replicate 20 (0 :: u8))) = Inl OutOfBounds"
    by (simp add: cb_eval)
  moreover have "cb_data (?b ?m3 1 3) = [8, 9]" by (simp add: cb_eval)
  ultimately show ?thesis using b1 b2 b3 b4 b5 by (simp add: padding_def)
qed

text \<open>
  Relocating a wrapped buffer whose piece at the end of the memory is longer than the
  piece at its start moves the unread bytes correctly to the home position, but sets the
  write index to \<open>length_ix - padding + writeindex\<close>; that is the end of the data only if
  the read index was exactly \<open>2 * padding\<close>.
\<close>

theorem relocation_front_write_index:
  assumes "cb_roomy b" and "writeindex b < readindex b" and "writeindex b < length_ix b - readindex b"
  shows "\<exists>b' m'. cb_relocation_location b = Inr b' \<and> buf b' = Some m' \<and> readindex b' = padding \<and>
           take (length (cb_data b)) (drop padding m') = cb_data b \<and>
           writeindex b' = length_ix b - padding + writeindex b \<and>
           (writeindex b' = padding + length (cb_data b) \<longleftrightarrow> readindex b = 2 * padding)"
proof -
  have "length (cb_data b) = length_ix b - readindex b + writeindex b"
    using assms by (auto simp: cb_roomy_def cb_data_def elim!: cb_validE)
  moreover have "padding \<le> length_ix b" "readindex b \<le> length_ix b"
    using assms by (auto simp: cb_roomy_def elim!: cb_validE)
  ultimately show ?thesis
    using cb_relocation_front [OF assms] assms(3) by (auto simp: padding_def)
qed

theorem relocation_front_write_index_witness:
  "\<exists>b'. cb_relocation_location
       \<lparr>buf = Some [9, 0, 0, 0, 0, 6, 7, 8], length_ix = 8, readindex = 5, writeindex = 1\<rparr> = Inr b' \<and>
     cb_data \<lparr>buf = Some [9, 0, 0, 0, 0, 6, 7, 8], length_ix = 8, readindex = 5, writeindex = 1\<rparr>
       = [6, 7, 8, 9] \<and> writeindex b' = 5 \<and> writeindex b' \<noteq> 8"
proof -
  let ?b = "\<lparr>buf = Some [9, 0, 0, 0, 0, 6, 7, 8 :: u8], length_ix = 8, readindex = 5, writeindex = 1\<rparr>"
  have "cb_roomy ?b" by (simp add: cb_roomy_def cb_valid_def cb_data_def padding_def)
  from relocation_front_write_index [OF this] show ?thesis by (auto simp: cb_data_def padding_def)
qed

end
