(* ===== verification/Posix.thy ===== *)
theory Posix
  imports Prelude
begin

text \<open>
  The part of the POSIX interface the sources use as plain data: \<^verbatim>\<open>struct pollfd\<close>
  and its event bits, \<^verbatim>\<open>struct timeval\<close> and the error numbers the code compares
  with.  The values are those of Linux.  What a system call returns is never computed here:
  it is an argument of the definitions that make the call.
\<close>

unbundle bit_operations_syntax

record pollfd =
  pfd_fd :: int
  pfd_events :: u16
  pfd_revents :: u16

definition POLLIN :: u16 where "POLLIN = 0x001"
definition POLLOUT :: u16 where "POLLOUT = 0x004"
definition POLLERR :: u16 where "POLLERR = 0x008"
definition POLLRDNORM :: u16 where "POLLRDNORM = 0x040"

lemmas poll_flags = POLLIN_def POLLOUT_def POLLERR_def POLLRDNORM_def

definition has_event :: "u16 \<Rightarrow> u16 \<Rightarrow> bool" where
  "has_event evs e \<longleftrightarrow> evs AND e \<noteq> 0"

record timeval =
  tv_sec :: int
  tv_usec :: int

definition EINTR :: int where "EINTR = 4"
definition EAGAIN :: int where "EAGAIN = 11"
definition EWOULDBLOCK :: int where "EWOULDBLOCK = 11"
definition EINPROGRESS :: int where "EINPROGRESS = 115"
definition ETIMEDOUT :: int where "ETIMEDOUT = 110"

definition O_NONBLOCK :: int where "O_NONBLOCK = 0x800"

text \<open>Switching a connection from reading to writing, as \<^verbatim>\<open>events |= POLLOUT; events &= ~POLLIN\<close>.\<close>

definition wait_writable :: "u16 \<Rightarrow> u16" where
  "wait_writable ev = (ev OR POLLOUT) AND NOT POLLIN"

lemma poll_flag_bits:
  "has_event ev POLLIN \<longleftrightarrow> bit ev 0"
  "has_event ev POLLOUT \<longleftrightarrow> bit ev 2"
  "has_event ev POLLERR \<longleftrightarrow> bit ev 3"
  "has_event ev POLLRDNORM \<longleftrightarrow> bit ev 6"
proof -
  have single: "has_event ev (push_bit n 1) \<longleftrightarrow> bit ev n" if "n < 16" for n
  proof -
    have "bit (ev AND push_bit n 1) k \<longleftrightarrow> k = n \<and> bit ev n" for k
      using that by (auto simp: bit_and_iff bit_simps)
    moreover have "ev AND push_bit n 1 = 0 \<longleftrightarrow> (\<forall>k. \<not> bit (ev AND push_bit n 1) k)"
      by (metis bit_0_eq bit_eqI bot_apply bot_bool_def)
    ultimately show ?thesis by (simp add: has_event_def del: push_bit_of_1)
  qed
  show "has_event ev POLLIN \<longleftrightarrow> bit ev 0" using single [of 0] by (simp add: poll_flags)
  show "has_event ev POLLOUT \<longleftrightarrow> bit ev 2" using single [of 2] by (simp add: poll_flags)
  show "has_event ev POLLERR \<longleftrightarrow> bit ev 3" using single [of 3] by (simp add: poll_flags)
  show "has_event ev POLLRDNORM \<longleftrightarrow> bit ev 6" using single [of 6] by (simp add: poll_flags)
qed

lemma wait_writable_events:
  "has_event (wait_writable ev) POLLOUT"
  "\<not> has_event (wait_writable ev) POLLIN"
proof -
  have "bit POLLOUT 2" "\<not> bit POLLIN 2" "bit POLLIN 0" by (simp_all add: poll_flags bit_1_iff)
  then show "has_event (wait_writable ev) POLLOUT" "\<not> has_event (wait_writable ev) POLLIN"
    by (simp_all add: poll_flag_bits wait_writable_def bit_simps)
qed

end
