(* ===== verification/Rtt_Protocol.thy ===== *)
theory Rtt_Protocol
  imports Circulation_Buffer Posix
begin

text \<open>
  The round trip time protocol: the package and the time stamps of
  \<^verbatim>\<open>src/set/rtt/rtt_common.h\<close> and the client of \<^verbatim>\<open>src/set/rtt/rtt_client.cpp\<close>.
  What the operating system answers (the address conversion, the clock, the number of bytes
  written, the bytes read) is the record \<open>connect_env\<close>.  The lemmas relate the two
  numbers the client prints to the delays and the clock offset they are meant to measure.
\<close>

section \<open>rtt_common.h\<close>

record rtt_package =
  c_send_ts :: u64
  s_recv_ts :: u64
  s_send_ts :: u64

definition sizeof_rtt_package :: nat where
  "sizeof_rtt_package = 24"

text \<open>Microseconds since the epoch; \<^verbatim>\<open>unitdiff\<close> is one million.\<close>

definition timeval2ui64 :: "timeval \<Rightarrow> u64" where
  "timeval2ui64 val = word_of_int (tv_sec val * 1000000 + tv_usec val)"

text \<open>The bytes of the package in memory, and the package loaded from such bytes.\<close>

definition package_bytes :: "rtt_package \<Rightarrow> u8 list" where
  "package_bytes p = le_bytes 8 (c_send_ts p) @ le_bytes 8 (s_recv_ts p) @ le_bytes 8 (s_send_ts p)"

definition package_of_bytes :: "u8 list \<Rightarrow> rtt_package" where
  "package_of_bytes bs =
     \<lparr>c_send_ts = le_word (take 8 bs), s_recv_ts = le_word (take 8 (drop 8 bs)),
      s_send_ts = le_word (take 8 (drop 16 bs))\<rparr>"

section \<open>rtt_client.cpp\<close>

record connect_env =
  pton_ret :: int
  pton_errno :: int
  send_time :: timeval
  write_size :: int
  read_bytes :: "u8 list"
  recv_timeval :: timeval

text \<open>The package the client writes to the socket.\<close>

definition client_request :: "timeval \<Rightarrow> rtt_package" where
  "client_request val =
     \<lparr>c_send_ts = host2network (timeval2ui64 val), s_recv_ts = 0, s_send_ts = 0\<rparr>"

text \<open>
  The evaluation of the reply: the round trip time and half the difference of the two one
  way times, in the unsigned arithmetic of \<^verbatim>\<open>uint64_t\<close>.
\<close>

definition client_evaluate :: "rtt_package \<Rightarrow> u64 \<Rightarrow> u64 \<times> u64" where
  "client_evaluate net recv_time =
     (let srecv = network2host (s_recv_ts net); csend = network2host (c_send_ts net);
          ssend = network2host (s_send_ts net);
          a = recv_time - ssend; b = srecv - csend
      in ((recv_time - csend) - (ssend - srecv), (max a b - min a b) div 2))"

definition rtt_connect :: "connect_env \<Rightarrow> cxx_error + (rtt_package \<times> u64 \<times> u64)" where
  "rtt_connect env =
     (if pton_ret env < 0 then Inl (SystemError (pton_errno env))
      else
        and_then (assert_that (write_size env = int sizeof_rtt_package)) (\<lambda>_.
        and_then (assert_that (length (read_bytes env) = sizeof_rtt_package)) (\<lambda>_.
          Inr (client_request (send_time env),
               client_evaluate (package_of_bytes (read_bytes env)) (timeval2ui64 (recv_timeval env))))))"

text \<open>A package whose fields hold the given host order values in network order.\<close>

definition network_package :: "u64 \<Rightarrow> u64 \<Rightarrow> u64 \<Rightarrow> rtt_package" where
  "network_package c r s =
     \<lparr>c_send_ts = host2network c, s_recv_ts = host2network r, s_send_ts = host2network s\<rparr>"

section \<open>Lemmas\<close>

lemma length_package_bytes [simp]: "length (package_bytes p) = sizeof_rtt_package"
  by (simp add: package_bytes_def sizeof_rtt_package_def)

lemma package_roundtrip: "package_of_bytes (package_bytes p) = p"
  by (cases p) (simp add: package_of_bytes_def package_bytes_def le_word_le_bytes)

lemma package_bytes_of: "length bs = sizeof_rtt_package \<Longrightarrow> package_bytes (package_of_bytes bs) = bs"
proof -
  assume len: "length bs = sizeof_rtt_package"
  have "bs = take 8 bs @ take 8 (drop 8 bs) @ take 8 (drop 16 bs)"
    using len by (simp add: sizeof_rtt_package_def flip: drop_drop)
      (metis append_take_drop_id drop_drop numeral_Bit0)
  then show ?thesis
    using len by (simp add: package_bytes_def package_of_bytes_def le_bytes_le_word sizeof_rtt_package_def)
qed

lemma client_evaluate_network:
  "client_evaluate (network_package c r s) t =
     ((t - c) - (s - r), (max (t - s) (r - c) - min (t - s) (r - c)) div 2)"
  by (simp add: client_evaluate_def network_package_def network2host_host2network Let_def)

text \<open>The bytes of a network order package are the big-endian bytes of its fields.\<close>

lemma package_bytes_network:
  "package_bytes (network_package c r s) = be_bytes 8 c @ be_bytes 8 r @ be_bytes 8 s"
  using le_bytes_host2network [where 'a = 64] by (simp add: package_bytes_def network_package_def)

lemma client_request_network: "client_request val = network_package (timeval2ui64 val) 0 0"
proof -
  have "host2network (0 :: u64) = 0" by (simp add: host2network_def numeral_eq_Suc)
  then show ?thesis by (simp add: client_request_def network_package_def)
qed

lemma half_difference_offset:
  fixes d theta :: u64
  assumes "unat d + unat theta < 2 ^ 63"
  shows "unat ((max (d - theta) (d + theta) - min (d - theta) (d + theta)) div 2)
    = (if unat theta \<le> unat d then unat theta else 2 ^ 63 - unat theta)"
proof (cases "theta \<le> d")
  case True
  have plus: "unat (d + theta) = unat d + unat theta" using assms by (intro unat_add_lem [THEN iffD1]) simp
  have minus: "unat (d - theta) = unat d - unat theta" using True by (rule unat_sub)
  have le: "d - theta \<le> d + theta" by (simp add: word_le_nat_alt plus minus)
  then have "unat (d + theta - (d - theta)) = 2 * unat theta"
    using True by (simp only: unat_sub plus minus) (simp add: word_le_nat_alt)
  then show ?thesis
    using le True by (simp add: max_def min_def unat_div word_le_nat_alt)
next
  case False
  have plus: "unat (d + theta) = unat d + unat theta" using assms by (intro unat_add_lem [THEN iffD1]) simp
  have minus: "unat (d - theta) = 2 ^ 64 - (unat theta - unat d)"
    using False by (simp add: unat_sub_if_size word_le_nat_alt word_size)
  have le: "d + theta \<le> d - theta" "\<not> d - theta \<le> d + theta"
    using assms False by (auto simp: word_le_nat_alt plus minus)
  then have "unat (d - theta - (d + theta)) = 2 ^ 64 - 2 * unat theta"
    using assms False by (simp only: unat_sub plus minus) (simp add: word_le_nat_alt)
  then show ?thesis
    using le assms False by (simp add: max_def min_def unat_div word_le_nat_alt)
qed

section \<open>Properties\<close>

text \<open>
  The round trip time the client computes is the sum of the two network delays, whatever
  the offset between the two clocks, the processing time of the server and the position of
  the time stamps relative to the wrap-around of 64 bits.
\<close>

theorem rtt_is_sum_of_delays:
  "fst (client_evaluate (network_package sent (sent + d1 + offset) (sent + d1 + offset + work))
         (sent + d1 + work + d2)) = d1 + d2"
  by (simp add: client_evaluate_network)

text \<open>
  On a path with equal delays in both directions the second number is the offset of the
  server's clock while the offset does not exceed the delay; for a larger offset the
  unsigned difference wraps and the result is \<open>2 ^ 63\<close> minus the offset.
\<close>

theorem time_difference_symmetric_path:
  assumes "unat d + unat offset < 2 ^ 63"
  shows "unat (snd (client_evaluate
            (network_package sent (sent + d + offset) (sent + d + offset + work))
            (sent + d + work + d)))
         = (if unat offset \<le> unat d then unat offset else 2 ^ 63 - unat offset)"
proof -
  have "sent + d + work + d - (sent + d + offset + work) = d - offset"
    and "sent + d + offset - sent = d + offset" by simp_all
  then show ?thesis using half_difference_offset [OF assms] by (simp add: client_evaluate_network)
qed

theorem time_difference_symmetric_path_witness:
  "unat (snd (client_evaluate (network_package 5000 (5000 + 100 + 1000000) (5000 + 100 + 1000000 + 7))
     (5000 + 100 + 7 + 100))) = 9223372036853775808"
  using time_difference_symmetric_path [of 100 1000000 5000 7] by simp

end
