(* ===== verification/Rtt_Server.thy ===== *)
theory Rtt_Server
  imports Rtt_Protocol
begin

text \<open>
  The server of \<^verbatim>\<open>src/set/rtt/rtt_server.h\<close> and \<^verbatim>\<open>src/set/rtt/rtt_server.cpp\<close>:
  the per connection \<^verbatim>\<open>Translation\<close> with its two buffers, the table of poll
  descriptors with the connections, \<^verbatim>\<open>onNewConnect\<close>, \<^verbatim>\<open>dispose\<close> and one
  round of the loop in \<^verbatim>\<open>startDomain\<close>.  The record \<open>fd_env\<close> holds what the
  system calls made for one descriptor return.

  A connector keeps its user data in a \<^verbatim>\<open>std::any\<close>; \<open>Some t\<close> is one that holds a pointer to
  the translation \<open>t\<close>, \<open>None\<close> one that holds anything else or nothing, on
  which \<^verbatim>\<open>getData<Translation>()\<close> throws.
\<close>

section \<open>rtt_server.h\<close>

datatype translation_state = UNKNOW | CONNECTTING | CONNECTED | STOP

record translation =
  tr_state :: translation_state
  rbuffer :: circulation_buffer
  wbuffer :: circulation_buffer

text \<open>The member initialisers: two buffers of three packages each; the state is not set.\<close>

definition translation_new :: "translation_state \<Rightarrow> cxx_error + translation" where
  "translation_new indeterminate =
     and_then (circulation_buffer_new (3 * sizeof_rtt_package)) (\<lambda>r.
     and_then (circulation_buffer_new (3 * sizeof_rtt_package)) (\<lambda>w.
       Inr \<lparr>tr_state = indeterminate, rbuffer = fst (cb_move r), wbuffer = fst (cb_move w)\<rparr>))"

definition translation_init :: "translation \<Rightarrow> translation" where
  "translation_init t = t\<lparr>tr_state := CONNECTED\<rparr>"

definition translation_destory :: "translation \<Rightarrow> translation" where
  "translation_destory t =
     t\<lparr>rbuffer := cb_retrieve_all (rbuffer t), wbuffer := cb_retrieve_all (wbuffer t)\<rparr>"

section \<open>One connection\<close>

record fd_env =
  env_read_ret :: int
  env_read_data :: "u8 list"
  env_recv_time :: timeval
  env_send_time :: timeval
  env_write_ret :: int
  env_write_errno :: int
  env_out_ret :: int
  env_out_errno :: int
  env_so_error :: int

text \<open>Taking the package off the read buffer: three times \<^verbatim>\<open>peek\<close> and \<^verbatim>\<open>skip\<close>.\<close>

definition take_package :: "circulation_buffer \<Rightarrow> cxx_error + (rtt_package \<times> circulation_buffer)" where
  "take_package b =
     and_then (cb_peek b) (\<lambda>c. and_then (cb_skip b 8) (\<lambda>b.
     and_then (cb_peek b) (\<lambda>r. and_then (cb_skip b 8) (\<lambda>b.
     and_then (cb_peek b) (\<lambda>s. and_then (cb_skip b 8) (\<lambda>b.
       Inr (\<lparr>c_send_ts = c, s_recv_ts = r, s_send_ts = s\<rparr>, b)))))))"

text \<open>The package as it is sent back: the client's stamp and the two of the server.\<close>

definition reply_package :: "rtt_package \<Rightarrow> timeval \<Rightarrow> timeval \<Rightarrow> rtt_package" where
  "reply_package p t_recv t_send =
     p\<lparr>c_send_ts := host2network (c_send_ts p),
       s_recv_ts := host2network (timeval2ui64 t_recv),
       s_send_ts := host2network (timeval2ui64 t_send)\<rparr>"

text \<open>
  After \<^verbatim>\<open>write\<close> returned \<open>ws\<close>: the two branches that queue what was not sent.
  \<^verbatim>\<open>sizeof(rtt_package) - ws\<close> and \<^verbatim>\<open>ws < sizeof(rtt_package)\<close> convert
  \<open>ws\<close> to \<^verbatim>\<open>size_t\<close>.
\<close>

definition queue_unsent ::
  "(nat \<Rightarrow> u8) \<Rightarrow> translation \<Rightarrow> u16 \<Rightarrow> u8 list \<Rightarrow> int \<Rightarrow> int \<Rightarrow> cxx_error + (translation \<times> u16)" where
  "queue_unsent fresh t ev pkg ws err =
     (let wsz = nat (ws mod 2 ^ 64); left = size_sub sizeof_rtt_package wsz in
      and_then
        (if ws \<le> 0 then
           if err = EAGAIN then
             and_then (cb_append fresh (wbuffer t) pkg left) (\<lambda>w.
               Inr (t\<lparr>wbuffer := w\<rparr>, wait_writable ev))
           else Inl AssertionFailed
         else Inr (t, ev))
        (\<lambda>(t, ev).
          if wsz < sizeof_rtt_package then
            and_then (cb_append fresh (wbuffer t) (drop wsz pkg) left) (\<lambda>w.
              Inr (t\<lparr>wbuffer := w\<rparr>, wait_writable ev))
          else Inr (t, ev)))"

text \<open>
  The readable branch once \<^verbatim>\<open>read\<close> has delivered bytes: the new translation, the
  new event mask and the bytes passed to \<^verbatim>\<open>write\<close>, if the package was complete.
\<close>

definition on_bytes ::
  "(nat \<Rightarrow> u8) \<Rightarrow> fd_env \<Rightarrow> translation \<Rightarrow> u16 \<Rightarrow> cxx_error + (translation \<times> u16 \<times> u8 list option)" where
  "on_bytes fresh env t ev =
     and_then (cb_append fresh (rbuffer t) (env_read_data env) (nat (env_read_ret env))) (\<lambda>rb.
       if cb_readed_size rb < sizeof_rtt_package then
         Inr (t\<lparr>rbuffer := rb\<rparr>, ev OR POLLIN, None)
       else
         and_then (take_package rb) (\<lambda>(p, rb).
           let pkg = package_bytes (reply_package p (env_recv_time env) (env_send_time env)) in
           and_then (queue_unsent fresh (t\<lparr>rbuffer := rb\<rparr>) ev pkg (env_write_ret env) (env_write_errno env))
             (\<lambda>(t, ev). Inr (t, ev, Some pkg))))"

text \<open>
  The writable branch passes \<^verbatim>\<open>peek()\<close> and \<^verbatim>\<open>readed_size()\<close> to
  \<^verbatim>\<open>write\<close>, which reads that many bytes behind the pointer.  \<open>Inl\<close> fails, \<open>Inr None\<close> shuts the connection down and disposes
  of it, \<open>Inr (Some _)\<close> keeps it with a new translation and event mask.
\<close>

definition on_writable :: "fd_env \<Rightarrow> translation \<Rightarrow> u16 \<Rightarrow> cxx_error + (translation \<times> u16) option" where
  "on_writable env t ev =
     and_then (cb_peek_raw (wbuffer t)) (\<lambda>ptr.
     and_then (read_n ptr 0 (cb_readed_size (wbuffer t))) (\<lambda>_.
       if env_out_ret env < 0 then
         if env_out_errno env \<noteq> EWOULDBLOCK then Inr None
         else Inr (Some (t, wait_writable ev))
       else if nat (env_out_ret env) = cb_readed_size (wbuffer t) then Inr None
       else
         and_then (cb_skip (wbuffer t) (nat (env_out_ret env))) (\<lambda>w.
           Inr (Some (t\<lparr>wbuffer := w\<rparr>, wait_writable ev)))))"

section \<open>The server object\<close>

record connector =
  conn_fd :: int
  conn_data :: "translation option"

record rtt_server =
  srv_fds :: "pollfd list"
  srv_translations :: "int \<rightharpoonup> connector"

text \<open>
  What the \<^verbatim>\<open>std::any\<close> of a connector may hold.  \<^verbatim>\<open>setData\<close> stores the value it is given;
  \<^verbatim>\<open>getData<Translation>\<close> casts to \<^verbatim>\<open>Translation *\<close>.
\<close>

datatype any_data = Any_empty | Any_value translation | Any_pointer translation

definition any_set_data :: "translation \<Rightarrow> any_data" where
  "any_set_data t = Any_value t"

fun any_cast_pointer :: "any_data \<Rightarrow> translation option" where
  "any_cast_pointer (Any_pointer t) = Some t"
| "any_cast_pointer _ = None"

definition connector_new :: "int \<Rightarrow> connector" where
  "connector_new fd = \<lparr>conn_fd = fd, conn_data = any_cast_pointer Any_empty\<rparr>"

text \<open>Even with the call of \<^verbatim>\<open>setData\<close> that the source has commented out, the translation would not be found.\<close>

lemma set_data_not_found:
  "any_cast_pointer (any_set_data t) = None" "conn_data (connector_new fd) = None"
  by (simp_all add: any_set_data_def connector_new_def)

text \<open>\<^verbatim>\<open>translations_[fd]->getData<Translation>()\<close>.\<close>

definition get_data :: "rtt_server \<Rightarrow> int \<Rightarrow> cxx_error + translation" where
  "get_data s fd =
     (case srv_translations s fd of
        None \<Rightarrow> Inl NullDereference
      | Some c \<Rightarrow> (case conn_data c of None \<Rightarrow> Inl BadAnyCast | Some t \<Rightarrow> Inr t))"

definition set_data :: "rtt_server \<Rightarrow> int \<Rightarrow> translation \<Rightarrow> rtt_server" where
  "set_data s fd t =
     s\<lparr>srv_translations := (srv_translations s)(fd := map_option (\<lambda>c. c\<lparr>conn_data := Some t\<rparr>) (srv_translations s fd))\<rparr>"

definition set_events :: "rtt_server \<Rightarrow> nat \<Rightarrow> u16 \<Rightarrow> rtt_server" where
  "set_events s i ev = s\<lparr>srv_fds := (srv_fds s)[i := (srv_fds s ! i)\<lparr>pfd_events := ev\<rparr>]\<rparr>"

definition dispose :: "rtt_server \<Rightarrow> nat \<Rightarrow> rtt_server" where
  "dispose s i =
     s\<lparr>srv_translations := (srv_translations s)(pfd_fd (srv_fds s ! i) := None),
       srv_fds := (srv_fds s)[i := (srv_fds s ! i)\<lparr>pfd_events := 0, pfd_fd := - 1\<rparr>]\<rparr>"

fun find_free :: "pollfd list \<Rightarrow> nat option" where
  "find_free [] = None"
| "find_free (p # ps) = (if pfd_fd p = - 1 then Some 0 else map_option Suc (find_free ps))"

text \<open>
  \<^verbatim>\<open>onNewConnect\<close>: the first free slot or a new one, then the connection table.  The
  local \<^verbatim>\<open>Translation\<close> is initialised and dropped; the call that would store it in
  the connector is commented out in the source.
\<close>

definition on_new_connect :: "rtt_server \<Rightarrow> connector \<Rightarrow> cxx_error + rtt_server" where
  "on_new_connect s c =
     (let fd = conn_fd c;
          fds' = (case find_free (srv_fds s) of
                    Some i \<Rightarrow> (srv_fds s)[i := (srv_fds s ! i)\<lparr>pfd_fd := fd, pfd_events := POLLIN OR POLLERR\<rparr>]
                  | None \<Rightarrow> srv_fds s @ [\<lparr>pfd_fd = fd, pfd_events = POLLIN OR POLLERR, pfd_revents = 0\<rparr>])
      in and_then (assert_that (srv_translations s fd = None)) (\<lambda>_.
         and_then (translation_new UNKNOW) (\<lambda>_.
           Inr (s\<lparr>srv_fds := fds', srv_translations := (srv_translations s)(fd \<mapsto> c)\<rparr>))))"

text \<open>How the body of the loop over the descriptors ends.\<close>

datatype flow = Next | Return int

text \<open>Lines 97 to 156: the descriptor is readable.  The flag says whether \<^verbatim>\<open>continue\<close> was taken.\<close>

definition pollin_branch ::
  "(nat \<Rightarrow> u8) \<Rightarrow> fd_env \<Rightarrow> rtt_server \<Rightarrow> nat \<Rightarrow> cxx_error + (rtt_server \<times> bool)" where
  "pollin_branch fresh env s i =
     (let fd = pfd_fd (srv_fds s ! i) in
      if env_read_ret env \<le> 0 \<and> env_read_ret env \<noteq> EAGAIN then Inr (dispose s i, True)
      else
        and_then (get_data s fd) (\<lambda>t.
        and_then (on_bytes fresh env t (pfd_events (srv_fds s ! i))) (\<lambda>(t, ev, reply).
          Inr (set_events (set_data s fd t) i ev, reply = None))))"

definition pollout_branch :: "fd_env \<Rightarrow> rtt_server \<Rightarrow> nat \<Rightarrow> int \<Rightarrow> cxx_error + rtt_server" where
  "pollout_branch env s i fd =
     and_then (get_data s fd) (\<lambda>t.
     and_then (on_writable env t (pfd_events (srv_fds s ! i))) (\<lambda>r.
       case r of
         None \<Rightarrow> Inr (dispose s i)
       | Some (t, ev) \<Rightarrow> Inr (set_events (set_data s fd t) i ev)))"

definition handle_fd ::
  "(nat \<Rightarrow> u8) \<Rightarrow> fd_env \<Rightarrow> rtt_server \<Rightarrow> nat \<Rightarrow> cxx_error + (rtt_server \<times> flow)" where
  "handle_fd fresh env s i =
     (let rev = pfd_revents (srv_fds s ! i); fd = pfd_fd (srv_fds s ! i) in
      and_then (if has_event rev POLLIN then pollin_branch fresh env s i else Inr (s, False)) (\<lambda>(s, cont).
        if cont then Inr (s, Next)
        else
          and_then (if has_event rev POLLOUT then pollout_branch env s i fd else Inr s) (\<lambda>s.
            if has_event rev POLLERR then
              if env_so_error env = EINTR then Inr (s, Next)
              else Inr (dispose s i, Return (- 1))
            else Inr (s, Next))))"

lemma dispose_length [simp]: "length (srv_fds (dispose s i)) = length (srv_fds s)"
  by (simp add: dispose_def)

lemma set_events_length [simp]: "length (srv_fds (set_events s i ev)) = length (srv_fds s)"
  by (simp add: set_events_def)

lemma set_data_fds [simp]: "srv_fds (set_data s fd t) = srv_fds s"
  by (simp add: set_data_def)

lemma pollin_branch_length: "pollin_branch fresh env s i = Inr (s', c) \<Longrightarrow> length (srv_fds s') = length (srv_fds s)"
  by (auto simp: pollin_branch_def Let_def and_then_Inr_iff split: if_splits)

lemma pollout_branch_length: "pollout_branch env s i fd = Inr s' \<Longrightarrow> length (srv_fds s') = length (srv_fds s)"
  by (auto simp: pollout_branch_def and_then_Inr_iff split: option.splits)

lemma handle_fd_length: "handle_fd fresh env s i = Inr (s', f) \<Longrightarrow> length (srv_fds s') = length (srv_fds s)"
  by (auto simp: handle_fd_def Let_def and_then_Inr_iff split: if_splits
      dest!: pollin_branch_length pollout_branch_length)

text \<open>
  The loop \<^verbatim>\<open>for (size_t i = 1; i < fds.size(); i++)\<close> with its budget
  \<open>fd_size\<close>; \<open>envs i\<close> is what the system calls return for descriptor \<open>i\<close>.
\<close>

function scan_fds ::
  "(nat \<Rightarrow> u8) \<Rightarrow> (nat \<Rightarrow> fd_env) \<Rightarrow> nat \<Rightarrow> int \<Rightarrow> rtt_server \<Rightarrow> cxx_error + (rtt_server \<times> flow)" where
  "scan_fds fresh envs i fd_size s =
     (if length (srv_fds s) \<le> i then Inr (s, Next)
      else if pfd_fd (srv_fds s ! i) = - 1 then scan_fds fresh envs (Suc i) fd_size s
      else if fd_size \<le> 0 then Inr (s, Next)
      else
        let rev = pfd_revents (srv_fds s ! i) in
        if has_event rev POLLERR \<or> has_event rev POLLIN \<or> has_event rev POLLOUT then
          case handle_fd fresh (envs i) s i of
            Inl e \<Rightarrow> Inl e
          | Inr (s', Return r) \<Rightarrow> Inr (s', Return r)
          | Inr (s', Next) \<Rightarrow> scan_fds fresh envs (Suc i) (fd_size - 1) s'
        else scan_fds fresh envs (Suc i) fd_size s)"
  by pat_completeness auto
termination
  by (relation "measure (\<lambda>(fresh, envs, i, fd_size, s). length (srv_fds s) - i)")
    (auto dest: handle_fd_length)

declare scan_fds.simps [simp del]

text \<open>
  One round of \<^verbatim>\<open>for (;;)\<close> in \<^verbatim>\<open>startDomain\<close>; \<open>accepted\<close> is what
  \<^verbatim>\<open>acceptor_.create()\<close> returns, \<open>None\<close> being \<^verbatim>\<open>nullptr\<close>.
\<close>

definition start_domain_round ::
  "(nat \<Rightarrow> u8) \<Rightarrow> (nat \<Rightarrow> fd_env) \<Rightarrow> connector option \<Rightarrow> rtt_server \<Rightarrow> cxx_error + (rtt_server \<times> flow)" where
  "start_domain_round fresh envs accepted s =
     (case srv_fds s of
        [] \<Rightarrow> Inl OutOfBounds
      | p # _ \<Rightarrow>
          if has_event (pfd_revents p) POLLIN then
            (case accepted of
               None \<Rightarrow> Inr (s, Return (- 1))
             | Some c \<Rightarrow> and_then (on_new_connect s c) (scan_fds fresh envs 1 0))
          else scan_fds fresh envs 1 1 s)"

section \<open>A sequence of readable events on one connection\<close>

text \<open>The replies written while the fragments of the list arrive one after the other.\<close>

fun serve ::
  "(nat \<Rightarrow> u8) \<Rightarrow> fd_env list \<Rightarrow> translation \<Rightarrow> u16 \<Rightarrow> cxx_error + (translation \<times> u16 \<times> u8 list list)" where
  "serve fresh [] t ev = Inr (t, ev, [])"
| "serve fresh (e # es) t ev =
     and_then (on_bytes fresh e t ev) (\<lambda>(t, ev, r).
     and_then (serve fresh es t ev) (\<lambda>(t, ev, rs).
       Inr (t, ev, (case r of None \<Rightarrow> rs | Some p \<Rightarrow> p # rs))))"

text \<open>\<^verbatim>\<open>read\<close> returned the number of bytes it delivered.\<close>

definition delivers :: "fd_env \<Rightarrow> bool" where
  "delivers e \<longleftrightarrow> env_read_ret e = int (length (env_read_data e))"

text \<open>A sample environment: the given bytes are read, the reply is taken whole.\<close>

definition example_env :: "u8 list \<Rightarrow> fd_env" where
  "example_env bs =
     \<lparr>env_read_ret = int (length bs), env_read_data = bs,
      env_recv_time = \<lparr>tv_sec = 7, tv_usec = 5\<rparr>, env_send_time = \<lparr>tv_sec = 7, tv_usec = 9\<rparr>,
      env_write_ret = 24, env_write_errno = 0, env_out_ret = 0, env_out_errno = 0, env_so_error = 0\<rparr>"

section \<open>The table invariant\<close>

text \<open>
  The descriptors in use are pairwise different and are exactly the keys of the connection
  table.
\<close>

definition fd_at :: "rtt_server \<Rightarrow> nat \<Rightarrow> int" where
  "fd_at s i = pfd_fd (srv_fds s ! i)"

definition server_inv :: "rtt_server \<Rightarrow> bool" where
  "server_inv s \<longleftrightarrow>
     (\<forall>i < length (srv_fds s). \<forall>j < length (srv_fds s). fd_at s i = fd_at s j \<longrightarrow> fd_at s i \<noteq> - 1 \<longrightarrow> i = j) \<and>
     dom (srv_translations s) = {fd. fd \<noteq> - 1 \<and> (\<exists>i < length (srv_fds s). fd_at s i = fd)}"

section \<open>Lemmas\<close>

lemma take_package_data:
  assumes straight: "cb_straight b" and enough: "sizeof_rtt_package \<le> length (cb_data b)"
  shows "\<exists>b'. take_package b =
           Inr (\<lparr>c_send_ts = be_word (take 8 (cb_data b)),
                 s_recv_ts = be_word (take 8 (drop 8 (cb_data b))),
                 s_send_ts = be_word (take 8 (drop 16 (cb_data b)))\<rparr>, b') \<and>
         cb_data b' = drop sizeof_rtt_package (cb_data b) \<and> cb_straight b' \<and>
         (length (cb_data b) = sizeof_rtt_package \<longrightarrow> cb_linear b')"
proof -
  note len = enough [unfolded sizeof_rtt_package_def]
  from cbq.take64 [OF straight] len obtain b1
    where b1: "cb_peek b = Inr (be_word (take 8 (cb_data b)) :: u64)" "cb_skip b 8 = Inr b1"
      "cb_straight b1" "cb_data b1 = drop 8 (cb_data b)" by auto
  have "8 \<le> length (cb_data b1)" using len b1(4) by simp
  from cbq.take64 [OF b1(3) this] obtain b2
    where b2: "cb_peek b1 = Inr (be_word (take 8 (cb_data b1)) :: u64)" "cb_skip b1 8 = Inr b2"
      "cb_straight b2" "cb_data b2 = drop 8 (cb_data b1)" by auto
  have "8 \<le> length (cb_data b2)" using len b1(4) b2(4) by simp
  from cbq.take64 [OF b2(3) this] obtain b3
    where b3: "cb_peek b2 = Inr (be_word (take 8 (cb_data b2)) :: u64)" "cb_skip b2 8 = Inr b3"
      "cb_straight b3" "cb_data b3 = drop 8 (cb_data b2)" by auto
  have "length (cb_data b) = sizeof_rtt_package \<Longrightarrow> cb_linear b3"
    using cbq.drained [OF b2(3), of b3] b1(4) b2(4) b3(2) by (simp add: sizeof_rtt_package_def)
  with b1 b2 b3 show ?thesis by (simp add: take_package_def sizeof_rtt_package_def)
qed

lemma queue_unsent_all_sent: "queue_unsent fresh t ev pkg 24 err = Inr (t, ev)"
  by (simp add: queue_unsent_def sizeof_rtt_package_def)

lemma on_bytes_fragment:
  assumes home: "cb_linear (rbuffer t)" and e: "delivers e"
    and less: "length (cb_data (rbuffer t)) + length (env_read_data e) < sizeof_rtt_package"
  shows "\<exists>rb. on_bytes fresh e t ev = Inr (t\<lparr>rbuffer := rb\<rparr>, ev OR POLLIN, None) \<and> cb_linear rb \<and>
           cb_data rb = cb_data (rbuffer t) @ env_read_data e"
proof -
  from cb_append_linear [OF home, of "env_read_data e" fresh] less obtain rb
    where rb: "cb_append fresh (rbuffer t) (env_read_data e) (length (env_read_data e)) = Inr rb"
      "cb_linear rb" "cb_data rb = cb_data (rbuffer t) @ env_read_data e"
    by (auto simp: sizeof_rtt_package_def padding_def)
  then have "cb_readed_size rb < sizeof_rtt_package"
    using less by (simp add: cb_readed_size_data cb_linear_valid)
  with rb e show ?thesis by (intro exI [of _ rb]) (simp add: on_bytes_def delivers_def)
qed

lemma on_bytes_complete:
  assumes home: "cb_linear (rbuffer t)" and e: "delivers e" and sent: "env_write_ret e = 24"
    and whole: "cb_data (rbuffer t) @ env_read_data e = package_bytes (network_package c r s)"
  shows "\<exists>rb. on_bytes fresh e t ev = Inr (t\<lparr>rbuffer := rb\<rparr>, ev,
             Some (package_bytes (network_package c (timeval2ui64 (env_recv_time e))
                                                  (timeval2ui64 (env_send_time e))))) \<and>
           cb_linear rb \<and> cb_data rb = []"
proof -
  let ?d = "package_bytes (network_package c r s)"
  have bytes: "?d = be_bytes 8 c @ be_bytes 8 r @ be_bytes 8 s" by (rule package_bytes_network)
  have "length (cb_data (rbuffer t) @ env_read_data e) = 24"
    unfolding whole by (simp add: sizeof_rtt_package_def)
  then have "length (cb_data (rbuffer t)) + length (env_read_data e) + padding \<le> 2 ^ 61"
    by (simp add: padding_def)
  from cb_append_linear [OF home this, of fresh] obtain rb
    where rb: "cb_append fresh (rbuffer t) (env_read_data e) (length (env_read_data e)) = Inr rb"
      "cb_linear rb" "cb_data rb = ?d" using whole by auto
  have straight: "cb_straight rb" using rb(2) by (rule cbq.home_inv)
  have size: "cb_readed_size rb = sizeof_rtt_package"
    using rb by (simp add: cb_readed_size_data cb_linear_valid)
  have "be_word (be_bytes 8 w) = w" for w :: u64 using be_word_be_bytes [where 'a = 64] by simp
  with take_package_data [OF straight] rb(3) bytes obtain rb'
    where rb': "take_package rb = Inr (\<lparr>c_send_ts = c, s_recv_ts = r, s_send_ts = s\<rparr>, rb')"
      "cb_data rb' = []" "cb_linear rb'" by (auto simp: sizeof_rtt_package_def)
  show ?thesis
    using rb(1) size rb' e sent
    by (intro exI [of _ rb']) (simp add: on_bytes_def delivers_def Let_def queue_unsent_all_sent
        reply_package_def network_package_def)
qed

lemma serve_append:
  "serve fresh (es @ es') t ev =
     and_then (serve fresh es t ev) (\<lambda>(t, ev, rs).
     and_then (serve fresh es' t ev) (\<lambda>(t, ev, rs'). Inr (t, ev, rs @ rs')))"
proof (induction es arbitrary: t ev)
  case Nil
  show ?case by (cases "serve fresh es' t ev") auto
next
  case (Cons e es)
  then show ?case
    by (cases "on_bytes fresh e t ev") (auto simp: and_then_def split: sum.splits option.splits)
qed

lemma serve_fragments:
  assumes "cb_linear (rbuffer t)" and "\<forall>e \<in> set es. delivers e"
    and "length (cb_data (rbuffer t)) + length (concat (map env_read_data es)) < sizeof_rtt_package"
  shows "\<exists>t' ev'. serve fresh es t ev = Inr (t', ev', []) \<and> cb_linear (rbuffer t') \<and>
           cb_data (rbuffer t') = cb_data (rbuffer t) @ concat (map env_read_data es)"
  using assms
proof (induction es arbitrary: t ev)
  case Nil
  then show ?case by simp
next
  case (Cons e es)
  from on_bytes_fragment [of t e fresh ev] Cons.prems obtain rb
    where rb: "on_bytes fresh e t ev = Inr (t\<lparr>rbuffer := rb\<rparr>, ev OR POLLIN, None)" "cb_linear rb"
      "cb_data rb = cb_data (rbuffer t) @ env_read_data e" by auto
  from Cons.IH [of "t\<lparr>rbuffer := rb\<rparr>" "ev OR POLLIN"] Cons.prems rb show ?case by auto
qed

lemma request_served:
  assumes home: "cb_linear (rbuffer t)" "cb_data (rbuffer t) = []"
    and del: "\<forall>e' \<in> set (es @ [e]). delivers e'" and sent: "env_write_ret e = 24"
    and whole: "concat (map env_read_data (es @ [e])) = package_bytes (client_request t0)"
    and last: "env_read_data e \<noteq> []"
  shows "\<exists>t' ev'. serve fresh (es @ [e]) t ev = Inr (t', ev',
            [package_bytes (network_package (timeval2ui64 t0) (timeval2ui64 (env_recv_time e))
                                            (timeval2ui64 (env_send_time e)))]) \<and>
           cb_linear (rbuffer t') \<and> cb_data (rbuffer t') = []"
proof -
  have "length (concat (map env_read_data (es @ [e]))) = sizeof_rtt_package"
    unfolding whole by simp
  then have "length (concat (map env_read_data es)) < sizeof_rtt_package"
    using last by (cases "env_read_data e") auto
  with serve_fragments [of t es fresh ev] home del obtain t1 ev1
    where t1: "serve fresh es t ev = Inr (t1, ev1, [])" "cb_linear (rbuffer t1)"
      "cb_data (rbuffer t1) = concat (map env_read_data es)" by auto
  have "cb_data (rbuffer t1) @ env_read_data e = package_bytes (network_package (timeval2ui64 t0) 0 0)"
    using whole by (simp add: t1(3) client_request_network)
  from on_bytes_complete [OF t1(2) _ sent this, of fresh ev1] del t1(1) show ?thesis
    by (auto simp: serve_append)
qed

lemma queue_unsent_partial:
  assumes "cb_linear (wbuffer t)" and "length (cb_data (wbuffer t)) \<le> 2 ^ 60"
    and "length pkg = sizeof_rtt_package" and "0 < ws" and "ws < 24"
  shows "\<exists>w. queue_unsent fresh t ev pkg ws err = Inr (t\<lparr>wbuffer := w\<rparr>, wait_writable ev) \<and>
           cb_linear w \<and> cb_data w = cb_data (wbuffer t) @ drop (nat ws) pkg"
proof -
  have len: "size_sub sizeof_rtt_package (nat ws) = length (drop (nat ws) pkg)"
    using assms by (simp add: size_simps sizeof_rtt_package_def nat_le_iff)
  have "length (cb_data (wbuffer t)) + length (drop (nat ws) pkg) + padding \<le> 2 ^ 61"
    using assms by (simp add: padding_def sizeof_rtt_package_def)
  from cb_append_linear [OF assms(1) this, of fresh] obtain w
    where "cb_append fresh (wbuffer t) (drop (nat ws) pkg) (length (drop (nat ws) pkg)) = Inr w"
      "cb_linear w" "cb_data w = cb_data (wbuffer t) @ drop (nat ws) pkg" by auto
  then show ?thesis
    using assms by (intro exI [of _ w]) (simp add: queue_unsent_def Let_def len [unfolded sizeof_rtt_package_def]
        nat_less_iff sizeof_rtt_package_def del: length_drop)
qed

lemma queue_unsent_zero:
  assumes "cb_linear (wbuffer t)" and "length (cb_data (wbuffer t)) \<le> 2 ^ 60"
    and "length pkg = sizeof_rtt_package"
  shows "\<exists>w. queue_unsent fresh t ev pkg 0 EAGAIN =
             Inr (t\<lparr>wbuffer := w\<rparr>, wait_writable (wait_writable ev)) \<and>
           cb_linear w \<and> cb_data w = cb_data (wbuffer t) @ pkg @ pkg"
proof -
  have len: "size_sub sizeof_rtt_package 0 = length pkg"
    using assms by (simp add: size_simps sizeof_rtt_package_def)
  have "length (cb_data (wbuffer t)) + length pkg + padding \<le> 2 ^ 61"
    using assms by (simp add: padding_def sizeof_rtt_package_def)
  from cb_append_linear [OF assms(1) this, of fresh] obtain w1
    where w1: "cb_append fresh (wbuffer t) pkg (length pkg) = Inr w1" "cb_linear w1"
      "cb_data w1 = cb_data (wbuffer t) @ pkg" by auto
  have "length (cb_data w1) + length pkg + padding \<le> 2 ^ 61"
    using assms w1(3) by (simp add: padding_def sizeof_rtt_package_def)
  from cb_append_linear [OF w1(2) this, of fresh] obtain w2
    where w2: "cb_append fresh w1 pkg (length pkg) = Inr w2" "cb_linear w2"
      "cb_data w2 = cb_data w1 @ pkg" by auto
  show ?thesis
    using w1 w2 by (intro exI [of _ w2]) (simp add: queue_unsent_def Let_def
        len [unfolded sizeof_rtt_package_def] sizeof_rtt_package_def)
qed

lemma queue_unsent_would_block:
  assumes "cb_linear (wbuffer t)" and "length (cb_data (wbuffer t)) \<le> 2 ^ 60"
    and "length pkg = sizeof_rtt_package"
  shows "queue_unsent fresh t ev pkg (- 1) EAGAIN = Inl OutOfBounds"
proof -
  have "cb_append fresh (wbuffer t) pkg 25 = Inl OutOfBounds"
    using assms by (intro cb_append_short) (simp_all add: padding_def sizeof_rtt_package_def)
  then show ?thesis by (simp add: queue_unsent_def size_sub_def sizeof_rtt_package_def)
qed

text \<open>The table operations keep the invariant.\<close>

lemma find_free_Some: "find_free ps = Some i \<Longrightarrow> i < length ps \<and> pfd_fd (ps ! i) = - 1"
  by (induction ps arbitrary: i) (auto split: if_splits)

lemma find_free_None: "find_free ps = None \<Longrightarrow> p \<in> set ps \<Longrightarrow> pfd_fd p \<noteq> - 1"
  by (induction ps) (auto split: if_splits)

lemma server_inv_dispose:
  assumes "server_inv s" and "i < length (srv_fds s)"
  shows "server_inv (dispose s i)"
proof -
  have at: "fd_at (dispose s i) j = (if j = i then - 1 else fd_at s j)" if "j < length (srv_fds s)" for j
    using that assms(2) by (simp add: fd_at_def dispose_def nth_list_update)
  have dom: "dom (srv_translations (dispose s i)) = dom (srv_translations s) - {fd_at s i}"
    by (simp add: dispose_def fd_at_def)
  show ?thesis
    using assms unfolding server_inv_def dom by (auto simp: at split: if_splits)
qed

lemma server_inv_frame:
  assumes "server_inv s" and "dom (srv_translations s') = dom (srv_translations s)"
    and "map pfd_fd (srv_fds s') = map pfd_fd (srv_fds s)"
  shows "server_inv s'"
proof -
  have len: "length (srv_fds s') = length (srv_fds s)" using assms(3) by (rule map_eq_imp_length_eq)
  have "fd_at s' i = fd_at s i" if "i < length (srv_fds s)" for i
    using assms(3) that len by (metis fd_at_def nth_map)
  then show ?thesis using assms(1,2) len by (auto simp: server_inv_def)
qed

lemma server_inv_update:
  assumes "server_inv s" and "get_data s fd = Inr t0" and "i < length (srv_fds s)"
  shows "server_inv (set_events (set_data s fd t) i ev)"
proof (rule server_inv_frame [OF assms(1)])
  show "dom (srv_translations (set_events (set_data s fd t) i ev)) = dom (srv_translations s)"
    using assms(2) by (auto simp: set_events_def set_data_def get_data_def split: option.splits if_splits)
  show "map pfd_fd (srv_fds (set_events (set_data s fd t) i ev)) = map pfd_fd (srv_fds s)"
    using assms(3) by (simp add: set_events_def map_update list_update_same_conv)
qed

lemma server_inv_insert:
  assumes inv: "server_inv s" and f: "f \<noteq> - 1" "f \<notin> dom (srv_translations s)"
    and dom: "dom (srv_translations s') = insert f (dom (srv_translations s))"
    and i: "i < length (srv_fds s')"
    and at: "\<And>j. j < length (srv_fds s') \<Longrightarrow> fd_at s' j = (if j = i then f else fd_at s j)"
    and old: "\<And>j. j < length (srv_fds s') \<Longrightarrow> j \<noteq> i \<Longrightarrow> j < length (srv_fds s)"
    and kept: "\<And>j. j < length (srv_fds s) \<Longrightarrow> fd_at s j \<noteq> - 1 \<Longrightarrow> j < length (srv_fds s') \<and> j \<noteq> i"
  shows "server_inv s'"
proof -
  let ?in = "\<lambda>s f. f \<noteq> - 1 \<and> (\<exists>j < length (srv_fds s). fd_at s j = f)"
  have dom_s: "dom (srv_translations s) = {f. ?in s f}" using inv by (simp add: server_inv_def)
  then have unused: "fd_at s j \<noteq> f" if "j < length (srv_fds s)" for j using f that by auto
  have "?in s' g \<longleftrightarrow> g = f \<or> ?in s g" for g
    using f i at old kept by metis
  then have "dom (srv_translations s') = {g. ?in s' g}" using dom dom_s by auto
  moreover have "j = k" if "j < length (srv_fds s')" "k < length (srv_fds s')"
      "fd_at s' j = fd_at s' k" "fd_at s' j \<noteq> - 1" for j k
    using that inv unused old unfolding server_inv_def by (metis at)
  ultimately show ?thesis by (auto simp: server_inv_def)
qed

lemma server_inv_on_new_connect:
  assumes inv: "server_inv s" and new: "on_new_connect s c = Inr s'" and fd: "conn_fd c \<noteq> - 1"
  shows "server_inv s'"
proof -
  note new = new [unfolded on_new_connect_def Let_def and_then_Inr_iff assert_that_def]
  have f: "conn_fd c \<notin> dom (srv_translations s)"
    and dom: "dom (srv_translations s') = insert (conn_fd c) (dom (srv_translations s))"
    using new by (auto split: if_splits)
  show ?thesis
  proof (cases "find_free (srv_fds s)")
    case None
    then have fds: "srv_fds s' =
        srv_fds s @ [\<lparr>pfd_fd = conn_fd c, pfd_events = POLLIN OR POLLERR, pfd_revents = 0\<rparr>]"
      using new by auto
    show ?thesis
      by (rule server_inv_insert [OF inv fd f dom, of "length (srv_fds s)"])
        (auto simp: fds fd_at_def nth_append)
  next
    case (Some i)
    then have fds: "srv_fds s' =
        (srv_fds s)[i := (srv_fds s ! i)\<lparr>pfd_fd := conn_fd c, pfd_events := POLLIN OR POLLERR\<rparr>]"
      using new by auto
    show ?thesis
      using find_free_Some [OF Some]
      by (intro server_inv_insert [OF inv fd f dom, of i]) (auto simp: fds fd_at_def nth_list_update)
  qed
qed

lemma server_inv_pollin:
  "server_inv s \<Longrightarrow> i < length (srv_fds s) \<Longrightarrow> pollin_branch fresh env s i = Inr (s', c) \<Longrightarrow> server_inv s'"
  by (auto simp: pollin_branch_def Let_def and_then_Inr_iff split: if_splits
      intro: server_inv_dispose server_inv_update)

lemma server_inv_pollout:
  "server_inv s \<Longrightarrow> i < length (srv_fds s) \<Longrightarrow> pollout_branch env s i fd = Inr s' \<Longrightarrow> server_inv s'"
  by (auto simp: pollout_branch_def and_then_Inr_iff split: option.splits
      intro: server_inv_dispose server_inv_update)

lemma server_inv_handle_fd:
  assumes inv: "server_inv s" and i: "i < length (srv_fds s)" and h: "handle_fd fresh env s i = Inr (s', f)"
  shows "server_inv s'"
proof -
  let ?rev = "pfd_revents (srv_fds s ! i)" and ?fd = "pfd_fd (srv_fds s ! i)"
  from h obtain s1 c where
    s1: "(if has_event ?rev POLLIN then pollin_branch fresh env s i else Inr (s, False)) = Inr (s1, c)"
    and rest: "(if c then Inr (s1, Next)
       else and_then (if has_event ?rev POLLOUT then pollout_branch env s1 i ?fd else Inr s1) (\<lambda>s.
            if has_event ?rev POLLERR then
              if env_so_error env = EINTR then Inr (s, Next)
              else Inr (dispose s i, Return (- 1))
            else Inr (s, Next))) = Inr (s', f)"
    by (auto simp: handle_fd_def Let_def and_then_Inr_iff)
  have ok1: "server_inv s1" "i < length (srv_fds s1)"
    using s1 inv i by (auto split: if_splits dest: server_inv_pollin pollin_branch_length)
  show ?thesis
  proof (cases c)
    case True
    with rest ok1 show ?thesis by simp
  next
    case False
    with rest obtain s2 where
      s2: "(if has_event ?rev POLLOUT then pollout_branch env s1 i ?fd else Inr s1) = Inr s2"
      and s': "s' = s2 \<or> s' = dispose s2 i"
      by (auto simp: and_then_Inr_iff split: if_splits)
    have "server_inv s2" "i < length (srv_fds s2)"
      using s2 ok1 by (auto split: if_splits dest: server_inv_pollout pollout_branch_length)
    with s' show ?thesis by (auto intro: server_inv_dispose)
  qed
qed

lemma server_inv_scan_fds:
  "server_inv s \<Longrightarrow> scan_fds fresh envs i n s = Inr (s', f) \<Longrightarrow> server_inv s'"
proof (induction fresh envs i n s rule: scan_fds.induct)
  case (1 fresh envs i n s)
  show ?case
    using "1.prems" "1.IH"
    by (subst (asm) scan_fds.simps)
      (auto simp: Let_def not_le split: if_splits sum.splits prod.splits flow.splits
        dest: server_inv_handle_fd)
qed

lemma scan_fds_no_budget: "n \<le> 0 \<Longrightarrow> scan_fds fresh envs i n s = Inr (s, Next)"
proof (induction fresh envs i n s rule: scan_fds.induct)
  case (1 fresh envs i n s)
  then show ?case by (simp add: scan_fds.simps [of fresh envs i n s])
qed

lemma translation_new_ready:
  "\<exists>t. translation_new st = Inr t \<and> cb_linear (rbuffer t) \<and> cb_data (rbuffer t) = [] \<and>
       cb_linear (wbuffer t) \<and> cb_data (wbuffer t) = []"
proof -
  have "padding \<le> 72" "(72 :: nat) \<le> 2 ^ 62" by (simp_all add: padding_def)
  from circulation_buffer_new_linear [OF this] obtain b
    where "circulation_buffer_new 72 = Inr b" "cb_linear b" "cb_data b = []" by auto
  moreover have "fst (cb_move b) = b" for b by (simp add: cb_move_def)
  ultimately show ?thesis
    by (simp add: translation_new_def sizeof_rtt_package_def)
qed

section \<open>Properties\<close>

text \<open>
  What happens to a reply that \<^verbatim>\<open>write\<close> does not take at once, for a write
  buffer at home.  A partial write queues exactly the unsent tail and switches the descriptor
  to writing.  A write that would block (\<open>-1\<close>, \<open>EAGAIN\<close>) reads 25 bytes of the
  24 byte package; a write of zero bytes with \<open>EAGAIN\<close> queues the package twice; any
  other error stops at \<^verbatim>\<open>assert(0)\<close>.
\<close>

theorem unsent_reply_outcomes:
  assumes "cb_linear (wbuffer t)" and "length (cb_data (wbuffer t)) \<le> 2 ^ 60"
    and "length pkg = sizeof_rtt_package"
  shows "queue_unsent fresh t ev pkg 24 err = Inr (t, ev) \<and>
    (0 < ws \<and> ws < 24 \<longrightarrow>
       (\<exists>w. queue_unsent fresh t ev pkg ws err = Inr (t\<lparr>wbuffer := w\<rparr>, wait_writable ev) \<and>
          cb_linear w \<and> cb_data w = cb_data (wbuffer t) @ drop (nat ws) pkg)) \<and>
    queue_unsent fresh t ev pkg (- 1) EAGAIN = Inl OutOfBounds \<and>
    (\<exists>w. queue_unsent fresh t ev pkg 0 EAGAIN =
           Inr (t\<lparr>wbuffer := w\<rparr>, wait_writable (wait_writable ev)) \<and>
         cb_data w = cb_data (wbuffer t) @ pkg @ pkg) \<and>
    (ws \<le> 0 \<and> err \<noteq> EAGAIN \<longrightarrow> queue_unsent fresh t ev pkg ws err = Inl AssertionFailed)"
  using queue_unsent_partial [OF assms, of ws fresh ev err] queue_unsent_zero [OF assms, of fresh ev]
    queue_unsent_would_block [OF assms] queue_unsent_all_sent
  by (auto simp: queue_unsent_def)

theorem unsent_reply_outcomes_witness:
  "\<exists>t w. translation_new UNKNOW = Inr t \<and>
     queue_unsent (\<lambda>_. 0) t POLLIN (package_bytes (network_package 1 2 3)) 20 0
       = Inr (t\<lparr>wbuffer := w\<rparr>, wait_writable POLLIN) \<and> cb_data w = [0, 0, 0, 3]"
proof -
  from translation_new_ready [of UNKNOW] obtain t
    where t: "translation_new UNKNOW = Inr t" "cb_linear (wbuffer t)" "cb_data (wbuffer t) = []" by auto
  have "drop (nat 20) (package_bytes (network_package 1 2 3)) = [0, 0, 0, 3]"
    by (simp add: package_bytes_network be_bytes_def le_bytes_numeral)
  then show ?thesis
    using unsent_reply_outcomes [of t "package_bytes (network_package 1 2 3)" "\<lambda>_. 0" POLLIN 0 20] t
    by auto
qed

text \<open>
  A connection registered by \<^verbatim>\<open>onNewConnect\<close> cannot be served: its
  \<^verbatim>\<open>std::any\<close> is still empty, so that the first bytes that arrive make
  \<^verbatim>\<open>getData<Translation>()\<close> throw \<^verbatim>\<open>std::bad_any_cast\<close> out of the loop.
\<close>

theorem new_connection_throws:
  assumes "on_new_connect s c = Inr s'" and "conn_data c = None"
    and "pfd_fd (srv_fds s' ! i) = conn_fd c" and "has_event (pfd_revents (srv_fds s' ! i)) POLLIN"
    and "0 < env_read_ret env"
  shows "handle_fd fresh env s' i = Inl BadAnyCast"
proof -
  have "srv_translations s' (conn_fd c) = Some c"
    using assms(1) by (auto simp: on_new_connect_def Let_def and_then_Inr_iff)
  then show ?thesis
    using assms by (simp add: handle_fd_def pollin_branch_def get_data_def Let_def)
qed

theorem new_connection_throws_witness:
  "\<exists>s'. on_new_connect \<lparr>srv_fds = [\<lparr>pfd_fd = - 1, pfd_events = 0, pfd_revents = POLLIN\<rparr>],
        srv_translations = Map.empty\<rparr> \<lparr>conn_fd = 9, conn_data = None\<rparr> = Inr s' \<and>
     handle_fd (\<lambda>_. 0) (example_env [1]) s' 0 = Inl BadAnyCast"
proof -
  let ?s = "\<lparr>srv_fds = [\<lparr>pfd_fd = - 1, pfd_events = 0, pfd_revents = POLLIN\<rparr>], srv_translations = Map.empty\<rparr>"
    and ?c = "\<lparr>conn_fd = 9, conn_data = None\<rparr>"
  from translation_new_ready [of UNKNOW] obtain s' where
    s': "on_new_connect ?s ?c = Inr s'" "pfd_fd (srv_fds s' ! 0) = 9" "pfd_revents (srv_fds s' ! 0) = POLLIN"
    by (auto simp: on_new_connect_def)
  then have "handle_fd (\<lambda>_. 0) (example_env [1]) s' 0 = Inl BadAnyCast"
    by (intro new_connection_throws [OF s'(1)]) (simp_all add: has_event_def POLLIN_def example_env_def)
  with s' show ?thesis by blast
qed

end
