(* ===== verification/Rtt_Connections.thy ===== *)
theory Rtt_Connections
  imports Rtt_Server
begin

text \<open>
  Many requests and many connections of the server of \<^verbatim>\<open>src/set/rtt/rtt_server.cpp\<close>:
  one connection serves any number of requests one after the other, a round of
  \<^verbatim>\<open>startDomain\<close> touches no connection but the one it handles, and any number of rounds
  keeps the table of descriptors consistent.
\<close>

section \<open>startDomain\<close>

text \<open>
  The loop \<^verbatim>\<open>for (;;)\<close> of \<^verbatim>\<open>startDomain\<close>, one list element per round: the
  result of \<^verbatim>\<open>acceptor_.create()\<close> and those of the system calls.  The result is the
  value returned, \<open>None\<close> while the loop is still running.
\<close>

record domain_round =
  dr_accepted :: "connector option"
  dr_envs :: "nat \<Rightarrow> fd_env"

fun start_domain ::
  "(nat \<Rightarrow> u8) \<Rightarrow> domain_round list \<Rightarrow> rtt_server \<Rightarrow> cxx_error + (rtt_server \<times> int option)" where
  "start_domain fresh [] s = Inr (s, None)"
| "start_domain fresh (r # rs) s =
     and_then (start_domain_round fresh (dr_envs r) (dr_accepted r) s) (\<lambda>(s, f).
       case f of Return v \<Rightarrow> Inr (s, Some v) | Next \<Rightarrow> start_domain fresh rs s)"

section \<open>Requests one after the other\<close>






section \<open>What a round leaves alone\<close>

text \<open>
  Slot \<open>j\<close> and its connection are as they were: same descriptor, same event mask, same
  entry of the connection table.
\<close>

definition untouched :: "nat \<Rightarrow> rtt_server \<Rightarrow> rtt_server \<Rightarrow> bool" where
  "untouched j s s' \<longleftrightarrow>
     length (srv_fds s) \<le> length (srv_fds s') \<and> srv_fds s' ! j = srv_fds s ! j \<and>
     srv_translations s' (fd_at s j) = srv_translations s (fd_at s j)"

lemma untouched_refl [simp]: "untouched j s s"
  by (simp add: untouched_def)

lemma untouched_trans: "untouched j s s1 \<Longrightarrow> untouched j s1 s2 \<Longrightarrow> untouched j s s2"
  by (auto simp: untouched_def fd_at_def)

lemma other_fd:
  assumes "server_inv s" and "i < length (srv_fds s)" and "j < length (srv_fds s)" and "i \<noteq> j"
    and "fd_at s j \<noteq> - 1"
  shows "fd_at s i \<noteq> fd_at s j"
  using assms unfolding server_inv_def by metis

lemma untouched_dispose:
  "i \<noteq> j \<Longrightarrow> fd_at s i \<noteq> fd_at s j \<Longrightarrow> untouched j s (dispose s i)"
  by (simp add: untouched_def dispose_def fd_at_def)

lemma untouched_update:
  "i \<noteq> j \<Longrightarrow> fd \<noteq> fd_at s j \<Longrightarrow> untouched j s (set_events (set_data s fd t) i ev)"
  by (simp add: untouched_def set_events_def set_data_def fd_at_def)

lemma untouched_pollin:
  assumes "i \<noteq> j" and "fd_at s i \<noteq> fd_at s j" and "pollin_branch fresh env s i = Inr (s', c)"
  shows "untouched j s s'"
  using assms
  by (auto simp: pollin_branch_def Let_def and_then_Inr_iff fd_at_def split: if_splits
      intro!: untouched_dispose untouched_update)

lemma untouched_pollout:
  assumes "i \<noteq> j" and "fd_at s i \<noteq> fd_at s j" and "fd \<noteq> fd_at s j"
    and "pollout_branch env s i fd = Inr s'"
  shows "untouched j s s'"
  using assms
  by (auto simp: pollout_branch_def and_then_Inr_iff split: option.splits
      intro!: untouched_dispose untouched_update)

lemma untouched_handle_fd:
  assumes inv: "server_inv s" and i: "i < length (srv_fds s)" and j: "j < length (srv_fds s)" "i \<noteq> j"
    and used: "fd_at s j \<noteq> - 1" and h: "handle_fd fresh env s i = Inr (s', f)"
  shows "untouched j s s'"
proof -
  let ?rev = "pfd_revents (srv_fds s ! i)" and ?fd = "fd_at s i"
  note differ = other_fd [OF inv i j used]
  from h obtain s1 c where
    s1: "(if has_event ?rev POLLIN then pollin_branch fresh env s i else Inr (s, False)) = Inr (s1, c)"
    and rest: "s' = s1 \<or> (\<exists>s2. (if has_event ?rev POLLOUT then pollout_branch env s1 i ?fd else Inr s1) = Inr s2 \<and>
       (s' = s2 \<or> s' = dispose s2 i))"
    by (auto simp: handle_fd_def Let_def and_then_Inr_iff fd_at_def split: if_splits)
  have u1: "untouched j s s1"
    using s1 untouched_pollin [OF j(2) differ] by (auto split: if_splits)
  have inv1: "server_inv s1" "length (srv_fds s1) = length (srv_fds s)"
    using s1 inv i by (auto split: if_splits dest: server_inv_pollin pollin_branch_length)
  have at1: "fd_at s1 j = fd_at s j" using u1 by (simp add: untouched_def fd_at_def)
  have differ1: "fd_at s1 i \<noteq> fd_at s1 j" using other_fd [OF inv1(1), of i j] inv1(2) i j used at1 by simp
  from rest show ?thesis
  proof
    assume "s' = s1"
    with u1 show ?thesis by simp
  next
    assume "\<exists>s2. (if has_event ?rev POLLOUT then pollout_branch env s1 i ?fd else Inr s1) = Inr s2 \<and>
       (s' = s2 \<or> s' = dispose s2 i)"
    then obtain s2 where s2: "(if has_event ?rev POLLOUT then pollout_branch env s1 i ?fd else Inr s1) = Inr s2"
      and s': "s' = s2 \<or> s' = dispose s2 i" by auto
    have u2: "untouched j s1 s2"
      using s2 untouched_pollout [OF j(2) differ1] differ at1 by (auto split: if_splits)
    have inv2: "server_inv s2" "length (srv_fds s2) = length (srv_fds s)"
      using s2 inv1 i by (auto split: if_splits dest: server_inv_pollout pollout_branch_length)
    have "fd_at s2 j = fd_at s j" using u2 at1 by (simp add: untouched_def fd_at_def)
    then have "untouched j s2 (dispose s2 i)"
      using other_fd [OF inv2(1), of i j] inv2(2) i j used by (intro untouched_dispose) simp_all
    with u1 u2 s' show ?thesis by (auto intro: untouched_trans)
  qed
qed

definition in_use :: "rtt_server \<Rightarrow> nat \<Rightarrow> bool" where
  "in_use s j \<longleftrightarrow> j < length (srv_fds s) \<and> fd_at s j \<noteq> - 1"

definition quiet :: "rtt_server \<Rightarrow> nat \<Rightarrow> bool" where
  "quiet s j \<longleftrightarrow> j < length (srv_fds s) \<and> fd_at s j \<noteq> - 1 \<and>
     \<not> has_event (pfd_revents (srv_fds s ! j)) POLLIN \<and>
     \<not> has_event (pfd_revents (srv_fds s ! j)) POLLOUT \<and>
     \<not> has_event (pfd_revents (srv_fds s ! j)) POLLERR"

lemma quiet_in_use: "quiet s j \<Longrightarrow> in_use s j"
  by (simp add: quiet_def in_use_def)

lemma in_use_untouched: "in_use s j \<Longrightarrow> untouched j s s' \<Longrightarrow> in_use s' j"
  by (auto simp: in_use_def untouched_def fd_at_def)

lemma quiet_untouched: "quiet s j \<Longrightarrow> untouched j s s' \<Longrightarrow> quiet s' j"
  by (auto simp: quiet_def untouched_def fd_at_def)

lemma scan_fds_cases:
  assumes "scan_fds fresh envs i n s = Inr (s', f)"
  obtains "s' = s"
  | "pfd_fd (srv_fds s ! i) = - 1" "i < length (srv_fds s)" "scan_fds fresh envs (Suc i) n s = Inr (s', f)"
  | "i < length (srv_fds s)" "scan_fds fresh envs (Suc i) n s = Inr (s', f)" "\<not> n \<le> 0"
      "pfd_fd (srv_fds s ! i) \<noteq> - 1"
      "\<not> (has_event (pfd_revents (srv_fds s ! i)) POLLERR \<or> has_event (pfd_revents (srv_fds s ! i)) POLLIN \<or>
          has_event (pfd_revents (srv_fds s ! i)) POLLOUT)"
  | g s1 where "i < length (srv_fds s)" "pfd_fd (srv_fds s ! i) \<noteq> - 1" "\<not> n \<le> 0"
      "has_event (pfd_revents (srv_fds s ! i)) POLLERR \<or> has_event (pfd_revents (srv_fds s ! i)) POLLIN \<or>
         has_event (pfd_revents (srv_fds s ! i)) POLLOUT"
      "handle_fd fresh (envs i) s i = Inr (s1, g)"
      "s' = s1 \<or> g = Next \<and> scan_fds fresh envs (Suc i) (n - 1) s1 = Inr (s', f)"
  using assms
  by (subst (asm) scan_fds.simps)
    (fastforce simp: Let_def not_le split: if_splits sum.splits prod.splits flow.splits)

lemma untouched_scan_fds:
  assumes "server_inv s" and "quiet s j" and "scan_fds fresh envs i n s = Inr (s', f)"
  shows "untouched j s s'"
  using assms
proof (induction "length (srv_fds s) - i" arbitrary: i n s rule: less_induct)
  case less
  from less.prems(3) show ?case
  proof (cases rule: scan_fds_cases)
    case 1
    then show ?thesis by simp
  next
    case 2
    then show ?thesis using less.prems by (intro less.hyps [of s "Suc i"]) auto
  next
    case 3
    then show ?thesis using less.prems by (intro less.hyps [of s "Suc i"]) auto
  next
    case (4 g s1)
    then have ij: "i \<noteq> j" using less.prems(2) by (auto simp: quiet_def)
    have u: "untouched j s s1"
      using untouched_handle_fd [OF less.prems(1) 4(1) _ ij _ 4(5)] less.prems(2) by (simp add: quiet_def)
    have "untouched j s1 s'" if "scan_fds fresh envs (Suc i) (n - 1) s1 = Inr (s', f)"
      using server_inv_handle_fd [OF less.prems(1) 4(1,5)] quiet_untouched [OF less.prems(2) u]
        handle_fd_length [OF 4(5)] 4(1) that by (intro less.hyps [of s1 "Suc i"]) auto
    with 4(6) u show ?thesis by (auto intro: untouched_trans)
  qed
qed

lemma untouched_new_connect:
  assumes "in_use s j" and "server_inv s" and "on_new_connect s c = Inr s'"
  shows "untouched j s s'"
proof -
  have j: "j < length (srv_fds s)" "pfd_fd (srv_fds s ! j) \<noteq> - 1"
    using assms(1) by (auto simp: in_use_def fd_at_def)
  then have "fd_at s j \<in> dom (srv_translations s)"
    using assms(2) by (auto simp: server_inv_def fd_at_def)
  moreover have "conn_fd c \<notin> dom (srv_translations s)"
    using assms(3) by (auto simp: on_new_connect_def Let_def and_then_Inr_iff assert_that_def split: if_splits)
  ultimately have "fd_at s j \<noteq> conn_fd c" by auto
  then show ?thesis
    using assms(3) j by (auto simp: on_new_connect_def Let_def and_then_Inr_iff untouched_def nth_append
        nth_list_update split: option.splits dest: find_free_Some)
qed

lemma untouched_round:
  assumes "server_inv s" and "quiet s j" and "start_domain_round fresh envs accepted s = Inr (s', f)"
  shows "untouched j s s'"
  using assms
  by (auto simp: start_domain_round_def and_then_Inr_iff scan_fds_no_budget
      split: list.splits if_splits option.splits intro: untouched_scan_fds untouched_new_connect quiet_in_use)

lemma server_inv_round:
  assumes "server_inv s" and "\<forall>c. accepted = Some c \<longrightarrow> conn_fd c \<noteq> - 1"
    and "start_domain_round fresh envs accepted s = Inr (s', f)"
  shows "server_inv s'"
  using assms
  by (auto simp: start_domain_round_def and_then_Inr_iff scan_fds_no_budget
      split: list.splits if_splits option.splits dest: server_inv_scan_fds server_inv_on_new_connect)

definition real_descriptors :: "domain_round list \<Rightarrow> bool" where
  "real_descriptors rs \<longleftrightarrow> (\<forall>r \<in> set rs. \<forall>c. dr_accepted r = Some c \<longrightarrow> conn_fd c \<noteq> - 1)"

lemma rounds_keep:
  assumes "server_inv s" and "real_descriptors rs" and "start_domain fresh rs s = Inr (s', r)"
  shows "server_inv s' \<and> (quiet s j \<longrightarrow> untouched j s s')"
  using assms
proof (induction rs arbitrary: s)
  case Nil
  then show ?case by simp
next
  case (Cons d rs)
  from Cons.prems(3) obtain s1 f where
    s1: "start_domain_round fresh (dr_envs d) (dr_accepted d) s = Inr (s1, f)"
    and k: "(case f of Return v \<Rightarrow> Inr (s1, Some v) | Next \<Rightarrow> start_domain fresh rs s1) = Inr (s', r)"
    by (auto simp: and_then_Inr_iff)
  from k have rest: "s' = s1 \<or> start_domain fresh rs s1 = Inr (s', r)" by (cases f) auto
  have inv: "server_inv s1"
    using server_inv_round [OF Cons.prems(1) _ s1] Cons.prems(2) by (simp add: real_descriptors_def)
  have u: "quiet s j \<Longrightarrow> untouched j s s1" using untouched_round [OF Cons.prems(1) _ s1] by simp
  have "start_domain fresh rs s1 = Inr (s', r) \<Longrightarrow> server_inv s' \<and> (quiet s1 j \<longrightarrow> untouched j s1 s')"
    using Cons.IH [OF inv] Cons.prems(2) by (simp add: real_descriptors_def)
  with rest inv u show ?case by (blast intro: untouched_trans quiet_untouched)
qed

section \<open>One connection under the loop\<close>










lemma idle_scan:
  assumes "\<forall>p \<in> set (srv_fds s). pfd_revents p = 0"
  shows "scan_fds fresh envs i n s = Inr (s, Next)"
  using assms
proof (induction "length (srv_fds s) - i" arbitrary: i rule: less_induct)
  case less
  have no: "\<not> has_event 0 e" for e by (simp add: has_event_def)
  show ?case
    using less by (subst scan_fds.simps) (auto simp: not_le no)
qed

text \<open>
  While the listener is reported readable, only connections are accepted.  Abstractly:
  the connections that \<^verbatim>\<open>acceptor_.create()\<close> returns are entered one after the other, and the loop
  returns -1 at the first one that fails.
\<close>

fun accept_all :: "connector option list \<Rightarrow> rtt_server \<Rightarrow> cxx_error + (rtt_server \<times> int option)" where
  "accept_all [] s = Inr (s, None)"
| "accept_all (None # cs) s = Inr (s, Some (- 1))"
| "accept_all (Some c # cs) s = and_then (on_new_connect s c) (accept_all cs)"

definition listener_ready :: "rtt_server \<Rightarrow> bool" where
  "listener_ready s \<longleftrightarrow> srv_fds s \<noteq> [] \<and> has_event (pfd_revents (srv_fds s ! 0)) POLLIN"

lemma listener_stays_ready:
  assumes "listener_ready s" and "on_new_connect s c = Inr s'"
  shows "listener_ready s'"
  using assms
  by (auto simp: listener_ready_def on_new_connect_def Let_def and_then_Inr_iff nth_append nth_list_update
      split: option.splits dest: find_free_Some)

lemma start_domain_accepts:
  assumes "listener_ready s"
  shows "start_domain fresh rs s = accept_all (map dr_accepted rs) s"
  using assms
proof (induction rs arbitrary: s)
  case (Cons r rs)
  then obtain p ps where ps: "srv_fds s = p # ps" "has_event (pfd_revents p) POLLIN"
    by (cases "srv_fds s") (auto simp: listener_ready_def)
  show ?case
  proof (cases "dr_accepted r")
    case None
    then show ?thesis using ps by (simp add: start_domain_round_def)
  next
    case (Some c)
    then have "start_domain fresh (r # rs) s = and_then (on_new_connect s c) (start_domain fresh rs)"
      using ps by (cases "on_new_connect s c") (simp_all add: start_domain_round_def scan_fds_no_budget)
    then show ?thesis using Some Cons.IH listener_stays_ready [OF Cons.prems]
      by (cases "on_new_connect s c") simp_all
  qed
qed simp

lemma accept_all_untouched:
  assumes "server_inv s" and "\<forall>c \<in> set cs. \<forall>x. c = Some x \<longrightarrow> conn_fd x \<noteq> - 1" and "in_use s j"
    and "accept_all cs s = Inr (s', r)"
  shows "untouched j s s' \<and> server_inv s'"
  using assms
proof (induction cs s rule: accept_all.induct)
  case (3 c cs s)
  from 3(5) obtain s1 where s1: "on_new_connect s c = Inr s1" "accept_all cs s1 = Inr (s', r)"
    by (auto simp: and_then_Inr_iff)
  note u = untouched_new_connect [OF 3(4,2) s1(1)]
  have "server_inv s1" using server_inv_on_new_connect [OF 3(2) s1(1)] 3(3) by simp
  from 3(1) [OF s1(1) this _ in_use_untouched [OF 3(4) u] s1(2)] 3(3) u show ?case
    by (auto intro: untouched_trans)
qed simp_all

section \<open>Properties\<close>






text \<open>
  C7: any number of rounds of \<^verbatim>\<open>startDomain\<close>, whatever is accepted, read, written and
  disposed of in them, keeps the table consistent (the descriptors in use are pairwise different
  and are exactly those with an entry in the connection table) and isolates the connections from
  each other: a slot in use for which no event is reported keeps its descriptor, its event mask
  and its connection with both buffers.
\<close>

theorem rounds_keep_table_and_quiet_connections:
  assumes "server_inv s" and "real_descriptors rs" and "start_domain fresh rs s = Inr (s', r)"
  shows "server_inv s' \<and> (quiet s j \<longrightarrow> untouched j s s')"
  using assms by (rule rounds_keep)

text \<open>A listener with a connection waiting, an idle connection on 5 and one on 6 whose peer has closed.\<close>

definition example_server :: rtt_server where
  "example_server =
     \<lparr>srv_fds = [\<lparr>pfd_fd = 3, pfd_events = POLLIN, pfd_revents = 0\<rparr>,
                 \<lparr>pfd_fd = 5, pfd_events = POLLIN, pfd_revents = 0\<rparr>,
                 \<lparr>pfd_fd = 6, pfd_events = POLLIN, pfd_revents = POLLIN\<rparr>],
      srv_translations = [3 \<mapsto> \<lparr>conn_fd = 3, conn_data = None\<rparr>, 5 \<mapsto> \<lparr>conn_fd = 5, conn_data = None\<rparr>,
                          6 \<mapsto> \<lparr>conn_fd = 6, conn_data = None\<rparr>]\<rparr>"

lemma example_server_inv: "server_inv example_server"
  by (auto simp: server_inv_def fd_at_def example_server_def less_Suc_eq numeral_3_eq_3)

lemmas scan_fds_from =
  scan_fds.simps [where i = "Suc 0"] scan_fds.simps [where i = "Suc (Suc 0)"]
  scan_fds.simps [where i = "Suc (Suc (Suc 0))"]

theorem rounds_keep_table_and_quiet_connections_witness:
  "\<exists>s'. start_domain (\<lambda>_. 0) [\<lparr>dr_accepted = None, dr_envs = \<lambda>_. example_env []\<rparr>] example_server = Inr (s', None) \<and>
     server_inv s' \<and> map pfd_fd (srv_fds s') = [3, 5, - 1] \<and> untouched 1 example_server s'"
proof -
  let ?rs = "[\<lparr>dr_accepted = None, dr_envs = \<lambda>_. example_env []\<rparr>]"
  have ev: "has_event POLLIN POLLIN" "\<not> has_event 0 e" for e by (simp_all add: has_event_def POLLIN_def)
  have run: "start_domain (\<lambda>_. 0) ?rs example_server = Inr (dispose example_server 2, None)"
    by (simp add: start_domain_round_def example_server_def scan_fds_from ev handle_fd_def pollin_branch_def
        example_env_def dispose_def EAGAIN_def numeral_2_eq_2)
  have real: "real_descriptors ?rs" by (simp add: real_descriptors_def)
  have quiet: "quiet example_server 1" by (simp add: quiet_def example_server_def fd_at_def ev)
  have fds: "map pfd_fd (srv_fds (dispose example_server 2)) = [3, 5, - 1]"
    by (simp add: dispose_def example_server_def numeral_2_eq_2)
  show ?thesis
    using rounds_keep_table_and_quiet_connections [OF example_server_inv real run, of 1] quiet run fds
    by (intro exI [of _ "dispose example_server 2"] conjI) simp_all
qed

text \<open>A connection is waiting, and another one has sent something.\<close>

definition busy_server :: rtt_server where
  "busy_server =
     \<lparr>srv_fds = [\<lparr>pfd_fd = 3, pfd_events = POLLIN, pfd_revents = POLLIN\<rparr>,
                 \<lparr>pfd_fd = 5, pfd_events = POLLIN, pfd_revents = POLLIN\<rparr>],
      srv_translations = [3 \<mapsto> \<lparr>conn_fd = 3, conn_data = None\<rparr>, 5 \<mapsto> \<lparr>conn_fd = 5, conn_data = None\<rparr>]\<rparr>"

text \<open>
  \<^verbatim>\<open>startDomain\<close> never calls \<^verbatim>\<open>poll\<close>: when no event was reported before it is entered
  none ever is, and the loop spins without changing anything, however many rounds it runs and
  whatever the peers send.
\<close>

theorem start_domain_spins:
  assumes "srv_fds s \<noteq> []" and "\<forall>p \<in> set (srv_fds s). pfd_revents p = 0"
  shows "start_domain fresh rs s = Inr (s, None)"
proof (induction rs)
  case (Cons d rs)
  have no: "\<not> has_event 0 e" for e by (simp add: has_event_def)
  have "start_domain_round fresh (dr_envs d) (dr_accepted d) s = Inr (s, Next)"
    using assms by (auto simp: start_domain_round_def idle_scan no split: list.splits)
  with Cons.IH show ?case by simp
qed simp

theorem start_domain_spins_witness:
  "start_domain (\<lambda>_. 0) (replicate 2 \<lparr>dr_accepted = None, dr_envs = \<lambda>_. example_env [1]\<rparr>)
     \<lparr>srv_fds = [\<lparr>pfd_fd = 3, pfd_events = POLLIN, pfd_revents = 0\<rparr>], srv_translations = Map.empty\<rparr>
   = Inr (\<lparr>srv_fds = [\<lparr>pfd_fd = 3, pfd_events = POLLIN, pfd_revents = 0\<rparr>], srv_translations = Map.empty\<rparr>, None)"
  by (rule start_domain_spins) simp_all

end
