(* ===== verification/Syscalls.thy ===== *)
theory Syscalls
  imports Posix
begin

text \<open>
  System calls as events.  A \<open>world\<close> holds what the kernel will answer (the
  \<open>n\<close>-th call made gets the \<open>n\<close>-th answer), the calls made so far, and the
  thread's \<^verbatim>\<open>errno\<close>.  \<open>invoke\<close> makes one call: it is recorded, and \<^verbatim>\<open>errno\<close>
  changes only when the call fails.  An answer carries the return value, the error number, an
  integer result (\<^verbatim>\<open>SO_ERROR\<close>, \<^verbatim>\<open>FD_ISSET\<close>) and the bytes delivered.
  Since the answers are arbitrary, a statement for all worlds covers every behaviour of the kernel.
\<close>

datatype syscall =
    SysSocket
  | SysSetsockopt int int int
  | SysFcntlGetfl int
  | SysFcntlSetfl int int
  | SysShutdown int int
  | SysClose int
  | SysConnect int
  | SysSelect int int
  | SysGetsockopt int
  | SysAccept int
  | SysBind int
  | SysListen int int
  | SysInetPton
  | SysPoll nat int
  | SysGettimeofday
  | SysRead int
  | SysWrite int "u8 list"
  | SysSendFd int int
  | SysRecvmsg int
  | SysFork
  | SysAccess
  | SysMkfifo
  | SysOpen
  | SysDup int
  | SysRecv int int
  | SysSend int "u8 list" int
  | SysRecvfrom int
  | SysSendto int "u8 list"
  | SysGetsockname int
  | SysGetpeername int
  | SysIoctl int nat
  | SysSetown int
  | SysSigaction int
  | SysOther string "int list"

record answer =
  ans_ret :: int
  ans_errno :: int
  ans_out :: int
  ans_bytes :: "u8 list"

record world =
  w_answers :: "nat \<Rightarrow> answer"
  w_trace :: "syscall list"
  w_errno :: int

definition invoke :: "syscall \<Rightarrow> world \<Rightarrow> answer \<times> world" where
  "invoke c w =
     (let a = w_answers w (length (w_trace w))
      in (a, w\<lparr>w_trace := w_trace w @ [c],
              w_errno := (if ans_ret a < 0 then ans_errno a else w_errno w)\<rparr>))"

text \<open>The events \<^verbatim>\<open>poll\<close> reports, written into the entries of its array.\<close>

definition fill_revents :: "u16 list \<Rightarrow> pollfd list \<Rightarrow> pollfd list" where
  "fill_revents ready fds = map2 (\<lambda>p e. p\<lparr>pfd_revents := e\<rparr>) fds ready"

text \<open>A program goes on with a value or exits.\<close>

datatype 'a run = Go 'a | Exit int

text \<open>The answers of a finite script, for concrete runs.\<close>

definition returns :: "int \<Rightarrow> answer" where
  "returns r = \<lparr>ans_ret = r, ans_errno = 0, ans_out = 0, ans_bytes = []\<rparr>"

definition fails :: "int \<Rightarrow> answer" where
  "fails e = \<lparr>ans_ret = -1, ans_errno = e, ans_out = 0, ans_bytes = []\<rparr>"

definition gives :: "int \<Rightarrow> int \<Rightarrow> answer" where
  "gives r out = \<lparr>ans_ret = r, ans_errno = 0, ans_out = out, ans_bytes = []\<rparr>"

definition script :: "answer list \<Rightarrow> world" where
  "script as = \<lparr>w_answers = (\<lambda>n. if n < length as then as ! n else returns 0),
                w_trace = [], w_errno = 0\<rparr>"

text \<open>A failing call reports a nonzero error number.\<close>

definition errno_reported :: "world \<Rightarrow> bool" where
  "errno_reported w \<longleftrightarrow> (\<forall>n. ans_ret (w_answers w n) < 0 \<longrightarrow> ans_errno (w_answers w n) \<noteq> 0)"

definition next_answer :: "world \<Rightarrow> answer" where
  "next_answer w = w_answers w (length (w_trace w))"

text \<open>The answer to the \<open>k\<close>-th call from now.\<close>

definition nth_answer :: "world \<Rightarrow> nat \<Rightarrow> answer" where
  "nth_answer w k = w_answers w (length (w_trace w) + k)"

lemma invoke_simps [simp]:
  "fst (invoke c w) = next_answer w"
  "w_answers (snd (invoke c w)) = w_answers w"
  "w_trace (snd (invoke c w)) = w_trace w @ [c]"
  "w_errno (snd (invoke c w)) =
     (if ans_ret (next_answer w) < 0 then ans_errno (next_answer w) else w_errno w)"
  by (simp_all add: invoke_def next_answer_def Let_def)

lemma next_answer_invoke [simp]:
  "next_answer (snd (invoke c w)) = w_answers w (Suc (length (w_trace w)))"
  by (simp add: next_answer_def)

lemma nth_answer_simps:
  "next_answer w = nth_answer w 0"
  "nth_answer (snd (invoke c w)) k = nth_answer w (Suc k)"
  by (simp_all add: nth_answer_def next_answer_def)

lemma nth_answer_script: "nth_answer (script as) k = (if k < length as then as ! k else returns 0)"
  by (simp add: nth_answer_def script_def)

lemma errno_reported_invoke [simp]: "errno_reported (snd (invoke c w)) = errno_reported w"
  by (simp add: errno_reported_def)

lemma errno_reported_next:
  "errno_reported w \<Longrightarrow> ans_ret (next_answer w) < 0 \<Longrightarrow> ans_errno (next_answer w) \<noteq> 0"
  by (simp add: errno_reported_def next_answer_def)

lemma errno_nonzero_kept:
  "errno_reported w \<Longrightarrow> w_errno w \<noteq> 0 \<Longrightarrow> w_errno (snd (invoke c w)) \<noteq> 0"
  by (simp add: errno_reported_next)

text \<open>Runs: every operation extends the trace of the world it is given.\<close>

definition calls_since :: "world \<Rightarrow> world \<Rightarrow> syscall list" where
  "calls_since w w' = drop (length (w_trace w)) (w_trace w')"

definition extends_world :: "world \<Rightarrow> world \<Rightarrow> bool" where
  "extends_world w w' \<longleftrightarrow> w_answers w' = w_answers w \<and> (\<exists>tr. w_trace w' = w_trace w @ tr)"

lemma extends_world_refl [simp]: "extends_world w w"
  by (simp add: extends_world_def)

lemma calls_since_refl [simp]: "calls_since w w = []"
  by (simp add: calls_since_def)

lemma extends_world_invoke [simp]:
  "extends_world w w' \<Longrightarrow> extends_world w (snd (invoke c w'))"
  by (auto simp: extends_world_def)

lemma calls_since_invoke [simp]:
  "extends_world w w' \<Longrightarrow> calls_since w (snd (invoke c w')) = calls_since w w' @ [c]"
  by (auto simp: calls_since_def extends_world_def)

lemma extends_world_trans:
  "extends_world w w' \<Longrightarrow> extends_world w' w'' \<Longrightarrow> extends_world w w''"
  by (auto simp: extends_world_def)

lemma calls_since_trans:
  "extends_world w w' \<Longrightarrow> extends_world w' w'' \<Longrightarrow>
     calls_since w w'' = calls_since w w' @ calls_since w' w''"
  by (auto simp: calls_since_def extends_world_def)

end
