(* ===== verification/Sockops.thy ===== *)
theory Sockops
  imports Syscalls
begin

text \<open>
  \<^verbatim>\<open>set/rtt/Sockops.h\<close>: the wrappers around the socket calls, the non-blocking connect,
  and the two address look-ups.  Every wrapper takes the \<open>world\<close> and returns the
  \<^verbatim>\<open>std::error_condition\<close> with the world after its calls.  \<^verbatim>\<open>connectAsync\<close> repeats
  \<^verbatim>\<open>connect\<close> for as long as the answer is \<^verbatim>\<open>EAGAIN\<close>; its loop is a partial function
  whose value \<open>None\<close> means that it never returns.
\<close>

section \<open>Error conditions\<close>

datatype error_category = GenericCategory | SystemCategory

record error_condition =
  ec_value :: int
  ec_category :: error_category

definition no_error :: error_condition where
  "no_error = \<lparr>ec_value = 0, ec_category = GenericCategory\<rparr>"

definition errno_condition :: "world \<Rightarrow> error_condition" where
  "errno_condition w = \<lparr>ec_value = w_errno w, ec_category = SystemCategory\<rparr>"

definition ec_failed :: "error_condition \<Rightarrow> bool" where
  "ec_failed c \<longleftrightarrow> ec_value c \<noteq> 0"

text \<open>\<^verbatim>\<open>hold_error_condition\<close>: the error values that are printed; \<open>has_out\<close> says whether
  the output function is set.\<close>

definition hold_error_condition :: "bool \<Rightarrow> error_condition \<Rightarrow> int list" where
  "hold_error_condition has_out cond =
     (if ec_failed cond \<and> ec_category cond = SystemCategory
      then (if has_out then [ec_value cond] else []) else [])"

text \<open>The two categories of the header: their names, and a message, which is the buffer of 128
  characters as \<^verbatim>\<open>strerror_r\<close> (an argument) leaves it.\<close>

definition net_system_category_name :: string where
  "net_system_category_name = ''net_system_category''"

definition custom_category_name :: string where
  "custom_category_name = ''custom_category''"

definition category_message :: "(int \<Rightarrow> u8 list \<Rightarrow> u8 list) \<Rightarrow> int \<Rightarrow> u8 list" where
  "category_message strerror_r e = strerror_r e (replicate 128 0)"

definition custom_category_message :: "(int \<Rightarrow> u8 list \<Rightarrow> u8 list) \<Rightarrow> int \<Rightarrow> u8 list" where
  "custom_category_message strerror_r e = (let res = replicate 128 0 in strerror_r e res)"

lemma categories_say_the_same: "custom_category_message = category_message"
  by (intro ext) (simp add: custom_category_message_def category_message_def)

section \<open>Wrappers\<close>

definition IPPROTO_TCP :: int where "IPPROTO_TCP = 6"
definition TCP_NODELAY :: int where "TCP_NODELAY = 1"
definition SOL_SOCKET :: int where "SOL_SOCKET = 1"
definition SO_REUSEADDR :: int where "SO_REUSEADDR = 2"
definition SO_REUSEPORT :: int where "SO_REUSEPORT = 15"

definition set_socket_not_delay :: "int \<Rightarrow> world \<Rightarrow> error_condition \<times> world" where
  "set_socket_not_delay fd w =
     (let (a, w1) = invoke (SysSetsockopt fd IPPROTO_TCP TCP_NODELAY) w
      in if ans_ret a < 0 then (errno_condition w1, w1) else (no_error, w1))"

definition set_socket_not_block :: "int \<Rightarrow> world \<Rightarrow> error_condition \<times> world" where
  "set_socket_not_block fd w =
     (let (a, w1) = invoke (SysFcntlGetfl fd) w; flag = ans_ret a
      in if 0 \<le> flag
         then if flag OR O_NONBLOCK \<noteq> 0 then (no_error, w1)
              else let flag' = flag OR O_NONBLOCK;
                       (b, w2) = invoke (SysFcntlSetfl fd flag') w1
                   in if ans_ret b < 0 then (errno_condition w2, w2) else (no_error, w2)
         else (errno_condition w1, w1))"

definition set_address_reuse :: "int \<Rightarrow> world \<Rightarrow> error_condition \<times> world" where
  "set_address_reuse fd w =
     (let (a, w1) = invoke (SysSetsockopt fd SOL_SOCKET SO_REUSEADDR) w
      in if ans_ret a < 0 then (errno_condition w1, w1) else (no_error, w1))"

definition create_socket :: "world \<Rightarrow> error_condition \<times> int \<times> world" where
  "create_socket w =
     (let (a, w1) = invoke SysSocket w; fd = ans_ret a
      in if 0 < fd then (no_error, fd, w1) else (errno_condition w1, fd, w1))"

datatype shut_type = ShutWR | ShutRDWR

fun shut_how :: "shut_type \<Rightarrow> int" where
  "shut_how ShutWR = 1"
| "shut_how ShutRDWR = 2"

definition net_shutdown :: "int \<Rightarrow> shut_type \<Rightarrow> world \<Rightarrow> error_condition \<times> world" where
  "net_shutdown fd ty w =
     (let (a, w1) = invoke (SysShutdown fd (shut_how ty)) w
      in if ans_ret a \<noteq> 0 then (errno_condition w1, w1) else (no_error, w1))"

definition net_close :: "int \<Rightarrow> world \<Rightarrow> error_condition \<times> world" where
  "net_close fd w =
     (let (a, w1) = invoke (SysClose fd) w
      in if ans_ret a \<noteq> 0 then (errno_condition w1, w1) else (no_error, w1))"

definition net_connect :: "int \<Rightarrow> world \<Rightarrow> error_condition \<times> world" where
  "net_connect fd w =
     (let (a, w1) = invoke (SysConnect fd) w
      in if ans_ret a < 0 then (errno_condition w1, w1) else (no_error, w1))"

definition net_accept :: "int \<Rightarrow> world \<Rightarrow> error_condition \<times> int \<times> world" where
  "net_accept fd w =
     (let (a, w1) = invoke (SysAccept fd) w
      in if ans_ret a < 0 then (errno_condition w1, ans_ret a, w1) else (no_error, ans_ret a, w1))"

definition net_listen :: "int \<Rightarrow> int \<Rightarrow> world \<Rightarrow> error_condition \<times> world" where
  "net_listen fd backlog w =
     (let (a, w1) = invoke (SysListen fd backlog) w
      in if ans_ret a < 0 then (errno_condition w1, w1) else (no_error, w1))"

section \<open>connectAsync\<close>

text \<open>The loop: \<open>Some (Some c, w)\<close> is a return from inside, \<open>Some (None, w)\<close> the
  \<^verbatim>\<open>break\<close> on \<^verbatim>\<open>EINPROGRESS\<close>.\<close>

partial_function (option) connect_loop :: "int \<Rightarrow> world \<Rightarrow> (error_condition option \<times> world) option" where
  "connect_loop fd w =
     (let (a, w1) = invoke (SysConnect fd) w in
      if ans_ret a = 0 then Some (Some no_error, w1)
      else if ans_ret a = -1 \<and> w_errno w1 = EAGAIN then connect_loop fd w1
      else if ans_ret a = -1 \<and> w_errno w1 = EINPROGRESS then Some (None, w1)
      else let (_, w2) = net_close fd w1 in Some (Some (errno_condition w2), w2))"

definition connect_wait :: "int \<Rightarrow> int \<Rightarrow> world \<Rightarrow> error_condition \<times> world" where
  "connect_wait fd timeout w =
     (let (a, w1) = invoke (SysSelect fd timeout) w in
      if ans_ret a = 1
      then if ans_out a \<noteq> 0
           then let (b, w2) = invoke (SysGetsockopt fd) w1 in
                if ans_ret b = -1 \<or> ans_out b \<noteq> 0
                then let (_, w3) = net_close fd w2 in (errno_condition w3, w3)
                else (no_error, w2)
           else let (_, w2) = net_close fd w1 in (errno_condition w2, w2)
      else let (_, w2) = net_close fd w1
           in (\<lparr>ec_value = ETIMEDOUT, ec_category = GenericCategory\<rparr>, w2))"

definition connect_async :: "int \<Rightarrow> int \<Rightarrow> world \<Rightarrow> (error_condition \<times> world) option" where
  "connect_async fd timeout w =
     (let (_, w1) = set_socket_not_block fd w in
      case connect_loop fd w1 of
        None \<Rightarrow> None
      | Some (Some c, w2) \<Rightarrow> Some (c, w2)
      | Some (None, w2) \<Rightarrow> Some (connect_wait fd timeout w2))"

section \<open>Address look-up\<close>

datatype portocol = TCP | UDP
datatype portocol_version = IPV4 | IPV6

fun cover2_protocol :: "portocol \<Rightarrow> string" where
  "cover2_protocol TCP = ''tcp''"
| "cover2_protocol UDP = ''udp''"

text \<open>The table of versions is indexed with a \<^verbatim>\<open>Portocol\<close>, as the source has it.\<close>

fun cover2_protocol_version :: "portocol \<Rightarrow> string" where
  "cover2_protocol_version TCP = ''ipv4''"
| "cover2_protocol_version UDP = ''ipv6''"

definition AF_INET :: int where "AF_INET = 2"
definition AF_INET6 :: int where "AF_INET6 = 10"

fun version_family :: "portocol_version \<Rightarrow> int" where
  "version_family IPV4 = AF_INET"
| "version_family IPV6 = AF_INET6"

record sockaddr_in =
  sin_family :: u16
  sin_port :: u16
  sin_addr :: "u8 list"

record hostent =
  h_addrtype :: int
  h_length :: int
  h_addr_list :: "u8 list list"

record net_server_db =
  db_addrs :: "sockaddr_in list"
  db_version :: portocol_version
  db_port :: int

text \<open>
  \<open>servbyname\<close> and \<open>hostbyname\<close> are the resolver's answers; \<open>None\<close> is the null
  pointer.  The body of the loop over \<^verbatim>\<open>h_addr_list\<close> runs once for each entry \<open>i\<close>.
\<close>

fun db_fill :: "hostent \<Rightarrow> int \<Rightarrow> sockaddr_in \<Rightarrow> nat list \<Rightarrow> cxx_error + sockaddr_in list" where
  "db_fill host port addr [] = Inr []"
| "db_fill host port addr (i # is) =
     and_then (read_n (h_addr_list host ! 0) 0 4) (\<lambda>a4.
     let addr' = addr\<lparr>sin_addr := a4, sin_port := of_int port\<rparr> in
     and_then (db_fill host port addr' is) (\<lambda>rest. Inr (addr' # rest)))"

definition net_server_db_new ::
  "(string \<Rightarrow> string \<Rightarrow> int option) \<Rightarrow> (string \<Rightarrow> hostent option) \<Rightarrow>
   string \<Rightarrow> string \<Rightarrow> portocol \<Rightarrow> portocol_version \<Rightarrow> cxx_error + net_server_db" where
  "net_server_db_new servbyname hostbyname server_name port_server_name portocal version =
     (case servbyname port_server_name (cover2_protocol portocal) of
        None \<Rightarrow> Inl NullDereference
      | Some port \<Rightarrow>
          (case hostbyname server_name of
             None \<Rightarrow> Inr \<lparr>db_addrs = [], db_version = version, db_port = port\<rparr>
           | Some host \<Rightarrow>
               and_then (db_fill host port
                   \<lparr>sin_family = of_int (version_family version), sin_port = 0, sin_addr = replicate 4 0\<rparr>
                   [0..<length (h_addr_list host)]) (\<lambda>as.
               Inr \<lparr>db_addrs = as, db_version = version, db_port = port\<rparr>)))"

definition constructor_echo_addr ::
  "(string \<Rightarrow> string \<Rightarrow> int option) \<Rightarrow> (string \<Rightarrow> hostent option) \<Rightarrow>
   string \<Rightarrow> sockaddr_in \<Rightarrow> cxx_error + bool \<times> sockaddr_in" where
  "constructor_echo_addr servbyname hostbyname server_name addr =
     (case servbyname ''echo'' ''tcp'' of
        None \<Rightarrow> Inr (False, addr)
      | Some port \<Rightarrow>
          (let addr1 = addr\<lparr>sin_family := of_int AF_INET, sin_port := of_int port\<rparr> in
           case hostbyname server_name of
             None \<Rightarrow> Inr (False, addr1)
           | Some host \<Rightarrow>
               if h_addrtype host = AF_INET \<and> h_length host = 4
               then (case h_addr_list host of
                       [] \<Rightarrow> Inr (False, addr1)
                     | a # _ \<Rightarrow> and_then (read_n a 0 4) (\<lambda>a4. Inr (True, addr1\<lparr>sin_addr := a4\<rparr>)))
               else Inr (True, addr1)))"

section \<open>Lemmas\<close>

lemma not_block_flag: "flag OR O_NONBLOCK \<noteq> 0"
proof -
  have "bit (flag OR O_NONBLOCK) 11" by (simp add: O_NONBLOCK_def bit_or_iff)
  then show ?thesis by auto
qed

lemma net_close_world [simp]: "snd (net_close fd w) = snd (invoke (SysClose fd) w)"
  by (simp add: net_close_def Let_def split_beta)

text \<open>
  The contract of the connecting functions: success leaves the descriptor open, failure closes
  it, once and as the last call.
\<close>

definition closed_on_failure :: "int \<Rightarrow> error_condition \<Rightarrow> syscall list \<Rightarrow> bool" where
  "closed_on_failure fd c tr \<longleftrightarrow>
     (if ec_failed c then \<exists>pre. tr = pre @ [SysClose fd] \<and> SysClose fd \<notin> set pre
      else SysClose fd \<notin> set tr)"

definition connect_retry :: "answer \<Rightarrow> bool" where
  "connect_retry a \<longleftrightarrow> ans_ret a = -1 \<and> ans_errno a = EAGAIN"

lemma closed_on_failure_prefix:
  "SysClose fd \<notin> set pre \<Longrightarrow> closed_on_failure fd c tr \<Longrightarrow> closed_on_failure fd c (pre @ tr)"
  by (auto simp: closed_on_failure_def split: if_splits)

lemma no_error_ok [simp]: "\<not> ec_failed no_error"
  by (simp add: ec_failed_def no_error_def)

lemma errno_condition_failed [simp]: "ec_failed (errno_condition w) \<longleftrightarrow> w_errno w \<noteq> 0"
  by (simp add: ec_failed_def errno_condition_def)

lemma timed_out_failed [simp]: "ec_failed \<lparr>ec_value = ETIMEDOUT, ec_category = cat\<rparr>"
  by (simp add: ec_failed_def ETIMEDOUT_def)

lemma connect_wait_closes:
  assumes "errno_reported w" and "w_errno w \<noteq> 0"
  shows "extends_world w (snd (connect_wait fd t w)) \<and>
         closed_on_failure fd (fst (connect_wait fd t w)) (calls_since w (snd (connect_wait fd t w)))"
proof -
  have nz: "w_errno (snd (invoke c w)) \<noteq> 0" "w_errno (snd (invoke d (snd (invoke c w)))) \<noteq> 0"
    "w_errno (snd (invoke e (snd (invoke d (snd (invoke c w)))))) \<noteq> 0" for c d e
    using assms by (intro errno_nonzero_kept; simp del: invoke_simps(4))+
  then show ?thesis
    by (simp add: connect_wait_def Let_def split_beta closed_on_failure_def timed_out_failed
        del: invoke_simps(4))
qed

lemma connect_loop_once:
  "ans_ret (next_answer w) = 0 \<Longrightarrow>
     connect_loop fd w = Some (Some no_error, snd (invoke (SysConnect fd) w))"
  "connect_retry (next_answer w) \<Longrightarrow> connect_loop fd w = connect_loop fd (snd (invoke (SysConnect fd) w))"
  "ans_ret (next_answer w) = -1 \<Longrightarrow> ans_errno (next_answer w) = EINPROGRESS \<Longrightarrow>
     connect_loop fd w = Some (None, snd (invoke (SysConnect fd) w))"
  "ans_ret (next_answer w) < 0 \<Longrightarrow> \<not> connect_retry (next_answer w) \<Longrightarrow>
     \<not> (ans_ret (next_answer w) = -1 \<and> ans_errno (next_answer w) = EINPROGRESS) \<Longrightarrow>
     connect_loop fd w =
       (let w2 = snd (invoke (SysClose fd) (snd (invoke (SysConnect fd) w)))
        in Some (Some (errno_condition w2), w2))"
  by (auto simp: connect_loop.simps [of fd w] Let_def split_beta connect_retry_def
      EAGAIN_def EINPROGRESS_def)

text \<open>What the loop guarantees once a \<^verbatim>\<open>connect\<close> is answered with anything but \<^verbatim>\<open>EAGAIN\<close>.\<close>

definition loop_outcome :: "int \<Rightarrow> world \<Rightarrow> (error_condition option \<times> world) option \<Rightarrow> bool" where
  "loop_outcome fd w r \<longleftrightarrow>
     (\<exists>c w'. r = Some (c, w') \<and> extends_world w w' \<and>
        (case c of None \<Rightarrow> w_errno w' = EINPROGRESS \<and> SysClose fd \<notin> set (calls_since w w')
         | Some ec \<Rightarrow> closed_on_failure fd ec (calls_since w w')))"

lemma loop_outcome_later:
  assumes "loop_outcome fd (snd (invoke (SysConnect fd) w)) r"
  shows "loop_outcome fd w r"
proof -
  let ?w1 = "snd (invoke (SysConnect fd) w)"
  have 1: "extends_world w ?w1" "calls_since w ?w1 = [SysConnect fd]" by simp_all
  obtain c w' where r: "r = Some (c, w')" "extends_world ?w1 w'"
    and c: "case c of None \<Rightarrow> w_errno w' = EINPROGRESS \<and> SysClose fd \<notin> set (calls_since ?w1 w')
      | Some ec \<Rightarrow> closed_on_failure fd ec (calls_since ?w1 w')"
    using assms unfolding loop_outcome_def by blast
  have "calls_since w w' = [SysConnect fd] @ calls_since ?w1 w'"
    using calls_since_trans [OF 1(1) r(2)] 1(2) by simp
  moreover have "extends_world w w'" using extends_world_trans [OF 1(1) r(2)] .
  ultimately show ?thesis using r(1) c closed_on_failure_prefix [of fd "[SysConnect fd]"]
    by (auto simp: loop_outcome_def split: option.splits)
qed

lemma connect_loop_outcome:
  assumes "errno_reported w" and "\<forall>j<k. connect_retry (w_answers w (length (w_trace w) + j))"
    and "\<not> connect_retry (w_answers w (length (w_trace w) + k))"
    and "ans_ret (w_answers w (length (w_trace w) + k)) \<le> 0"
  shows "loop_outcome fd w (connect_loop fd w)"
  using assms
proof (induction k arbitrary: w)
  case 0
  let ?a = "next_answer w"
  let ?w1 = "snd (invoke (SysConnect fd) w)"
  have a: "\<not> connect_retry ?a" "ans_ret ?a \<le> 0" using 0 by (simp_all add: next_answer_def)
  consider "ans_ret ?a = 0" | "ans_ret ?a = -1" "ans_errno ?a = EINPROGRESS"
    | "ans_ret ?a < 0" "\<not> (ans_ret ?a = -1 \<and> ans_errno ?a = EINPROGRESS)" using a(2) by linarith
  then show ?case
  proof cases
    case 3
    have "w_errno ?w1 \<noteq> 0" using errno_reported_next [OF 0(1)] 3 by simp
    then have "w_errno (snd (invoke (SysClose fd) ?w1)) \<noteq> 0"
      by (rule errno_nonzero_kept [rotated]) (simp add: 0(1))
    then show ?thesis using 3 a(1)
      by (simp add: connect_loop_once loop_outcome_def Let_def closed_on_failure_def del: invoke_simps(4))
  qed (simp_all add: connect_loop_once loop_outcome_def closed_on_failure_def)
next
  case (Suc k)
  let ?w1 = "snd (invoke (SysConnect fd) w)"
  have "connect_retry (next_answer w)" using Suc.prems(2) by (force simp: next_answer_def)
  then have eq: "connect_loop fd w = connect_loop fd ?w1" by (rule connect_loop_once)
  have "loop_outcome fd ?w1 (connect_loop fd ?w1)"
    using Suc.prems by (intro Suc.IH) auto
  then show ?case unfolding eq by (rule loop_outcome_later)
qed

lemma set_socket_not_block_world:
  "snd (set_socket_not_block fd w) = snd (invoke (SysFcntlGetfl fd) w)"
  by (simp add: set_socket_not_block_def Let_def split_beta not_block_flag)

text \<open>C19: \<^verbatim>\<open>connectAsync\<close> returns as soon as a \<^verbatim>\<open>connect\<close> is answered with anything but
  \<^verbatim>\<open>EAGAIN\<close>, however many retries came before; when it reports success the descriptor has not
  been closed, and when it reports an error the descriptor has been closed exactly once, by the
  last call made.\<close>

theorem connect_async_closes_on_failure:
  assumes "errno_reported w" and "\<forall>j<k. connect_retry (w_answers w (length (w_trace w) + 1 + j))"
    and "\<not> connect_retry (w_answers w (length (w_trace w) + 1 + k))"
    and "ans_ret (w_answers w (length (w_trace w) + 1 + k)) \<le> 0"
  shows "\<exists>c w'. connect_async fd timeout w = Some (c, w') \<and>
           closed_on_failure fd c (calls_since w w')"
proof -
  let ?w1 = "snd (invoke (SysFcntlGetfl fd) w)"
  have 1: "extends_world w ?w1" "calls_since w ?w1 = [SysFcntlGetfl fd]" by simp_all
  have "loop_outcome fd ?w1 (connect_loop fd ?w1)"
    using assms by (intro connect_loop_outcome [of _ k]) (simp_all add: add.commute [of _ 1])
  then obtain r w2 where r: "connect_loop fd ?w1 = Some (r, w2)" "extends_world ?w1 w2"
    and c: "case r of None \<Rightarrow> w_errno w2 = EINPROGRESS \<and> SysClose fd \<notin> set (calls_since ?w1 w2)
      | Some ec \<Rightarrow> closed_on_failure fd ec (calls_since ?w1 w2)"
    unfolding loop_outcome_def by blast
  have w2: "extends_world w w2" "calls_since w w2 = SysFcntlGetfl fd # calls_since ?w1 w2"
    using extends_world_trans [OF 1(1) r(2)] calls_since_trans [OF 1(1) r(2)] 1(2) by simp_all
  show ?thesis
  proof (cases r)
    case (Some ec)
    then show ?thesis using r(1) c closed_on_failure_prefix [of fd "[SysFcntlGetfl fd]"] w2
      by (simp add: connect_async_def Let_def split_beta set_socket_not_block_world)
  next
    case None
    have "errno_reported w2" using assms(1) w2(1) by (simp add: errno_reported_def extends_world_def)
    then have cw: "extends_world w2 (snd (connect_wait fd timeout w2))"
      "closed_on_failure fd (fst (connect_wait fd timeout w2)) (calls_since w2 (snd (connect_wait fd timeout w2)))"
      using connect_wait_closes [of w2 fd timeout] c None by (simp_all add: EINPROGRESS_def)
    have "calls_since w (snd (connect_wait fd timeout w2)) =
        calls_since w w2 @ calls_since w2 (snd (connect_wait fd timeout w2))"
      using w2(1) cw(1) by (rule calls_since_trans)
    then have "closed_on_failure fd (fst (connect_wait fd timeout w2)) (calls_since w (snd (connect_wait fd timeout w2)))"
      using closed_on_failure_prefix [OF _ cw(2), of "calls_since w w2"] c None w2(2) by simp
    moreover have "connect_async fd timeout w = Some (connect_wait fd timeout w2)"
      using r(1) None by (simp add: connect_async_def Let_def split_beta set_socket_not_block_world)
    ultimately show ?thesis by (metis prod.collapse)
  qed
qed

text \<open>A connection that is refused after \<^verbatim>\<open>EINPROGRESS\<close> is reported with the stale
  \<^verbatim>\<open>errno\<close> of the \<^verbatim>\<open>connect\<close> call, whatever error \<^verbatim>\<open>SO_ERROR\<close> holds: the
  caller sees \<^verbatim>\<open>EINPROGRESS\<close>.\<close>

theorem connect_async_hides_so_error:
  assumes "w = script [returns flags, fails EINPROGRESS, gives 1 1, gives 0 e, returns 0]"
    and "e \<noteq> 0" and "0 \<le> flags"
  shows "map_option fst (connect_async fd timeout w) =
           Some \<lparr>ec_value = EINPROGRESS, ec_category = SystemCategory\<rparr>"
proof -
  let ?w1 = "snd (invoke (SysFcntlGetfl fd) w)"
  have "connect_loop fd ?w1 = Some (None, snd (invoke (SysConnect fd) ?w1))"
    by (rule connect_loop_once) (simp_all add: assms(1) script_def fails_def)
  then show ?thesis using assms
    by (simp add: connect_async_def set_socket_not_block_world Let_def split_beta connect_wait_def
        next_answer_def script_def returns_def gives_def fails_def errno_condition_def numeral_eq_Suc)
qed

text \<open>\<^verbatim>\<open>setSocketNotBlock\<close> never changes the flags of the descriptor: it reads them and
  returns, with success whenever they could be read, because \<^verbatim>\<open>flag | O_NONBLOCK\<close> is never
  zero.\<close>

theorem set_socket_not_block_only_reads:
  "calls_since w (snd (set_socket_not_block fd w)) = [SysFcntlGetfl fd] \<and>
   (if 0 \<le> ans_ret (next_answer w) then fst (set_socket_not_block fd w) = no_error
    else ec_value (fst (set_socket_not_block fd w)) = ans_errno (next_answer w))"
  by (simp add: set_socket_not_block_def Let_def split_beta not_block_flag errno_condition_def)

text \<open>The look-up table of a server: one address per entry, all of them the first one.\<close>

lemma db_fill_first:
  assumes "4 \<le> length (h_addr_list host ! 0)"
  shows "db_fill host port addr is =
    Inr (map (\<lambda>_. addr\<lparr>sin_addr := take 4 (h_addr_list host ! 0), sin_port := of_int port\<rparr>) is)"
  using assms by (induction "is" arbitrary: addr) (simp_all add: mem_simps)

text \<open>For a host with several addresses the look-up table has as many entries as the host has
  addresses, but every entry is the first address.\<close>

theorem net_server_db_repeats_first:
  assumes "servbyname port_name (cover2_protocol p) = Some port"
    and "hostbyname name = Some host" and "h_addr_list host = a # as" and "length a = 4"
  shows "\<exists>db. net_server_db_new servbyname hostbyname name port_name p version = Inr db \<and>
           db_port db = port \<and> length (db_addrs db) = length (h_addr_list host) \<and>
           (\<forall>s \<in> set (db_addrs db). sin_addr s = a \<and> sin_port s = of_int port \<and>
              sin_family s = of_int (version_family version))"
proof -
  have "4 \<le> length (h_addr_list host ! 0)" using assms(3,4) by simp
  then show ?thesis using assms by (auto simp: net_server_db_new_def db_fill_first)
qed

lemma connect_async_closes_on_failure_witness:
  "\<exists>c w'. connect_async 5 3 (script [returns 2, fails EAGAIN, fails EINPROGRESS, returns 0]) = Some (c, w') \<and>
     closed_on_failure 5 c (calls_since (script [returns 2, fails EAGAIN, fails EINPROGRESS, returns 0]) w')"
proof (rule connect_async_closes_on_failure [where k = 1])
  show "errno_reported (script [returns 2, fails EAGAIN, fails EINPROGRESS, returns 0])"
    by (auto simp: errno_reported_def script_def returns_def fails_def nth_Cons' EAGAIN_def EINPROGRESS_def
        split: if_splits)
qed (simp_all add: script_def returns_def fails_def connect_retry_def EAGAIN_def EINPROGRESS_def)

lemma connect_async_hides_so_error_witness:
  "map_option fst (connect_async 5 3 (script [returns 2, fails EINPROGRESS, gives 1 1, gives 0 111, returns 0])) =
     Some \<lparr>ec_value = EINPROGRESS, ec_category = SystemCategory\<rparr>"
  by (rule connect_async_hides_so_error [OF refl]) simp_all

lemma net_server_db_repeats_first_witness:
  "\<exists>db. net_server_db_new (\<lambda>_ _. Some 7) (\<lambda>_. Some \<lparr>h_addrtype = 2, h_length = 4, h_addr_list = [[10, 0, 0, 1], [10, 0, 0, 2]]\<rparr>)
      ''host'' ''echo'' TCP IPV4 = Inr db \<and> length (db_addrs db) = 2 \<and>
      (\<forall>s \<in> set (db_addrs db). sin_addr s = [10, 0, 0, 1])"
  using net_server_db_repeats_first [of "\<lambda>_ _. Some 7" "''echo''" TCP 7
      "\<lambda>_. Some \<lparr>h_addrtype = 2, h_length = 4, h_addr_list = [[10, 0, 0, 1], [10, 0, 0, 2]]\<rparr>" "''host''"
      "\<lparr>h_addrtype = 2, h_length = 4, h_addr_list = [[10, 0, 0, 1], [10, 0, 0, 2]]\<rparr>" "[10, 0, 0, 1]" "[[10, 0, 0, 2]]" IPV4]
  by auto

end
