(* ===== verification/Reactor.thy ===== *)
theory Reactor
  imports Sockops
begin

text \<open>
  The reactor of \<^verbatim>\<open>set/rtt\<close>: \<^verbatim>\<open>Fd\<close> and \<^verbatim>\<open>Socket\<close> (a descriptor with its
  interest flags, kept in step with the reactor it belongs to), \<^verbatim>\<open>Poll\<close> (the table of
  descriptors, the \<^verbatim>\<open>poll\<close> call and the dispatch of its result) and \<^verbatim>\<open>Accept\<close> (the
  listening socket).  Socket objects live in a store, because the reactor's table refers to them
  by \<^verbatim>\<open>shared_ptr\<close>; \<open>sock_shared\<close> says whether an object is owned by a
  \<^verbatim>\<open>shared_ptr\<close>, which is what \<^verbatim>\<open>shared_from_this\<close> asks.
\<close>

section \<open>Fd and Socket\<close>

record fd_obj =
  fd_read :: bool
  fd_write :: bool
  fd_error :: bool
  fd_ident :: u32

datatype socket_model = LISTEN_SHARED | LISTEN_EXCLUSE | NORMAL

record socket = fd_obj +
  sock_id :: int
  sock_model :: socket_model
  sock_reactor :: bool
  sock_shared :: bool
  sock_read_fun :: "nat option"
  sock_write_fun :: "nat option"

text \<open>The constructors of \<^verbatim>\<open>Fd\<close>; its number is kept unsigned and \<^verbatim>\<open>getId\<close> converts it to \<^verbatim>\<open>int\<close>.\<close>

definition fd_new :: "u32 \<Rightarrow> bool \<Rightarrow> bool \<Rightarrow> bool \<Rightarrow> fd_obj" where
  "fd_new fid rd wr er = \<lparr>fd_read = rd, fd_write = wr, fd_error = er, fd_ident = fid\<rparr>"

definition fd_of_id :: "u32 \<Rightarrow> fd_obj" where
  "fd_of_id fid = fd_new fid False False False"

definition fd_get_id :: "'a fd_obj_scheme \<Rightarrow> int" where
  "fd_get_id f = sint (fd_ident f)"

definition responsable :: "'a fd_obj_scheme \<Rightarrow> bool" where
  "responsable f \<longleftrightarrow> fd_read f \<or> fd_write f \<or> fd_error f"

definition socket_new :: "int \<Rightarrow> bool \<Rightarrow> socket_model \<Rightarrow> bool \<Rightarrow> socket" where
  "socket_new fid reactor model shared =
     \<lparr>fd_read = False, fd_write = False, fd_error = False, fd_ident = of_int fid,
      sock_id = fid, sock_model = model, sock_reactor = reactor, sock_shared = shared,
      sock_read_fun = None, sock_write_fun = None\<rparr>"

text \<open>A socket is the descriptor \<^verbatim>\<open>Fd\<close> makes of its number, and both know it by the same one, also by
  the -1 of a failed \<^verbatim>\<open>socket\<close>.\<close>

lemma socket_has_its_fd:
  assumes "- (2 ^ 31) \<le> fid" and "fid < 2 ^ 31"
  shows "fd_obj.truncate (socket_new fid rc md sh) = fd_of_id (of_int fid)"
    and "fd_get_id (socket_new fid rc md sh) = sock_id (socket_new fid rc md sh)"
proof -
  show "fd_obj.truncate (socket_new fid rc md sh) = fd_of_id (of_int fid)"
    by (simp add: socket_new_def fd_of_id_def fd_new_def fd_obj.truncate_def)
  show "fd_get_id (socket_new fid rc md sh) = sock_id (socket_new fid rc md sh)"
    using assms by (simp add: fd_get_id_def socket_new_def sint_sbintrunc' signed_take_bit_int_eq_self)
qed

text \<open>The constructor without an identifier makes its own descriptor and ignores the error.\<close>

definition socket_create :: "bool \<Rightarrow> socket_model \<Rightarrow> bool \<Rightarrow> world \<Rightarrow> socket \<times> world" where
  "socket_create reactor model shared w =
     (let (_, fd, w1) = create_socket w in (socket_new fd reactor model shared, w1))"

definition set_read_function :: "nat option \<Rightarrow> socket \<Rightarrow> socket" where
  "set_read_function f s = s\<lparr>sock_read_fun := f\<rparr>"

definition set_write_function :: "nat option \<Rightarrow> socket \<Rightarrow> socket" where
  "set_write_function f s = s\<lparr>sock_write_fun := f\<rparr>"

definition socket_shutdonw :: "socket \<Rightarrow> world \<Rightarrow> int list \<times> world" where
  "socket_shutdonw s w =
     (let (c, w1) = net_shutdown (sock_id s) ShutWR w in (hold_error_condition True c, w1))"

definition socket_close :: "socket \<Rightarrow> world \<Rightarrow> int list \<times> world" where
  "socket_close s w =
     (let (c, w1) = net_close (sock_id s) w in (hold_error_condition True c, w1))"

section \<open>Poll\<close>

record reactor =
  r_objects :: "nat \<rightharpoonup> socket"
  r_fds :: "pollfd list"
  r_fdtbs :: "int \<rightharpoonup> nat"

definition poll_new :: "(nat \<rightharpoonup> socket) \<Rightarrow> reactor" where
  "poll_new objs = \<lparr>r_objects = objs, r_fds = [], r_fdtbs = Map.empty\<rparr>"

definition socket_events :: "'a fd_obj_scheme \<Rightarrow> u16" where
  "socket_events s =
     (let e0 = 0;
          e1 = (if fd_read s then e0 OR POLLIN else e0);
          e2 = (if fd_write s then e1 OR POLLOUT else e1)
      in if fd_error s then e2 OR POLLERR else e2)"

text \<open>
  \<^verbatim>\<open>auto socket = dynamic_cast<const Socket&>(unique)\<close> makes a copy, and the copy
  of an object is not owned by any \<^verbatim>\<open>shared_ptr\<close>.
\<close>

definition copy_socket :: "socket \<Rightarrow> socket" where
  "copy_socket s = s\<lparr>sock_shared := False\<rparr>"

definition shared_from_this :: "nat \<Rightarrow> socket \<Rightarrow> cxx_error + nat" where
  "shared_from_this addr s = (if sock_shared s then Inr addr else Inl BadWeakPtr)"

fun set_first :: "(pollfd \<Rightarrow> bool) \<Rightarrow> (pollfd \<Rightarrow> pollfd) \<Rightarrow> pollfd list \<Rightarrow> pollfd list" where
  "set_first P f [] = []"
| "set_first P f (p # ps) = (if P p then f p # ps else p # set_first P f ps)"

definition poll_insert :: "int \<Rightarrow> nat \<Rightarrow> socket \<Rightarrow> reactor \<Rightarrow> reactor" where
  "poll_insert fid ptr s r =
     (let tbs = (if fid \<in> dom (r_fdtbs r) then r_fdtbs r else (r_fdtbs r)(fid \<mapsto> ptr));
          event = socket_events s;
          fds = set_first (\<lambda>p. pfd_fd p = fid) (\<lambda>p. p\<lparr>pfd_fd := sock_id s, pfd_events := event\<rparr>) (r_fds r)
      in r\<lparr>r_fdtbs := tbs,
           r_fds := fds @ [\<lparr>pfd_fd = fid, pfd_events = event, pfd_revents = 0\<rparr>]\<rparr>)"

definition poll_add :: "nat \<Rightarrow> socket \<Rightarrow> reactor \<Rightarrow> cxx_error + reactor" where
  "poll_add addr unique r =
     (let s = copy_socket unique in
      if sock_model s \<in> {LISTEN_EXCLUSE, NORMAL} \<and> sock_id unique \<in> dom (r_fdtbs r) then Inr r
      else and_then (shared_from_this addr s) (\<lambda>ptr. Inr (poll_insert (sock_id unique) ptr s r)))"

definition poll_remove :: "int \<Rightarrow> reactor \<Rightarrow> reactor" where
  "poll_remove fid r =
     (if fid \<notin> dom (r_fdtbs r) then r
      else r\<lparr>r_fdtbs := (r_fdtbs r)(fid := None),
             r_fds := filter (\<lambda>p. pfd_fd p \<noteq> fid) (r_fds r)\<rparr>)"

definition poll_update :: "socket \<Rightarrow> reactor \<Rightarrow> reactor" where
  "poll_update s r =
     r\<lparr>r_fds := set_first (\<lambda>p. sock_id s = pfd_fd p) (\<lambda>p. p\<lparr>pfd_events := socket_events s\<rparr>) (r_fds r)\<rparr>"

datatype fd_event = FdEvent int bool bool bool

fun event_handler :: "nat \<Rightarrow> pollfd list \<Rightarrow> reactor \<Rightarrow> cxx_error + fd_event list" where
  "event_handler num [] r = Inr []"
| "event_handler num (f # fs) r =
     (if num = 0 then Inr []
      else case (if pfd_fd f \<noteq> -1 then r_fdtbs r (pfd_fd f) else None) of
          None \<Rightarrow> event_handler num fs r
        | Some ptr \<Rightarrow>
            (case r_objects r ptr of
               None \<Rightarrow> Inl UseAfterFree
             | Some s \<Rightarrow>
                 if responsable s
                 then and_then (event_handler (num - 1) fs r) (\<lambda>evs.
                   Inr (FdEvent (sock_id s) (has_event (pfd_revents f) POLLIN)
                          (has_event (pfd_revents f) POLLOUT) (has_event (pfd_revents f) POLLERR) # evs))
                 else event_handler num fs r))"

text \<open>The time-out as \<^verbatim>\<open>::poll\<close> gets it: the argument of type \<^verbatim>\<open>uint64_t\<close> is converted to \<^verbatim>\<open>int\<close>.\<close>

definition poll_timeout :: "u64 \<Rightarrow> int" where
  "poll_timeout timestamp = sint (ucast timestamp :: u32)"

text \<open>\<open>ready\<close> is the array \<^verbatim>\<open>poll\<close> fills in.\<close>

definition poll_run :: "u64 \<Rightarrow> u16 list \<Rightarrow> reactor \<Rightarrow> world \<Rightarrow> cxx_error + error_condition \<times> fd_event list \<times> world" where
  "poll_run timestamp ready r w =
     (let (a, w1) = invoke (SysPoll (length (r_fds r)) (poll_timeout timestamp)) w; num = ans_ret a in
      if num < 0 then Inr (errno_condition w1, [], w1)
      else let (b, w2) = invoke SysGettimeofday w1 in
        if ans_ret b < 0 then Inr (errno_condition w2, [], w2)
        else and_then (event_handler (nat num) (fill_revents ready (r_fds r)) r) (\<lambda>evs.
               Inr (no_error, evs, w2)))"

section \<open>Operations of a socket that reach the reactor\<close>

definition socket_registor :: "nat \<Rightarrow> reactor \<Rightarrow> cxx_error + bool \<times> reactor" where
  "socket_registor addr r =
     (case r_objects r addr of
        None \<Rightarrow> Inl UseAfterFree
      | Some s \<Rightarrow>
          if \<not> sock_reactor s then Inr (False, r)
          else and_then (poll_add addr s r) (\<lambda>r1. Inr (True, r1)))"

definition socket_update :: "nat \<Rightarrow> (socket \<Rightarrow> socket) \<Rightarrow> reactor \<Rightarrow> reactor" where
  "socket_update addr f r =
     (case r_objects r addr of
        None \<Rightarrow> r
      | Some s \<Rightarrow>
          (let r1 = r\<lparr>r_objects := (r_objects r)(addr \<mapsto> f s)\<rparr>
           in if sock_reactor s then poll_update (f s) r1 else r1))"

definition set_readenable :: "nat \<Rightarrow> reactor \<Rightarrow> reactor" where
  "set_readenable addr = socket_update addr (\<lambda>s. s\<lparr>fd_read := True\<rparr>)"

definition set_readdisable :: "nat \<Rightarrow> reactor \<Rightarrow> reactor" where
  "set_readdisable addr = socket_update addr (\<lambda>s. s\<lparr>fd_read := False\<rparr>)"

definition set_writeenable :: "nat \<Rightarrow> reactor \<Rightarrow> reactor" where
  "set_writeenable addr = socket_update addr (\<lambda>s. s\<lparr>fd_write := True\<rparr>)"

definition set_writedisable :: "nat \<Rightarrow> reactor \<Rightarrow> reactor" where
  "set_writedisable addr = socket_update addr (\<lambda>s. s\<lparr>fd_write := False\<rparr>)"

definition set_errorenable :: "nat \<Rightarrow> reactor \<Rightarrow> reactor" where
  "set_errorenable addr = socket_update addr (\<lambda>s. s\<lparr>fd_error := True\<rparr>)"

definition set_errordisable :: "nat \<Rightarrow> reactor \<Rightarrow> reactor" where
  "set_errordisable addr = socket_update addr (\<lambda>s. s\<lparr>fd_error := False\<rparr>)"

section \<open>Accept\<close>

definition accept_build :: "nat \<Rightarrow> reactor \<Rightarrow> world \<Rightarrow> cxx_error + error_condition \<times> reactor \<times> world" where
  "accept_build addr r w =
     (case r_objects r addr of
        None \<Rightarrow> Inl UseAfterFree
      | Some s \<Rightarrow>
          (let (a, w1) = invoke SysInetPton w in
           if ans_ret a < 0 then Inr (errno_condition w1, r, w1)
           else let (b, w2) = invoke (SysBind (sock_id s)) w1 in
             if ans_ret b < 0 then Inr (errno_condition w2, r, w2)
             else let (_, w3) = net_listen (sock_id s) 10 w2 in
               and_then (socket_registor addr r) (\<lambda>(_, r1).
               Inr (no_error, set_readdisable addr r1, w3))))"

text \<open>\<open>on_new\<close> is the callback set by \<^verbatim>\<open>setOnNewConnect\<close>, if any, run on the server's state.\<close>

definition accept_create ::
  "int \<Rightarrow> (int \<Rightarrow> 's \<Rightarrow> cxx_error + 's) option \<Rightarrow> 's \<Rightarrow> world \<Rightarrow>
   cxx_error + int option \<times> int list \<times> 's \<times> world" where
  "accept_create fd on_new st w =
     (let (c, connect_fd, w1) = net_accept fd w in
      if ec_failed c then Inr (None, hold_error_condition True c, st, w1)
      else case on_new of
          None \<Rightarrow> Inr (Some connect_fd, [], st, w1)
        | Some f \<Rightarrow> and_then (f connect_fd st) (\<lambda>st1. Inr (Some connect_fd, [], st1, w1)))"

text \<open>
  The object: its socket and the callback.  The constructor names \<^verbatim>\<open>create\<close> as the read function of
  the socket (number \<open>create_fun\<close>); no code calls the read function of a socket.
\<close>

record 's acceptor =
  acc_socket :: socket
  acc_on_new :: "(int \<Rightarrow> 's \<Rightarrow> cxx_error + 's) option"

definition create_fun :: nat where "create_fun = 0"

definition accept_new :: "bool \<Rightarrow> socket_model \<Rightarrow> world \<Rightarrow> 's acceptor \<times> world" where
  "accept_new rc md w =
     (let (s, w1) = socket_create rc md False w
      in (\<lparr>acc_socket = set_read_function (Some create_fun) s, acc_on_new = None\<rparr>, w1))"

definition set_on_new_connect :: "(int \<Rightarrow> 's \<Rightarrow> cxx_error + 's) \<Rightarrow> 's acceptor \<Rightarrow> 's acceptor" where
  "set_on_new_connect f a = a\<lparr>acc_on_new := Some f\<rparr>"

definition acceptor_create :: "'s acceptor \<Rightarrow> 's \<Rightarrow> world \<Rightarrow> cxx_error + int option \<times> int list \<times> 's \<times> world" where
  "acceptor_create a st w = accept_create (sock_id (acc_socket a)) (acc_on_new a) st w"

text \<open>\<^verbatim>\<open>RttServer::start\<close>: the error condition of \<^verbatim>\<open>build\<close> is dropped.\<close>

definition rtt_start :: "nat \<Rightarrow> reactor \<Rightarrow> world \<Rightarrow> cxx_error + int \<times> reactor \<times> world" where
  "rtt_start addr r w = and_then (accept_build addr r w) (\<lambda>(_, r1, w1). Inr (1, r1, w1))"

section \<open>The contract of a table of descriptors\<close>

text \<open>
  What the sockets rely on: removing a descriptor forgets exactly that one, and updating the
  interest of a socket changes no registration.
\<close>

locale descriptor_table =
  fixes inv :: "'t \<Rightarrow> bool"
    and tracked :: "'t \<Rightarrow> int set"
    and erase :: "int \<Rightarrow> 't \<Rightarrow> 't"
    and modify :: "'m \<Rightarrow> 't \<Rightarrow> 't"
  assumes erase_inv: "inv t \<Longrightarrow> inv (erase i t)"
    and erase_tracked: "inv t \<Longrightarrow> tracked (erase i t) = tracked t - {i}"
    and modify_inv: "inv t \<Longrightarrow> inv (modify m t)"
    and modify_tracked: "inv t \<Longrightarrow> tracked (modify m t) = tracked t"
begin

lemma erase_all:
  "inv t \<Longrightarrow> inv (fold erase is t) \<and> tracked (fold erase is t) = tracked t - set is"
  by (induction "is" arbitrary: t) (auto simp: erase_inv erase_tracked)

lemma modify_all:
  "inv t \<Longrightarrow> inv (fold modify ms t) \<and> tracked (fold modify ms t) = tracked t"
  by (induction ms arbitrary: t) (auto simp: modify_inv modify_tracked)

lemma erase_after_updates:
  "inv t \<Longrightarrow> tracked (fold erase is (fold modify ms t)) = tracked t - set is"
  using modify_all [of t ms] erase_all [of "fold modify ms t" "is"] by simp

end

definition poll_tracked :: "reactor \<Rightarrow> int set" where
  "poll_tracked r = pfd_fd ` set (r_fds r)"

definition poll_inv :: "reactor \<Rightarrow> bool" where
  "poll_inv r \<longleftrightarrow> pfd_fd ` set (r_fds r) = dom (r_fdtbs r)"

definition objects_live :: "reactor \<Rightarrow> bool" where
  "objects_live r \<longleftrightarrow> (\<forall>a \<in> ran (r_fdtbs r). r_objects r a \<noteq> None)"

text \<open>The entries of the table the dispatcher counts against the result of \<^verbatim>\<open>poll\<close>.\<close>

definition watched :: "reactor \<Rightarrow> pollfd \<Rightarrow> bool" where
  "watched r f \<longleftrightarrow> pfd_fd f \<noteq> -1 \<and>
     (case r_fdtbs r (pfd_fd f) of None \<Rightarrow> False
      | Some ptr \<Rightarrow> (case r_objects r ptr of None \<Rightarrow> False | Some s \<Rightarrow> responsable s))"

definition event_of :: "reactor \<Rightarrow> pollfd \<Rightarrow> fd_event" where
  "event_of r f =
     (case r_fdtbs r (pfd_fd f) of
        None \<Rightarrow> FdEvent (-1) False False False
      | Some ptr \<Rightarrow> (case r_objects r ptr of
            None \<Rightarrow> FdEvent (-1) False False False
          | Some s \<Rightarrow> FdEvent (sock_id s) (has_event (pfd_revents f) POLLIN)
              (has_event (pfd_revents f) POLLOUT) (has_event (pfd_revents f) POLLERR)))"

text \<open>Everything the sockets do to a reactor that starts out empty.\<close>

inductive poll_reach :: "reactor \<Rightarrow> bool" where
  poll_start: "poll_reach (poll_new objs)"
| poll_registor: "poll_reach r \<Longrightarrow> socket_registor addr r = Inr (ok, r') \<Longrightarrow> poll_reach r'"
| poll_removed: "poll_reach r \<Longrightarrow> poll_reach (poll_remove fid r)"
| poll_updated: "poll_reach r \<Longrightarrow> poll_reach (socket_update addr f r)"

section \<open>Lemmas\<close>

lemma set_first_ids:
  "(\<And>p. pfd_fd (f p) = pfd_fd p) \<Longrightarrow> map pfd_fd (set_first P f ps) = map pfd_fd ps"
  by (induction ps) auto

lemma set_first_empty [simp]: "set_first P f ps = [] \<longleftrightarrow> ps = []"
  by (cases ps) auto

lemma poll_update_ids: "pfd_fd ` set (r_fds (poll_update s r)) = pfd_fd ` set (r_fds r)"
proof -
  have "map pfd_fd (r_fds (poll_update s r)) = map pfd_fd (r_fds r)"
    by (simp add: poll_update_def set_first_ids)
  then show ?thesis by (metis set_map)
qed

interpretation pt: descriptor_table poll_inv poll_tracked poll_remove poll_update
proof unfold_locales
  fix r fid m
  assume inv: "poll_inv r"
  then have ids: "pfd_fd ` set (r_fds r) = dom (r_fdtbs r)" by (simp add: poll_inv_def)
  show "poll_inv (poll_remove fid r)" "poll_tracked (poll_remove fid r) = poll_tracked r - {fid}"
    using ids by (auto simp: poll_inv_def poll_tracked_def poll_remove_def)
  show "poll_inv (poll_update m r)" "poll_tracked (poll_update m r) = poll_tracked r"
    using ids by (auto simp: poll_inv_def poll_tracked_def poll_update_ids) (simp_all add: poll_update_def)
qed

lemma socket_events_bits:
  "has_event (socket_events s) POLLIN \<longleftrightarrow> fd_read s"
  "has_event (socket_events s) POLLOUT \<longleftrightarrow> fd_write s"
  "has_event (socket_events s) POLLERR \<longleftrightarrow> fd_error s"
  by (auto simp: socket_events_def Let_def has_event_def poll_flags)

lemma poll_add_throws: "fid = sock_id s \<Longrightarrow> fid \<notin> dom (r_fdtbs r) \<Longrightarrow> poll_add addr s r = Inl BadWeakPtr"
  by (simp add: poll_add_def copy_socket_def shared_from_this_def)

lemma registor_throws:
  "r_fdtbs r = Map.empty \<Longrightarrow> r_objects r addr = Some s \<Longrightarrow> sock_reactor s \<Longrightarrow>
     socket_registor addr r = Inl BadWeakPtr"
  by (simp add: socket_registor_def poll_add_throws)

lemma socket_update_tables:
  "r_fds r = [] \<Longrightarrow> r_fds (socket_update addr f r) = []"
  "r_fdtbs (socket_update addr f r) = r_fdtbs r"
  by (auto simp: socket_update_def poll_update_def Let_def split: option.splits)

lemma poll_reach_empty: "poll_reach r \<Longrightarrow> r_fds r = [] \<and> r_fdtbs r = Map.empty"
proof (induction rule: poll_reach.induct)
  case (poll_registor r addr ok r')
  then show ?case
    by (auto simp: socket_registor_def poll_add_throws split: option.splits if_splits)
qed (auto simp: poll_new_def poll_remove_def socket_update_tables)

lemma event_handler_take:
  assumes "objects_live r"
  shows "event_handler num fds r = Inr (map (event_of r) (take num (filter (watched r) fds)))"
proof (induction fds arbitrary: num)
  case (Cons f fs)
  show ?case
  proof (cases "pfd_fd f \<noteq> -1 \<and> r_fdtbs r (pfd_fd f) \<noteq> None")
    case True
    then obtain ptr s where "r_fdtbs r (pfd_fd f) = Some ptr" "r_objects r ptr = Some s"
      using assms by (fastforce simp: objects_live_def ran_def)
    then show ?thesis using True Cons
      by (cases num) (auto simp: watched_def event_of_def)
  next
    case False
    then have "\<not> watched r f" by (auto simp: watched_def)
    then show ?thesis using False Cons by (cases num) auto
  qed
qed simp

section \<open>Properties\<close>

text \<open>The dispatcher calls the handler for the first \<^verbatim>\<open>num\<close> watched entries of the table,
  in table order, each with exactly the events \<^verbatim>\<open>poll\<close> reported for it; in particular, when
  \<^verbatim>\<open>num\<close> is at least the number of watched entries, every ready socket is served.\<close>

theorem dispatch_first_watched:
  assumes "objects_live r"
  shows "event_handler num fds r = Inr (map (event_of r) (take num (filter (watched r) fds))) \<and>
         (length (filter (watched r) fds) \<le> num \<longrightarrow>
            (\<forall>f \<in> set fds. watched r f \<longrightarrow> (\<exists>evs. event_handler num fds r = Inr evs \<and> event_of r f \<in> set evs)))"
  using assms by (simp add: event_handler_take)

text \<open>The count returned by \<^verbatim>\<open>poll\<close> is spent on watched sockets that are not ready: with
  one ready socket behind an idle one, the handler runs for the idle socket only.\<close>

theorem dispatch_misses_ready_socket:
  assumes "objects_live r" and "watched r idle" and "pfd_revents idle = 0"
    and "watched r ready" and "has_event (pfd_revents ready) POLLIN"
  shows "\<exists>fid. event_handler (length [ready]) [idle, ready] r = Inr [FdEvent fid False False False]"
proof -
  have "\<exists>fid. event_of r idle = FdEvent fid False False False"
    using assms(3) by (auto simp: event_of_def has_event_def split: option.splits)
  then show ?thesis using assms by (simp add: event_handler_take del: event_handler.simps)
qed

text \<open>In every state a reactor reaches from its construction, through registrations,
  removals and interest changes of any sockets, its tables are empty: registering a socket always
  throws \<^verbatim>\<open>bad_weak_ptr\<close>, because \<^verbatim>\<open>add\<close> asks a local copy of the socket for its
  owner.\<close>

theorem reactor_never_registers:
  assumes "poll_reach r" and "r_objects r addr = Some s" and "sock_reactor s"
  shows "r_fds r = [] \<and> r_fdtbs r = Map.empty \<and> socket_registor addr r = Inl BadWeakPtr"
  using poll_reach_empty [OF assms(1)] assms(2,3) by (simp add: registor_throws)

text \<open>\<^verbatim>\<open>RttServer::start\<close> either reports 1 although the address could not be parsed or
  bound, with nothing registered, or fails with \<^verbatim>\<open>bad_weak_ptr\<close> while registering the
  listening socket.\<close>

theorem rtt_start_outcomes:
  assumes "r_objects r addr = Some s" and "sock_reactor s" and "r_fdtbs r = Map.empty"
  shows "if ans_ret (next_answer w) < 0 \<or> ans_ret (w_answers w (Suc (length (w_trace w)))) < 0
         then \<exists>w'. rtt_start addr r w = Inr (1, r, w')
         else rtt_start addr r w = Inl BadWeakPtr"
  using assms registor_throws [OF assms(3,1,2)]
  by (auto simp: rtt_start_def accept_build_def Let_def split_beta)

text \<open>Changing an interest flag of a registered socket puts the new set of flags into the
  first table entry of its descriptor, and leaves the other entries and the set of tracked
  descriptors alone.\<close>

theorem interest_follows_flags:
  assumes "r_objects r addr = Some s" and "sock_reactor s"
    and "r_fds r = before @ p # after" and "pfd_fd p = sock_id s" and "sock_id s \<notin> pfd_fd ` set before"
    and "f \<in> {set_readenable addr, set_readdisable addr, set_writeenable addr,
              set_writedisable addr, set_errorenable addr, set_errordisable addr}"
  shows "\<exists>s' p'. r_objects (f r) addr = Some s' \<and> r_fds (f r) = before @ p' # after \<and>
           pfd_fd p' = pfd_fd p \<and> pfd_revents p' = pfd_revents p \<and>
           has_event (pfd_events p') POLLIN = fd_read s' \<and>
           has_event (pfd_events p') POLLOUT = fd_write s' \<and>
           has_event (pfd_events p') POLLERR = fd_error s'"
proof -
  obtain g where f: "f = socket_update addr g" and g: "\<And>s. sock_id (g s) = sock_id s"
    using assms(6) that unfolding set_readenable_def set_readdisable_def set_writeenable_def
      set_writedisable_def set_errorenable_def set_errordisable_def by auto
  have first: "set_first (\<lambda>p. sock_id s = pfd_fd p) h (before @ p # after) = before @ h p # after" for h
    using assms(4,5) by (induction before) auto
  show ?thesis using assms(1-3) g unfolding f
    by (simp add: socket_update_def Let_def poll_update_def first socket_events_bits)
qed

text \<open>Removing descriptors after any number of interest changes forgets exactly those
  descriptors.\<close>

theorem removal_forgets_exactly:
  assumes "poll_inv r"
  shows "poll_tracked (fold poll_remove is (fold poll_update ms r)) = poll_tracked r - set is"
  using assms by (rule pt.erase_after_updates)

section \<open>Concrete runs\<close>

definition example_reactor :: reactor where
  "example_reactor =
     \<lparr>r_objects = [0 \<mapsto> (socket_new 5 True NORMAL True)\<lparr>fd_read := True\<rparr>,
                   1 \<mapsto> (socket_new 6 True NORMAL True)\<lparr>fd_read := True\<rparr>],
      r_fds = [\<lparr>pfd_fd = 5, pfd_events = POLLIN, pfd_revents = 0\<rparr>,
               \<lparr>pfd_fd = 6, pfd_events = POLLIN, pfd_revents = 0\<rparr>],
      r_fdtbs = [5 \<mapsto> 0, 6 \<mapsto> 1]\<rparr>"

lemma dispatch_first_watched_witness:
  "event_handler 7 [\<lparr>pfd_fd = 6, pfd_events = POLLIN, pfd_revents = POLLIN\<rparr>] example_reactor =
     Inr [FdEvent 6 True False False]"
  using dispatch_first_watched [of example_reactor 7 "[\<lparr>pfd_fd = 6, pfd_events = POLLIN, pfd_revents = POLLIN\<rparr>]"]
  by (auto simp: example_reactor_def objects_live_def ran_def watched_def event_of_def responsable_def
      socket_new_def has_event_def poll_flags)

lemma dispatch_misses_ready_socket_witness:
  "\<exists>fid. event_handler (length [()]) [\<lparr>pfd_fd = 5, pfd_events = POLLIN, pfd_revents = 0\<rparr>,
       \<lparr>pfd_fd = 6, pfd_events = POLLIN, pfd_revents = POLLIN\<rparr>] example_reactor =
     Inr [FdEvent fid False False False]"
  using dispatch_misses_ready_socket [of example_reactor "\<lparr>pfd_fd = 5, pfd_events = POLLIN, pfd_revents = 0\<rparr>"
      "\<lparr>pfd_fd = 6, pfd_events = POLLIN, pfd_revents = POLLIN\<rparr>"]
  by (auto simp: example_reactor_def objects_live_def ran_def watched_def responsable_def socket_new_def
      has_event_def poll_flags)

lemma reactor_never_registers_witness:
  "socket_registor 0 (poll_new [0 \<mapsto> socket_new 5 True LISTEN_SHARED False]) = Inl BadWeakPtr"
  using reactor_never_registers [OF poll_start, of "[0 \<mapsto> socket_new 5 True LISTEN_SHARED False]" 0]
  by (simp add: poll_new_def socket_new_def)

lemma rtt_start_outcomes_witness:
  "rtt_start 0 (poll_new [0 \<mapsto> socket_new 5 True LISTEN_SHARED False]) (script []) = Inl BadWeakPtr"
  using rtt_start_outcomes [of "poll_new [0 \<mapsto> socket_new 5 True LISTEN_SHARED False]" 0
      "socket_new 5 True LISTEN_SHARED False" "script []"]
  by (simp add: poll_new_def socket_new_def next_answer_def script_def returns_def)

lemma interest_follows_flags_witness:
  "\<exists>p'. r_fds (set_writeenable 0 example_reactor) = [] @ p' # tl (r_fds example_reactor) \<and>
     has_event (pfd_events p') POLLOUT"
proof -
  have "\<exists>s' p'. r_objects (set_writeenable 0 example_reactor) 0 = Some s' \<and>
      r_fds (set_writeenable 0 example_reactor) = [] @ p' # tl (r_fds example_reactor) \<and>
      pfd_fd p' = pfd_fd (hd (r_fds example_reactor)) \<and> pfd_revents p' = pfd_revents (hd (r_fds example_reactor)) \<and>
      has_event (pfd_events p') POLLIN = fd_read s' \<and> has_event (pfd_events p') POLLOUT = fd_write s' \<and>
      has_event (pfd_events p') POLLERR = fd_error s'"
    by (rule interest_follows_flags [of _ _ "(socket_new 5 True NORMAL True)\<lparr>fd_read := True\<rparr>"])
      (auto simp: example_reactor_def socket_new_def)
  then show ?thesis
    by (auto simp: set_writeenable_def socket_update_def example_reactor_def Let_def poll_update_def socket_new_def)
qed

lemma removal_forgets_exactly_witness:
  "poll_tracked (fold poll_remove [5] (fold poll_update [] example_reactor)) = {6}"
proof -
  have "poll_inv example_reactor" by (auto simp: poll_inv_def example_reactor_def)
  moreover have "poll_tracked example_reactor - set [5] = {6}"
    by (auto simp: poll_tracked_def example_reactor_def)
  ultimately show ?thesis using removal_forgets_exactly [of example_reactor "[5]" "[]"] by simp
qed

end
