(* ===== verification/Rtt_Accept.thy ===== *)
theory Rtt_Accept
  imports Rtt_Connections Reactor
begin

text \<open>
  \<^verbatim>\<open>startDomain\<close> with the \<^verbatim>\<open>Accept\<close> object it calls: \<^verbatim>\<open>acceptor_.create()\<close> makes the system call, a new
  \<^verbatim>\<open>Connector\<close>, and calls \<^verbatim>\<open>onNewConnect\<close>, which the constructor of \<^verbatim>\<open>RttServer\<close> has set as the
  callback; then the flags of the new descriptor are read.
\<close>



text \<open>The branch of a round for the listener, with the line printed for the flags; \<open>flag | O_NONBLOCK\<close>
  is never zero.\<close>

datatype inherit_line = Can_inherit | Cannot_inherit

definition inherit_report :: "int \<Rightarrow> inherit_line option" where
  "inherit_report flag = (if 0 \<le> flag then Some (if flag OR O_NONBLOCK \<noteq> 0 then Can_inherit else Cannot_inherit) else None)"



section \<open>Lemmas\<close>

lemma inherit_always: "0 \<le> flag \<Longrightarrow> inherit_report flag = Some Can_inherit"
  by (simp add: inherit_report_def not_block_flag)







section \<open>Properties\<close>



end
