(* ===== verification/Rtt_Drain.thy ===== *)
theory Rtt_Drain
  imports Rtt_Server
begin

text \<open>
  A reply that \<^verbatim>\<open>write\<close> took only in part, in \<^verbatim>\<open>src/set/rtt/rtt_server.cpp\<close>: the rest waits in the
  write buffer of the connection, and every time the descriptor is writable as much of it is written
  as the kernel takes.  When nothing is left, the connection is shut down.
\<close>

text \<open>The bytes that \<^verbatim>\<open>write(connected_fd, wbuff.peek(), wbuff.readed_size())\<close> hands over.\<close>

definition handed_over :: "fd_env \<Rightarrow> translation \<Rightarrow> cxx_error + u8 list" where
  "handed_over e t =
     and_then (cb_peek_raw (wbuffer t)) (\<lambda>ptr.
     and_then (read_n ptr 0 (cb_readed_size (wbuffer t))) (\<lambda>bs.
       Inr (if env_out_ret e < 0 then [] else take (nat (env_out_ret e)) bs)))"

text \<open>A sequence of writable events; the result is \<open>None\<close> once the connection was disposed of.\<close>

fun drain :: "fd_env list \<Rightarrow> translation \<Rightarrow> u16 \<Rightarrow> cxx_error + (translation \<times> u16) option \<times> u8 list" where
  "drain [] t ev = Inr (Some (t, ev), [])"
| "drain (e # es) t ev =
     and_then (handed_over e t) (\<lambda>bs.
     and_then (on_writable e t ev) (\<lambda>r.
       case r of
         None \<Rightarrow> Inr (None, bs)
       | Some (t, ev) \<Rightarrow> and_then (drain es t ev) (\<lambda>(r, cs). Inr (r, bs @ cs))))"

text \<open>
  A kernel that is offered \<open>n\<close> bytes takes at most as many, or none because the call would
  block; the events behind the last byte are not looked at.
\<close>

fun takes_offered :: "nat \<Rightarrow> fd_env list \<Rightarrow> bool" where
  "takes_offered n [] \<longleftrightarrow> True"
| "takes_offered n (e # es) \<longleftrightarrow>
     (if env_out_ret e < 0 then env_out_errno e = EWOULDBLOCK \<and> takes_offered n es
      else nat (env_out_ret e) \<le> n \<and> (nat (env_out_ret e) < n \<longrightarrow> takes_offered (n - nat (env_out_ret e)) es))"

section \<open>Lemmas\<close>

lemma straight_pointer:
  assumes "cb_straight b"
  shows "\<exists>ptr. cb_peek_raw b = Inr ptr \<and> read_n ptr 0 (cb_readed_size b) = Inr (cb_data b)"
proof -
  from assms have "cb_valid b" "readindex b \<le> writeindex b" by (simp_all add: cb_straight_def)
  then show ?thesis
    by (elim cb_validE) (auto simp: cb_peek_raw_def cb_memory_def cb_readed_size_def cb_data_def read_n_def size_simps)
qed

lemma one_writable:
  assumes "cb_straight (wbuffer t)" and "takes_offered (length (cb_data (wbuffer t))) (e # es)"
  shows "if \<not> env_out_ret e < 0 \<and> nat (env_out_ret e) = length (cb_data (wbuffer t))
    then handed_over e t = Inr (cb_data (wbuffer t)) \<and> on_writable e t ev = Inr None
    else \<exists>w bs. handed_over e t = Inr bs \<and> on_writable e t ev = Inr (Some (t\<lparr>wbuffer := w\<rparr>, wait_writable ev)) \<and>
      cb_straight w \<and> cb_data (wbuffer t) = bs @ cb_data w \<and> takes_offered (length (cb_data w)) es \<and>
      (cb_data (wbuffer t) \<noteq> [] \<longrightarrow> cb_data w \<noteq> [])"
proof -
  from straight_pointer [OF assms(1)] obtain ptr where
    ptr: "cb_peek_raw (wbuffer t) = Inr ptr" "read_n ptr 0 (cb_readed_size (wbuffer t)) = Inr (cb_data (wbuffer t))" by auto
  have size: "cb_readed_size (wbuffer t) = length (cb_data (wbuffer t))" using cbq.size_data [OF assms(1)] .
  show ?thesis
  proof (cases "env_out_ret e < 0")
    case True
    then show ?thesis using assms ptr
      by (auto simp: handed_over_def on_writable_def intro!: exI [of _ "wbuffer t"])
  next
    case False
    then have n: "nat (env_out_ret e) \<le> length (cb_data (wbuffer t))" using assms(2) by simp
    show ?thesis
    proof (cases "nat (env_out_ret e) = length (cb_data (wbuffer t))")
      case True
      then show ?thesis using False ptr size by (simp add: handed_over_def on_writable_def)
    next
      case less: False
      from cbq.skip_data [OF assms(1) n] obtain w where
        "cb_skip (wbuffer t) (nat (env_out_ret e)) = Inr w" "cb_straight w"
        "cb_data w = drop (nat (env_out_ret e)) (cb_data (wbuffer t))" by auto
      then show ?thesis using False less n ptr size assms(2)
        by (auto simp: handed_over_def on_writable_def)
    qed
  qed
qed

text \<open>What draining leaves of the queued bytes \<open>d\<close>, when \<open>bs\<close> have been handed over.\<close>

fun left_over :: "u8 list \<Rightarrow> circulation_buffer \<Rightarrow> u8 list \<Rightarrow> (translation \<times> u16) option \<Rightarrow> bool" where
  "left_over d rb bs None \<longleftrightarrow> bs = d"
| "left_over d rb bs (Some (t, ev)) \<longleftrightarrow>
     cb_data (wbuffer t) \<noteq> [] \<and> d = bs @ cb_data (wbuffer t) \<and> rbuffer t = rb \<and>
     has_event ev POLLOUT \<and> \<not> has_event ev POLLIN"

lemma left_over_more: "left_over d rb cs r \<Longrightarrow> left_over (bs @ d) rb (bs @ cs) r"
  by (cases "(d, rb, cs, r)" rule: left_over.cases) auto

lemma drain_delivers:
  assumes "cb_straight (wbuffer t)" and "takes_offered (length (cb_data (wbuffer t))) es"
    and "cb_data (wbuffer t) \<noteq> []" and "ev = wait_writable ev0"
  shows "\<exists>r bs. drain es t ev = Inr (r, bs) \<and> left_over (cb_data (wbuffer t)) (rbuffer t) bs r"
  using assms
proof (induction es arbitrary: t ev ev0)
  case Nil
  then show ?case by (simp add: wait_writable_events)
next
  case (Cons e es)
  note one = one_writable [OF Cons.prems(1,2), of ev]
  show ?case
  proof (cases "\<not> env_out_ret e < 0 \<and> nat (env_out_ret e) = length (cb_data (wbuffer t))")
    case True
    then show ?thesis using one by auto
  next
    case False
    with one Cons.prems(3) obtain w bs where w: "handed_over e t = Inr bs"
        "on_writable e t ev = Inr (Some (t\<lparr>wbuffer := w\<rparr>, wait_writable ev))" "cb_straight w"
        "cb_data (wbuffer t) = bs @ cb_data w" "takes_offered (length (cb_data w)) es" "cb_data w \<noteq> []"
      by (simp only: if_False) blast
    from Cons.IH [of "t\<lparr>wbuffer := w\<rparr>" "wait_writable ev" ev] w(3,5,6) obtain r cs where
      "drain es (t\<lparr>wbuffer := w\<rparr>) (wait_writable ev) = Inr (r, cs)" "left_over (cb_data w) (rbuffer t) cs r" by auto
    then show ?thesis using w(1,2,4) left_over_more [of "cb_data w" "rbuffer t" cs r bs] by simp
  qed
qed

section \<open>Properties\<close>

text \<open>
  C6: a reply that is written in pieces arrives whole.  When \<^verbatim>\<open>write\<close> takes some of the 24 bytes of a
  reply and the write buffer is empty, the rest is queued; over any sequence of writable events, in
  which the kernel takes any number of the bytes offered or would block, no byte is lost, repeated
  or out of order.  The connection is shut down exactly when the last byte has been handed over;
  until then it waits for the descriptor to be writable, not readable, with the bytes
  that are left.
\<close>

theorem partial_reply_arrives_whole:
  assumes "cb_linear (wbuffer t)" and "cb_data (wbuffer t) = []" and "length pkg = sizeof_rtt_package"
    and "0 < ws" and "ws < 24" and "takes_offered (24 - nat ws) es"
  shows "\<exists>t1 ev1 r bs. queue_unsent fresh t ev pkg ws err = Inr (t1, ev1) \<and> drain es t1 ev1 = Inr (r, bs) \<and>
     (r = None \<longleftrightarrow> take (nat ws) pkg @ bs = pkg) \<and>
     (\<forall>t' ev'. r = Some (t', ev') \<longrightarrow> take (nat ws) pkg @ bs @ cb_data (wbuffer t') = pkg \<and>
        rbuffer t' = rbuffer t \<and> has_event ev' POLLOUT \<and> \<not> has_event ev' POLLIN)"
proof -
  from queue_unsent_partial [OF assms(1) _ assms(3-5), of fresh ev err] assms(2) obtain w where
    w: "queue_unsent fresh t ev pkg ws err = Inr (t\<lparr>wbuffer := w\<rparr>, wait_writable ev)" "cb_linear w"
      "cb_data w = drop (nat ws) pkg" by auto
  have left: "length (cb_data w) = 24 - nat ws" "cb_data w \<noteq> []"
    using w(3) assms(3-5) by (auto simp: sizeof_rtt_package_def)
  have "cb_straight w" using w(2) by (rule cbq.home_inv)
  from drain_delivers [of "t\<lparr>wbuffer := w\<rparr>" es "wait_writable ev" ev] this left assms(6) obtain r bs where
    run: "drain es (t\<lparr>wbuffer := w\<rparr>) (wait_writable ev) = Inr (r, bs)" and
    res: "left_over (cb_data w) (rbuffer t) bs r" by auto
  have split: "take (nat ws) pkg @ drop (nat ws) pkg = pkg" by (rule append_take_drop_id)
  have "(r = None \<longleftrightarrow> take (nat ws) pkg @ bs = pkg) \<and>
     (\<forall>t' ev'. r = Some (t', ev') \<longrightarrow> take (nat ws) pkg @ bs @ cb_data (wbuffer t') = pkg \<and>
        rbuffer t' = rbuffer t \<and> has_event ev' POLLOUT \<and> \<not> has_event ev' POLLIN)"
  proof (cases r)
    case None
    then show ?thesis using res w(3) by simp
  next
    case (Some x)
    then have more: "drop (nat ws) pkg = bs @ cb_data (wbuffer (fst x))" "cb_data (wbuffer (fst x)) \<noteq> []"
      using res w(3) by (cases x; simp)+
    then have "take (nat ws) pkg @ bs \<noteq> pkg" using split by (metis append_assoc append_self_conv)
    then show ?thesis using Some res w(3) split by (cases x) auto
  qed
  with w(1) run show ?thesis by blast
qed

text \<open>Twenty bytes at once, then one, a write that would block, and the last three.\<close>

definition out_env :: "int \<Rightarrow> fd_env" where
  "out_env n = (example_env [])\<lparr>env_out_ret := n, env_out_errno := EWOULDBLOCK\<rparr>"

theorem partial_reply_arrives_whole_witness:
  "\<exists>t t1 ev1. translation_new UNKNOW = Inr t \<and>
     queue_unsent (\<lambda>_. 0) t POLLIN (package_bytes (network_package 1 2 3)) 20 0 = Inr (t1, ev1) \<and>
     (\<exists>r bs. drain [out_env 1, out_env (- 1), out_env 3] t1 ev1 = Inr (r, bs) \<and>
        (r = None \<longleftrightarrow> take 20 (package_bytes (network_package 1 2 3)) @ bs = package_bytes (network_package 1 2 3)))"
proof -
  from translation_new_ready [of UNKNOW] obtain t
    where t: "translation_new UNKNOW = Inr t" "cb_linear (wbuffer t)" "cb_data (wbuffer t) = []" by auto
  have takes: "takes_offered (24 - nat 20) [out_env 1, out_env (- 1), out_env 3]"
    by (simp add: out_env_def example_env_def)
  have len: "length (package_bytes (network_package 1 2 3)) = sizeof_rtt_package" by simp
  from partial_reply_arrives_whole [OF t(2,3) len _ _ takes, of "\<lambda>_. 0" POLLIN 0] t(1)
  show ?thesis by simp blast
qed

end
