(* ===== verification/Rtt_Client_Run.thy ===== *)
theory Rtt_Client_Run
  imports Sockops Rtt_Protocol "HOL-Library.Sublist"
begin

text \<open>
  The program \<^verbatim>\<open>src/set/rtt/rtt_client.cpp\<close> as a trace of system calls: the constructor of
  \<^verbatim>\<open>RttClient\<close>, \<^verbatim>\<open>Connect\<close> and \<^verbatim>\<open>main\<close>.  The two readings of the clock are
  arguments.  Its abstract counterpart is \<open>rtt_connect\<close>, which is given the outcome of the
  calls and knows nothing of descriptors.
\<close>




section \<open>What the kernel answered\<close>





section \<open>Properties\<close>



end
