(* ===== verification/Ring_Shape.thy ===== *)
theory Ring_Shape
  imports Circulation_Buffer
begin


definition cb_shape :: "circulation_buffer \<Rightarrow> bool" where
  "cb_shape b \<longleftrightarrow> (\<forall>m. buf b = Some m \<longrightarrow> length m = length_ix b \<and> length_ix b < 2 ^ 63)"

lemma shape_after_write:
  "cb_shape b \<Longrightarrow> buf b = Some m \<Longrightarrow> length m' = length m \<Longrightarrow>
     cb_shape (b\<lparr>buf := Some m', readindex := r, writeindex := w\<rparr>)"
  "cb_shape b \<Longrightarrow> buf b = Some m \<Longrightarrow> length m' = length m \<Longrightarrow>
     cb_shape (b\<lparr>buf := Some m', writeindex := w\<rparr>)"
  by (simp_all add: cb_shape_def)

lemma memory_some: "cb_memory b = Inr m \<longleftrightarrow> buf b = Some m"
  by (auto simp: cb_memory_def split: option.splits)

lemma relocation_shape: "cb_relocation_location b = Inr b' \<Longrightarrow> cb_shape b \<Longrightarrow> cb_shape b'"
  unfolding cb_relocation_location_def Let_def
  by (auto simp: and_then_Inr_iff memory_some split: if_splits intro!: shape_after_write dest!: write_n_length)







section \<open>Properties\<close>



end
