(* ===== verification/Op_Simulation.thy ===== *)
theory Op_Simulation
  imports Prelude
begin

text \<open>
  Refinement of objects with operations.  A step takes an operation and a state and fails or gives
  what a caller observes and a new state.  \<open>run_ops\<close> performs a list of operations and stops at the
  first failure; \<open>observed\<close> forgets the final state.  The locale is a forward simulation: related
  states answer an operation alike, with the same failure, as long as the specification permits the
  operation.  It is interpreted on the ring buffer and on the timers of the event loop.
\<close>

fun run_ops :: "('op \<Rightarrow> 's \<Rightarrow> cxx_error + 'o \<times> 's) \<Rightarrow> 'op list \<Rightarrow> 's \<Rightarrow> 'o list \<times> (cxx_error + 's)" where
  "run_ops step [] s = ([], Inr s)"
| "run_ops step (op # ops) s =
     (case step op s of
        Inl e \<Rightarrow> ([], Inl e)
      | Inr (out, s1) \<Rightarrow> let (outs, r) = run_ops step ops s1 in (out # outs, r))"

definition observed :: "'o list \<times> (cxx_error + 's) \<Rightarrow> 'o list \<times> cxx_error option" where
  "observed r = (fst r, case snd r of Inl e \<Rightarrow> Some e | Inr _ \<Rightarrow> None)"

text \<open>Every operation is permitted in the state of the specification in which it is made.\<close>

fun permitted :: "('op \<Rightarrow> 's \<Rightarrow> bool) \<Rightarrow> ('op \<Rightarrow> 's \<Rightarrow> cxx_error + 'o \<times> 's) \<Rightarrow> 'op list \<Rightarrow> 's \<Rightarrow> bool" where
  "permitted may step [] s \<longleftrightarrow> True"
| "permitted may step (op # ops) s \<longleftrightarrow>
     may op s \<and> (case step op s of Inl _ \<Rightarrow> True | Inr (_, s1) \<Rightarrow> permitted may step ops s1)"

lemma observed_Cons:
  "observed (let (outs, r) = q in (out # outs, r)) = (out # fst (observed q), snd (observed q))"
  by (cases q) (simp add: observed_def)

locale op_simulation =
  fixes rel :: "'c \<Rightarrow> 'a \<Rightarrow> bool"
    and step :: "'op \<Rightarrow> 'c \<Rightarrow> cxx_error + 'o \<times> 'c"
    and spec :: "'op \<Rightarrow> 'a \<Rightarrow> cxx_error + 'o \<times> 'a"
    and may :: "'op \<Rightarrow> 'a \<Rightarrow> bool"
  assumes fails_alike: "rel c a \<Longrightarrow> may op a \<Longrightarrow> spec op a = Inl e \<Longrightarrow> step op c = Inl e"
    and answers_alike: "rel c a \<Longrightarrow> may op a \<Longrightarrow> spec op a = Inr (out, a') \<Longrightarrow>
          \<exists>c'. step op c = Inr (out, c') \<and> rel c' a'"
begin

lemma runs_alike:
  "rel c a \<Longrightarrow> permitted may spec ops a \<Longrightarrow>
     observed (run_ops step ops c) = observed (run_ops spec ops a) \<and>
     (\<forall>a'. snd (run_ops spec ops a) = Inr a' \<longrightarrow> (\<exists>c'. snd (run_ops step ops c) = Inr c' \<and> rel c' a'))"
proof (induction ops arbitrary: c a)
  case Nil
  then show ?case by (simp add: observed_def)
next
  case (Cons op ops)
  show ?case
  proof (cases "spec op a")
    case (Inl e)
    then show ?thesis using fails_alike Cons.prems by (simp add: observed_def)
  next
    case (Inr r)
    obtain out a1 where r: "r = (out, a1)" by fastforce
    with Inr answers_alike Cons.prems obtain c1 where c1: "step op c = Inr (out, c1)" "rel c1 a1" by fastforce
    have "permitted may spec ops a1" using Cons.prems(2) Inr r by simp
    from Cons.IH [OF c1(2) this] show ?thesis
      by (simp add: Inr r c1(1) observed_Cons split_beta [of _ "run_ops _ _ _"])
        (auto simp: observed_def split_beta)
  qed
qed

end

end
