(* ===== verification/Ring_Refinement.thy ===== *)
theory Ring_Refinement
  imports Circulation_Buffer Op_Simulation
begin

text \<open>
  The ring buffer as an implementation of a byte queue.  The specification is a list of bytes with
  one number: how many bytes were appended since the queue was last empty.  It permits an append
  while nothing was skipped since then (the ring grows when it has to), and otherwise as long as the
  bytes since then fit into the capacity the ring was made with.  Histories that go beyond are those
  on which the ring is wrong (\<open>append_growth_moved\<close>, \<open>free_space_underflow\<close>).
\<close>

datatype ring_op = Append "u8 list" | Peek8 | Peek16 | Peek32 | Peek64 | Skip nat | RetrieveAll | ReadedSize

definition cb_do :: "(nat \<Rightarrow> u8) \<Rightarrow> ring_op \<Rightarrow> circulation_buffer \<Rightarrow> cxx_error + nat \<times> circulation_buffer" where
  "cb_do fresh op b =
     (case op of
        Append xs \<Rightarrow> and_then (cb_append fresh b xs (length xs)) (\<lambda>b'. Inr (0, b'))
      | Peek8 \<Rightarrow> and_then (cb_peek b :: cxx_error + u8) (\<lambda>v. Inr (unat v, b))
      | Peek16 \<Rightarrow> and_then (cb_peek b :: cxx_error + u16) (\<lambda>v. Inr (unat v, b))
      | Peek32 \<Rightarrow> and_then (cb_peek b :: cxx_error + u32) (\<lambda>v. Inr (unat v, b))
      | Peek64 \<Rightarrow> and_then (cb_peek b :: cxx_error + u64) (\<lambda>v. Inr (unat v, b))
      | Skip n \<Rightarrow> and_then (cb_skip b n) (\<lambda>b'. Inr (0, b'))
      | RetrieveAll \<Rightarrow> Inr (0, cb_retrieve_all b)
      | ReadedSize \<Rightarrow> Inr (cb_readed_size b, b))"

record byte_spec =
  bs_bytes :: "u8 list"
  bs_used :: nat

definition bs_empty :: byte_spec where
  "bs_empty = \<lparr>bs_bytes = [], bs_used = 0\<rparr>"

definition bs_front :: "nat \<Rightarrow> (u8 list \<Rightarrow> nat) \<Rightarrow> byte_spec \<Rightarrow> cxx_error + nat \<times> byte_spec" where
  "bs_front n num s =
     (if n \<le> length (bs_bytes s) then Inr (num (take n (bs_bytes s)), s) else Inl AssertionFailed)"

definition bs_drop :: "nat \<Rightarrow> byte_spec \<Rightarrow> byte_spec" where
  "bs_drop n s =
     (if n = length (bs_bytes s) then bs_empty else s\<lparr>bs_bytes := drop n (bs_bytes s)\<rparr>)"

definition bs_do :: "ring_op \<Rightarrow> byte_spec \<Rightarrow> cxx_error + nat \<times> byte_spec" where
  "bs_do op s =
     (case op of
        Append xs \<Rightarrow> Inr (0, \<lparr>bs_bytes = bs_bytes s @ xs, bs_used = bs_used s + length xs\<rparr>)
      | Peek8 \<Rightarrow> bs_front 1 (\<lambda>bs. unat (be_word bs :: u8)) s
      | Peek16 \<Rightarrow> bs_front 2 (\<lambda>bs. unat (be_word bs :: u16)) s
      | Peek32 \<Rightarrow> bs_front 4 (\<lambda>bs. unat (be_word bs :: u32)) s
      | Peek64 \<Rightarrow> bs_front 8 (\<lambda>bs. unat (be_word bs :: u64)) s
      | Skip n \<Rightarrow> if n \<le> length (bs_bytes s) then Inr (0, bs_drop n s) else Inl AssertionFailed
      | RetrieveAll \<Rightarrow> Inr (0, bs_empty)
      | ReadedSize \<Rightarrow> Inr (length (bs_bytes s), s))"

definition bs_may :: "nat \<Rightarrow> ring_op \<Rightarrow> byte_spec \<Rightarrow> bool" where
  "bs_may n op s =
     (case op of
        Append xs \<Rightarrow>
          bs_used s = length (bs_bytes s) \<and> bs_used s + length xs + padding \<le> 2 ^ 61 \<or>
          bs_used s + length xs + padding \<le> n
      | _ \<Rightarrow> True)"

text \<open>The simulation: both indices are determined by the specification's two numbers.\<close>

definition ring_sim :: "nat \<Rightarrow> circulation_buffer \<Rightarrow> byte_spec \<Rightarrow> bool" where
  "ring_sim n b s \<longleftrightarrow>
     cb_straight b \<and> cb_data b = bs_bytes s \<and> writeindex b = padding + bs_used s \<and>
     readindex b + length (bs_bytes s) = padding + bs_used s \<and> padding \<le> readindex b \<and> n \<le> length_ix b"

section \<open>The operations one by one\<close>

lemma sim_valid: "ring_sim n b s \<Longrightarrow> cb_valid b"
  by (simp add: ring_sim_def cb_straight_def)

lemma straight_length: "cb_straight b \<Longrightarrow> readindex b + length (cb_data b) = writeindex b"
  by (auto simp: cb_straight_def cb_data_def elim!: cb_validE)

lemma straight_peek:
  assumes "cb_straight b" and "8 dvd LENGTH('a::len)"
  shows "(cb_peek b :: cxx_error + 'a word) =
    (if octets TYPE('a word) \<le> length (cb_data b)
     then Inr (be_word (take (octets TYPE('a word)) (cb_data b))) else Inl AssertionFailed)"
  using cb_peek_data [OF _ assms(2) refl, of b] cb_peek_short [of b, where 'a = 'a] assms(1)
  by (auto simp: cb_straight_def)

lemma sim_peeks:
  assumes "ring_sim n b s" and "op \<in> {Peek8, Peek16, Peek32, Peek64, ReadedSize}"
  shows "cb_do fresh op b = (case bs_do op s of Inl e \<Rightarrow> Inl e | Inr (out, s') \<Rightarrow> Inr (out, b)) \<and>
         (\<forall>out s'. bs_do op s = Inr (out, s') \<longrightarrow> s' = s)"
proof -
  have b: "cb_straight b" "cb_data b = bs_bytes s" using assms(1) by (simp_all add: ring_sim_def)
  note peeks = straight_peek [OF b(1), where 'a = 8] straight_peek [OF b(1), where 'a = 16]
    straight_peek [OF b(1), where 'a = 32] straight_peek [OF b(1), where 'a = 64]
  show ?thesis using assms(2) b(2) cb_readed_size_data [OF sim_valid [OF assms(1)]]
    by (auto simp: cb_do_def bs_do_def bs_front_def peeks split: if_splits)
qed

lemma sim_skip:
  assumes sim: "ring_sim n b s" and len: "k \<le> length (bs_bytes s)"
  shows "\<exists>b'. cb_skip b k = Inr b' \<and> ring_sim n b' (bs_drop k s)"
proof -
  note valid = sim_valid [OF sim]
  have data: "cb_data b = bs_bytes s" using sim by (simp add: ring_sim_def)
  show ?thesis
  proof (cases "k = length (bs_bytes s)")
    case True
    have "cb_linear (cb_retrieve_all b)" using valid by (rule cb_retrieve_all_linear)
    then show ?thesis using True cb_skip_all [OF valid] sim
      by (auto simp: data bs_drop_def bs_empty_def ring_sim_def cb_retrieve_all_data cb_straight_def cb_linear_def)
        (simp_all add: cb_retrieve_all_def)
  next
    case False
    from cb_skip_straight [of b k] sim len obtain b'
      where b': "cb_skip b k = Inr b'" "cb_straight b'" "cb_data b' = drop k (cb_data b)"
      by (auto simp: ring_sim_def data)
    have "writeindex b' = writeindex b \<and> length_ix b' = length_ix b"
      using b'(1) False len
      by (auto simp: cb_skip_def cb_readed_size_data [OF valid] data split: if_splits)
    with b' straight_length [OF b'(2)] sim len False data show ?thesis
      by (auto simp: ring_sim_def bs_drop_def)
  qed
qed

lemma sim_append_home:
  assumes sim: "ring_sim n b s" and home: "bs_used s = length (bs_bytes s)"
    and bound: "bs_used s + length xs + padding \<le> 2 ^ 61"
  shows "\<exists>b'. cb_append fresh b xs (length xs) = Inr b' \<and>
    ring_sim n b' \<lparr>bs_bytes = bs_bytes s @ xs, bs_used = bs_used s + length xs\<rparr>"
proof -
  have data: "cb_data b = bs_bytes s" using sim by (simp add: ring_sim_def)
  have linear: "cb_linear b" using sim home by (simp add: ring_sim_def cb_straight_def cb_linear_def)
  from cb_append_linear [OF linear, of xs fresh] bound home obtain b'
    where b': "cb_append fresh b xs (length xs) = Inr b'" "cb_linear b'" "cb_data b' = cb_data b @ xs"
    by (auto simp: data)
  have "length_ix b \<le> length_ix b'"
  proof (cases "cb_writed_size b < length xs")
    case True
    then have "length_ix b < writeindex b'" using b' linear
      by (simp add: cb_writed_size_roomy [OF cb_linear_roomy])
        (use cb_linear_data [OF b'(2)] in \<open>auto simp: cb_linear_def\<close>)
    then show ?thesis using b'(2) by (auto simp: cb_linear_def elim!: cb_validE)
  next
    case False
    with cb_append_in_place [OF cb_linear_roomy [OF linear], of xs fresh] b'(1) show ?thesis by auto
  qed
  moreover have "cb_straight b'" using b'(2) by (simp add: cb_linear_def cb_straight_def)
  ultimately show ?thesis using b' sim straight_length [of b'] home
    by (auto simp: ring_sim_def cb_linear_def data)
qed

lemma sim_append_room:
  assumes sim: "ring_sim n b s" and room: "bs_used s + length xs + padding \<le> n"
  shows "\<exists>b'. cb_append fresh b xs (length xs) = Inr b' \<and>
    ring_sim n b' \<lparr>bs_bytes = bs_bytes s @ xs, bs_used = bs_used s + length xs\<rparr>"
proof -
  have data: "cb_data b = bs_bytes s" using sim by (simp add: ring_sim_def)
  have len: "length (bs_bytes s) \<le> bs_used s" using sim by (simp add: ring_sim_def)
  have roomy: "cb_roomy b" using sim room len by (auto simp: ring_sim_def cb_roomy_def cb_straight_def)
  have "length (cb_data b) + length xs < length_ix b"
    using room len sim by (auto simp: data ring_sim_def padding_def)
  from cb_append_place_data [OF sim_valid [OF sim] this] obtain b'
    where b': "cb_append_place b xs (length xs) = Inr b'" "cb_valid b'" "cb_data b' = cb_data b @ xs"
      "length_ix b' = length_ix b" "readindex b' = readindex b" "writeindex b' = writeindex b + length xs"
    using room sim by (auto simp: ring_sim_def)
  have "\<not> cb_writed_size b < length xs"
    using room len sim by (auto simp: cb_writed_size_roomy [OF roomy] data ring_sim_def)
  then have "cb_append fresh b xs (length xs) = Inr b'" using b'(1) by (simp add: cb_append_def)
  then show ?thesis using b' sim by (auto simp: ring_sim_def cb_straight_def data)
qed

interpretation ring: op_simulation "ring_sim n" "cb_do fresh" bs_do "bs_may n" for n fresh
proof unfold_locales
  fix b s op e
  assume "ring_sim n b s" "bs_do op s = Inl e"
  then show "cb_do fresh op b = Inl e"
    using sim_peeks [of n b s op fresh] cb_skip_beyond [OF sim_valid, of n b s]
    by (cases op) (auto simp: cb_do_def bs_do_def ring_sim_def split: if_splits)
next
  fix b s op out s'
  assume sim: "ring_sim n b s" and may: "bs_may n op s" and spec: "bs_do op s = Inr (out, s')"
  show "\<exists>b'. cb_do fresh op b = Inr (out, b') \<and> ring_sim n b' s'"
  proof (cases op)
    case (Append xs)
    then show ?thesis using may spec sim_append_home [OF sim, of xs fresh] sim_append_room [OF sim, of xs fresh]
      by (auto simp: cb_do_def bs_do_def bs_may_def)
  next
    case (Skip k)
    then show ?thesis using spec sim_skip [OF sim, of k] by (auto simp: cb_do_def bs_do_def split: if_splits)
  next
    case RetrieveAll
    then show ?thesis using spec sim_skip [OF sim, of "length (bs_bytes s)"] cb_skip_all [OF sim_valid [OF sim]] sim
      by (auto simp: cb_do_def bs_do_def bs_drop_def ring_sim_def)
  qed (use sim_peeks [OF sim, of op fresh] spec sim in auto)
qed

section \<open>Properties\<close>

text \<open>C3: A new ring buffer refines the byte queue: over every history of appends, typed peeks, skips
  and resets that the queue permits, whatever its length, the ring gives the same answers in the same
  order and fails where the queue fails, and at the end holds the queue's bytes.\<close>

theorem ring_refines_queue:
  assumes "padding \<le> n" and "n \<le> 2 ^ 62" and "permitted (bs_may n) bs_do ops bs_empty"
  shows "\<exists>b. circulation_buffer_new n = Inr b \<and>
    observed (run_ops (cb_do fresh) ops b) = observed (run_ops bs_do ops bs_empty) \<and>
    (case snd (run_ops bs_do ops bs_empty) of
       Inl _ \<Rightarrow> True
     | Inr s \<Rightarrow> \<exists>b'. snd (run_ops (cb_do fresh) ops b) = Inr b' \<and> cb_data b' = bs_bytes s)"
proof -
  from circulation_buffer_new_linear [OF assms(1,2)] obtain b
    where b: "circulation_buffer_new n = Inr b" "cb_linear b" "cb_data b = []" "length_ix b = n" by auto
  have "ring_sim n b bs_empty"
    using b cb_linear_data [OF b(2)] by (auto simp: ring_sim_def bs_empty_def cb_linear_def cb_straight_def)
  from ring.runs_alike [OF this assms(3), of fresh] b(1) show ?thesis
    by (auto simp: ring_sim_def split: sum.splits)
qed

theorem ring_refines_queue_witness:
  "\<exists>b. circulation_buffer_new 20 = Inr b \<and>
     fst (run_ops (cb_do (\<lambda>_. 9)) [Append [1, 2, 3], Peek16, Skip 1, Append [4], Peek8, Skip 9] b) = [0, 258, 0, 0, 2] \<and>
     snd (run_ops (cb_do (\<lambda>_. 9)) [Append [1, 2, 3], Peek16, Skip 1, Append [4], Peek8, Skip 9] b) = Inl AssertionFailed"
proof -
  let ?ops = "[Append [1, 2, 3], Peek16, Skip 1, Append [4], Peek8, Skip 9]"
  have spec: "run_ops bs_do ?ops bs_empty = ([0, 258, 0, 0, 2], Inl AssertionFailed)"
    by (simp add: bs_do_def bs_empty_def bs_front_def bs_drop_def be_word_def)
  have "permitted (bs_may 20) bs_do ?ops bs_empty"
    by (simp add: bs_do_def bs_empty_def bs_front_def bs_drop_def bs_may_def padding_def)
  with ring_refines_queue [of 20 ?ops "\<lambda>_. 9"] obtain b
    where b: "circulation_buffer_new 20 = Inr b"
      "observed (run_ops (cb_do (\<lambda>_. 9)) ?ops b) = ([0, 258, 0, 0, 2], Some AssertionFailed)"
    unfolding spec by (auto simp: padding_def observed_def)
  then show ?thesis
    by (intro exI [of _ b]) (auto simp: observed_def simp del: run_ops.simps split: sum.splits)
qed

end
