(* ===== verification/Buffer_Test.thy ===== *)
theory Buffer_Test
  imports Circulation_Buffer
begin

text \<open>
  The test program \<^verbatim>\<open>test/buffer/buffer.ts.cpp\<close>, run on the ring: a buffer of twenty bytes that is
  filled, read across its end and wrapped twice.  Characters are their ASCII codes.
\<close>

definition digits :: "u8 list" where
  "digits = [49, 50, 51, 52, 53, 54, 55, 56, 57, 48]"

definition digits_down :: "u8 list" where
  "digits_down = [52, 51, 50, 49]"

definition test_tm :: "u8 list" where
  "test_tm = [53, 54, 55, 56, 57, 48, 52, 51]"

definition buffer_test :: "(nat \<Rightarrow> u8) \<Rightarrow> cxx_error + u8 \<times> circulation_buffer" where
  "buffer_test fresh =
     and_then (circulation_buffer_new 20) (\<lambda>buff.
     and_then (cb_append fresh buff digits 10) (\<lambda>buff.
     and_then (cb_peek buff :: cxx_error + u8) (\<lambda>c.
     and_then (cb_peek buff :: cxx_error + u64) (\<lambda>c1.
     and_then (assert_that (c1 = network2host (le_word (take 8 digits)))) (\<lambda>_.
     and_then (cb_skip buff 8) (\<lambda>buff.
     and_then (cb_peek buff :: cxx_error + u16) (\<lambda>c2.
     and_then (assert_that (c2 = network2host (le_word (drop 8 digits)))) (\<lambda>_.
     and_then (cb_append fresh buff digits 10) (\<lambda>buff.
     and_then (cb_append fresh buff digits_down 4) (\<lambda>buff.
     and_then (cb_skip buff 6) (\<lambda>buff.
     and_then (cb_peek buff :: cxx_error + u64) (\<lambda>c3.
     and_then (assert_that (c3 = network2host (le_word test_tm))) (\<lambda>_.
     and_then (cb_append fresh buff digits_down 4) (\<lambda>buff.
     and_then (cb_skip buff 10) (\<lambda>buff.
       Inr (c, buff))))))))))))))))"

text \<open>The test passes: no assertion fails and no access is out of bounds, whatever the allocator
  leaves in fresh memory, since the buffer never has to grow.\<close>

theorem buffer_test_passes:
  "\<exists>b. buffer_test fresh = Inr (49, b) \<and> cb_data b = digits_down"
proof -
  let ?b = "\<lambda>m r w. \<lparr>buf = Some m, length_ix = 20, readindex = r, writeindex = w\<rparr>"
  let ?m0 = "[0, 0, 0, 0, 0, 0, 0, 0, 0, 0, 0, 0, 0, 0, 0, 0, 0, 0, 0, 0] :: u8 list"
    and ?m1 = "[0, 0, 0, 0, 49, 50, 51, 52, 53, 54, 55, 56, 57, 48, 0, 0, 0, 0, 0, 0] :: u8 list"
    and ?m2 = "[55, 56, 57, 48, 49, 50, 51, 52, 53, 54, 55, 56, 57, 48, 49, 50, 51, 52, 53, 54] :: u8 list"
    and ?m3 = "[55, 56, 57, 48, 52, 51, 50, 49, 53, 54, 55, 56, 57, 48, 49, 50, 51, 52, 53, 54] :: u8 list"
    and ?m4 = "[55, 56, 57, 48, 52, 51, 50, 49, 52, 51, 50, 49, 57, 48, 49, 50, 51, 52, 53, 54] :: u8 list"
  have "map (\<lambda>_. 0) [0..<20] = ?m0" by code_simp
  then have new: "circulation_buffer_new 20 = Inr (?b ?m0 4 4)"
    by (simp add: circulation_buffer_new_def new_array_def padding_def)
  have a1: "cb_append fresh (?b ?m0 4 4) digits 10 = Inr (?b ?m1 4 14)" by (simp add: cb_eval digits_def)
  have s1: "cb_skip (?b ?m1 4 14) 8 = Inr (?b ?m1 12 14)" by (simp add: cb_eval)
  have a2: "cb_append fresh (?b ?m1 12 14) digits 10 = Inr (?b ?m2 12 4)" by (simp add: cb_eval digits_def)
  have a3: "cb_append fresh (?b ?m2 12 4) digits_down 4 = Inr (?b ?m3 12 8)" by (simp add: cb_eval digits_down_def)
  have s2: "cb_skip (?b ?m3 12 8) 6 = Inr (?b ?m3 18 8)" by (simp add: cb_eval)
  have a4: "cb_append fresh (?b ?m3 18 8) digits_down 4 = Inr (?b ?m4 18 12)" by (simp add: cb_eval digits_down_def)
  have s3: "cb_skip (?b ?m4 18 12) 10 = Inr (?b ?m4 8 12)" by (simp add: cb_eval)
  have valid: "cb_valid (?b ?m1 4 14)" "cb_valid (?b ?m1 12 14)" "cb_valid (?b ?m3 18 8)"
    by (simp_all add: cb_valid_def padding_def)
  have data: "cb_data (?b ?m1 4 14) = digits" "cb_data (?b ?m1 12 14) = drop 8 digits"
      "take 8 (cb_data (?b ?m3 18 8)) = test_tm" "length (cb_data (?b ?m3 18 8)) = 10"
      "cb_data (?b ?m4 8 12) = digits_down"
    by (simp_all add: cb_data_def digits_def digits_down_def test_tm_def)
  have len: "length digits = 10" by (simp add: digits_def)
  have p0: "cb_peek (?b ?m1 4 14) = Inr (49 :: u8)"
    using cb_peek_data [OF valid(1), where 'a = 8 and n = 1] data(1) by (simp add: digits_def be_word_def)
  have p1: "cb_peek (?b ?m1 4 14) = Inr (be_word (take 8 digits) :: u64)"
    by (rule cb_peek_data [OF valid(1), where n = 8, unfolded data(1)]) (simp_all only: octets_u64 len, simp_all)
  have p2: "cb_peek (?b ?m1 12 14) = Inr (be_word (take 2 (drop 8 digits)) :: u16)"
    by (rule cb_peek_data [OF valid(2), where n = 2, unfolded data(2)]) (simp_all only: octets_u8_u16 len length_drop, simp_all)
  have p3: "cb_peek (?b ?m3 18 8) = Inr (be_word test_tm :: u64)"
    by (rule cb_peek_data [OF valid(3), where n = 8, unfolded data(3)]) (simp_all only: octets_u64 data(4), simp_all)
  have asserts: "network2host (le_word (take 8 digits) :: u64) = be_word (take 8 digits)"
      "network2host (le_word (drop 8 digits) :: u16) = be_word (drop 8 digits)"
      "network2host (le_word test_tm :: u64) = be_word test_tm"
    by (rule network2host_le_word; simp add: len; simp add: test_tm_def)+
  show ?thesis using data(5)
    by (simp add: buffer_test_def new a1 s1 a2 a3 s2 a4 s3 p0 p1 p2 p3 asserts len)
qed

end
