(* ===== verification/Heap.thy ===== *)
theory Heap
  imports Prelude
begin

text \<open>
  The heap of the classes that own raw memory (\<^verbatim>\<open>Bar\<close>, \<^verbatim>\<open>SsoString\<close>): a map
  from addresses to blocks.  \<^verbatim>\<open>malloc\<close> never reuses an address, so that an access
  through a dangling pointer and a second \<^verbatim>\<open>free\<close> show up as failures.  What a new
  block holds is an argument (\<open>fresh\<close>).  A null pointer is \<open>None\<close>.
\<close>

type_synonym pointer = "nat option"

record heap =
  next_addr :: nat
  blocks :: "nat \<rightharpoonup> u8 list"

named_theorems heap_simps \<open>heap operations on a pointer to an allocated block\<close>

definition malloc :: "(nat \<Rightarrow> u8) \<Rightarrow> nat \<Rightarrow> heap \<Rightarrow> pointer \<times> heap" where
  "malloc fresh n h =
     (if n < 2 ^ 63
      then (Some (next_addr h),
            h\<lparr>next_addr := next_addr h + 1,
              blocks := (blocks h)(next_addr h \<mapsto> map fresh [0..<n])\<rparr>)
      else (None, h))"

definition block_of :: "pointer \<Rightarrow> heap \<Rightarrow> cxx_error + nat \<times> u8 list" where
  "block_of p h =
     (case p of None \<Rightarrow> Inl NullDereference
      | Some a \<Rightarrow> (case blocks h a of None \<Rightarrow> Inl UseAfterFree | Some m \<Rightarrow> Inr (a, m)))"

definition heap_read :: "pointer \<Rightarrow> nat \<Rightarrow> nat \<Rightarrow> heap \<Rightarrow> cxx_error + u8 list" where
  "heap_read p off n h = and_then (block_of p h) (\<lambda>(a, m). read_n m off n)"

definition heap_write :: "pointer \<Rightarrow> nat \<Rightarrow> u8 list \<Rightarrow> heap \<Rightarrow> cxx_error + heap" where
  "heap_write p off xs h =
     and_then (block_of p h) (\<lambda>(a, m).
     and_then (write_n m off xs) (\<lambda>m'.
     Inr (h\<lparr>blocks := (blocks h)(a \<mapsto> m')\<rparr>)))"

definition heap_free :: "pointer \<Rightarrow> heap \<Rightarrow> cxx_error + heap" where
  "heap_free p h =
     (case p of None \<Rightarrow> Inr h
      | Some a \<Rightarrow> (case blocks h a of None \<Rightarrow> Inl InvalidFree
                  | Some m \<Rightarrow> Inr (h\<lparr>blocks := (blocks h)(a := None)\<rparr>)))"

text \<open>\<^verbatim>\<open>strlen\<close> on the memory a \<^verbatim>\<open>const char*\<close> points to.\<close>

definition c_strlen :: "u8 list \<Rightarrow> cxx_error + nat" where
  "c_strlen m = (if 0 \<in> set m then Inr (length (takeWhile (\<lambda>c. c \<noteq> 0) m)) else Inl OutOfBounds)"

text \<open>Addresses beyond the allocation counter are unused.\<close>

definition heap_ok :: "heap \<Rightarrow> bool" where
  "heap_ok h \<longleftrightarrow> (\<forall>a \<ge> next_addr h. blocks h a = None)"

lemma malloc_ok [heap_simps]:
  "n < 2 ^ 63 \<Longrightarrow>
     malloc fresh n h =
       (Some (next_addr h),
        h\<lparr>next_addr := next_addr h + 1, blocks := (blocks h)(next_addr h \<mapsto> map fresh [0..<n])\<rparr>)"
  by (simp add: malloc_def)

lemma heap_read_block [heap_simps]:
  "blocks h a = Some m \<Longrightarrow> heap_read (Some a) off n h = read_n m off n"
  "blocks h a = None \<Longrightarrow> heap_read (Some a) off n h = Inl UseAfterFree"
  by (simp_all add: heap_read_def block_of_def)

lemma heap_write_block [heap_simps]:
  "blocks h a = Some m \<Longrightarrow> off + length xs \<le> length m \<Longrightarrow>
     heap_write (Some a) off xs h =
       Inr (h\<lparr>blocks := (blocks h)(a \<mapsto> take off m @ xs @ drop (off + length xs) m)\<rparr>)"
  "blocks h a = Some m \<Longrightarrow> length m < off + length xs \<Longrightarrow>
     heap_write (Some a) off xs h = Inl OutOfBounds"
  "blocks h a = None \<Longrightarrow> heap_write (Some a) off xs h = Inl UseAfterFree"
  by (simp_all add: heap_write_def block_of_def mem_simps)

lemma heap_free_block [heap_simps]:
  "blocks h a = Some m \<Longrightarrow> heap_free (Some a) h = Inr (h\<lparr>blocks := (blocks h)(a := None)\<rparr>)"
  "blocks h a = None \<Longrightarrow> heap_free (Some a) h = Inl InvalidFree"
  "heap_free None h = Inr h"
  by (simp_all add: heap_free_def)

lemma heap_ok_next: "heap_ok h \<Longrightarrow> blocks h (next_addr h) = None"
  by (simp add: heap_ok_def)

lemma heap_ok_allocated: "heap_ok h \<Longrightarrow> blocks h a = Some m \<Longrightarrow> a < next_addr h"
  by (metis heap_ok_def linorder_not_less option.distinct(1))

lemma malloc_keeps_ok: "heap_ok h \<Longrightarrow> malloc fresh n h = (p, h') \<Longrightarrow> heap_ok h'"
  by (auto simp: malloc_def heap_ok_def split: if_splits)

lemma heap_write_keeps_ok: "heap_ok h \<Longrightarrow> heap_write p off xs h = Inr h' \<Longrightarrow> heap_ok h'"
  by (auto simp: heap_write_def block_of_def heap_ok_def and_then_Inr_iff split: option.splits)

lemma heap_free_keeps_ok: "heap_ok h \<Longrightarrow> heap_free p h = Inr h' \<Longrightarrow> heap_ok h'"
  by (auto simp: heap_free_def heap_ok_def split: option.splits)

lemma c_strlen_string:
  "0 \<notin> set xs \<Longrightarrow> c_strlen (xs @ 0 # rest) = Inr (length xs)"
  by (simp add: c_strlen_def takeWhile_append)

end
