(* ===== verification/Str_Bar.thy ===== *)
theory Str_Bar
  imports Heap Endian
begin

text \<open>
  The string classes of \<^verbatim>\<open>set/str\<close>: \<^verbatim>\<open>Bar\<close>, a growable character array over
  \<^verbatim>\<open>malloc\<close>, and \<^verbatim>\<open>SsoString\<close>, a string whose short contents live inside the
  object.  A \<^verbatim>\<open>Bar\<close> is the record of its three members and the operations pass the
  heap along, so that sharing of a block between two objects is visible.
\<close>

section \<open>Bar\<close>

record bar =
  bar_data :: pointer
  bar_capacity :: nat
  bar_len :: nat

definition bar_of_bytes :: "(nat \<Rightarrow> u8) \<Rightarrow> u8 list \<Rightarrow> nat \<Rightarrow> heap \<Rightarrow> cxx_error + bar \<times> heap" where
  "bar_of_bytes fresh str n h =
     (let (p, h1) = malloc fresh n h in
      and_then (read_n str 0 n) (\<lambda>xs.
      and_then (heap_write p 0 xs h1) (\<lambda>h2.
      Inr (\<lparr>bar_data = p, bar_capacity = n, bar_len = n\<rparr>, h2))))"

definition bar_of_cstring :: "(nat \<Rightarrow> u8) \<Rightarrow> u8 list \<Rightarrow> heap \<Rightarrow> cxx_error + bar \<times> heap" where
  "bar_of_cstring fresh str h = and_then (c_strlen str) (\<lambda>n. bar_of_bytes fresh str n h)"

definition bar_with_capacity :: "(nat \<Rightarrow> u8) \<Rightarrow> nat \<Rightarrow> heap \<Rightarrow> bar \<times> heap" where
  "bar_with_capacity fresh n h =
     (let (p, h1) = malloc fresh n h in (\<lparr>bar_data = p, bar_capacity = n, bar_len = 0\<rparr>, h1))"

definition bar_copy :: "(nat \<Rightarrow> u8) \<Rightarrow> bar \<Rightarrow> heap \<Rightarrow> cxx_error + bar \<times> heap" where
  "bar_copy fresh other h =
     and_then (heap_read (bar_data other) 0 (bar_len other) h) (\<lambda>xs.
       bar_of_bytes fresh xs (bar_len other) h)"

text \<open>The move constructor copies the three members and leaves the source as it is.\<close>

definition bar_move :: "bar \<Rightarrow> bar" where
  "bar_move other =
     \<lparr>bar_data = bar_data other, bar_capacity = bar_capacity other, bar_len = bar_len other\<rparr>"

definition bar_destroy :: "bar \<Rightarrow> heap \<Rightarrow> cxx_error + bar \<times> heap" where
  "bar_destroy b h =
     (if bar_data b = None
      then Inr (b\<lparr>bar_capacity := 0, bar_len := 0\<rparr>, h)
      else and_then (heap_free (bar_data b) h) (\<lambda>h1.
        Inr (b\<lparr>bar_data := None, bar_capacity := 0, bar_len := 0\<rparr>, h1)))"

definition bar_grown :: "(nat \<Rightarrow> u8) \<Rightarrow> nat \<Rightarrow> pointer \<Rightarrow> nat \<Rightarrow> heap \<Rightarrow> cxx_error + bar \<times> heap" where
  "bar_grown fresh cap str n h =
     (let (b, h1) = bar_with_capacity fresh cap h in
      and_then (heap_read str 0 n h1) (\<lambda>xs.
      and_then (heap_write (bar_data b) 0 xs h1) (\<lambda>h2.
      Inr (b\<lparr>bar_len := n\<rparr>, h2))))"

text \<open>
  \<^verbatim>\<open>copy_swap\<close> takes its argument by value: \<open>other\<close> is the parameter, already
  constructed.  \<^verbatim>\<open>this\<close> takes over the members, the parameter is nulled and its
  destructor runs when the call returns.
\<close>

definition bar_copy_swap :: "bar \<Rightarrow> bar \<Rightarrow> heap \<Rightarrow> cxx_error + bar \<times> heap" where
  "bar_copy_swap this other h =
     (let this' = this\<lparr>bar_data := bar_data other, bar_len := bar_len other,
                       bar_capacity := bar_capacity other\<rparr>;
          other' = other\<lparr>bar_data := None, bar_len := 0, bar_capacity := 0\<rparr>
      in and_then (bar_destroy other' h) (\<lambda>(_, h1). Inr (this', h1)))"

definition bar_assign :: "(nat \<Rightarrow> u8) \<Rightarrow> bar \<Rightarrow> bar \<Rightarrow> heap \<Rightarrow> cxx_error + bar \<times> heap" where
  "bar_assign fresh this other h =
     and_then (bar_copy fresh other h) (\<lambda>(par, h1). bar_copy_swap this par h1)"

text \<open>
  \<^verbatim>\<open>this->copy_swap(std::move(Bar(cap, data_, len_)))\<close>: a temporary is built, the
  parameter is move constructed from it, and the temporary is destroyed at the end of the full
  expression.
\<close>

definition bar_regrow :: "(nat \<Rightarrow> u8) \<Rightarrow> nat \<Rightarrow> bar \<Rightarrow> heap \<Rightarrow> cxx_error + bar \<times> heap" where
  "bar_regrow fresh cap b h =
     and_then (bar_grown fresh cap (bar_data b) (bar_len b) h) (\<lambda>(tmp, h1).
     and_then (bar_copy_swap b (bar_move tmp) h1) (\<lambda>(b1, h2).
     and_then (bar_destroy tmp h2) (\<lambda>(_, h3).
     Inr (b1, h3))))"

definition bar_append_char :: "(nat \<Rightarrow> u8) \<Rightarrow> u8 \<Rightarrow> bar \<Rightarrow> heap \<Rightarrow> cxx_error + bar \<times> heap" where
  "bar_append_char fresh c b h =
     and_then
       (if bar_len b = bar_capacity b then bar_regrow fresh (size_mul (bar_capacity b) 2) b h
        else Inr (b, h)) (\<lambda>(b1, h1).
     let b2 = b1\<lparr>bar_len := size_add (bar_len b1) 1\<rparr> in
     and_then (heap_write (bar_data b2) (bar_len b2) [c] h1) (\<lambda>h2. Inr (b2, h2)))"

definition bar_append_bytes :: "(nat \<Rightarrow> u8) \<Rightarrow> u8 list \<Rightarrow> nat \<Rightarrow> bar \<Rightarrow> heap \<Rightarrow> cxx_error + bar \<times> heap" where
  "bar_append_bytes fresh str n b h =
     and_then
       (if bar_capacity b < size_add (bar_len b) n
        then bar_regrow fresh (size_add (size_mul (bar_capacity b) 2) n) b h
        else Inr (b, h)) (\<lambda>(b1, h1).
     and_then (read_n str 0 n) (\<lambda>xs.
     and_then (heap_write (bar_data b1) (bar_len b1) xs h1) (\<lambda>h2. Inr (b1, h2))))"

definition bar_append_cstring :: "(nat \<Rightarrow> u8) \<Rightarrow> u8 list \<Rightarrow> bar \<Rightarrow> heap \<Rightarrow> cxx_error + bar \<times> heap" where
  "bar_append_cstring fresh str b h =
     and_then (c_strlen str) (\<lambda>n. bar_append_bytes fresh str n b h)"

definition bar_append_bar :: "(nat \<Rightarrow> u8) \<Rightarrow> bar \<Rightarrow> bar \<Rightarrow> heap \<Rightarrow> cxx_error + bar \<times> heap" where
  "bar_append_bar fresh other b h =
     and_then (heap_read (bar_data other) 0 (bar_len other) h) (\<lambda>xs.
       bar_append_bytes fresh xs (bar_len other) b h)"

definition bar_append_string :: "(nat \<Rightarrow> u8) \<Rightarrow> u8 list \<Rightarrow> bar \<Rightarrow> heap \<Rightarrow> cxx_error + bar \<times> heap" where
  "bar_append_string fresh other b h = bar_append_bytes fresh (other @ [0]) (length other) b h"

text \<open>A bar that owns a live block of its capacity, and the characters it counts as its own.\<close>

definition bar_wf :: "bar \<Rightarrow> heap \<Rightarrow> bool" where
  "bar_wf b h \<longleftrightarrow>
     (case bar_data b of None \<Rightarrow> False
      | Some a \<Rightarrow> (case blocks h a of None \<Rightarrow> False
                  | Some m \<Rightarrow> length m = bar_capacity b \<and> bar_len b \<le> bar_capacity b)) \<and>
     bar_capacity b < 2 ^ 61 \<and> heap_ok h"

definition bar_text :: "bar \<Rightarrow> heap \<Rightarrow> cxx_error + u8 list" where
  "bar_text b h = heap_read (bar_data b) 0 (bar_len b) h"

section \<open>SsoString\<close>

text \<open>\<^verbatim>\<open>sizeof(void*) == 8 ? 19 : 15\<close>, for pointers of \<open>ptr\<close> bytes; the rest of the theory is about 8.\<close>

definition cache_len_for :: "nat \<Rightarrow> nat" where
  "cache_len_for ptr = (if ptr = 8 then 19 else 15)"

definition locl_cache_len :: nat where "locl_cache_len = 19"

text \<open>
  The layout rules for a \<^verbatim>\<open>struct\<close>: members in order, each at the next multiple of its alignment,
  the size rounded up to the strictest of them.  A member is its size and alignment.
\<close>

definition align_up :: "nat \<Rightarrow> nat \<Rightarrow> nat" where
  "align_up n a = (n + a - 1) div a * a"

fun struct_end :: "nat \<Rightarrow> (nat \<times> nat) list \<Rightarrow> nat" where
  "struct_end off [] = off"
| "struct_end off ((sz, al) # ms) = struct_end (align_up off al + sz) ms"

definition struct_align :: "(nat \<times> nat) list \<Rightarrow> nat" where
  "struct_align ms = foldr max (map snd ms) 1"

definition struct_size :: "(nat \<times> nat) list \<Rightarrow> nat" where
  "struct_size ms = align_up (struct_end 0 ms) (struct_align ms)"

text \<open>\<^verbatim>\<open>context\<close>: a pointer, the length, and the union of a \<^verbatim>\<open>uint32_t\<close> with the cache.\<close>

definition context_members :: "nat \<Rightarrow> (nat \<times> nat) list" where
  "context_members ptr = [(ptr, ptr), (4, 4), (align_up (max 4 (cache_len_for ptr + 1)) 4, 4)]"

text \<open>\<^verbatim>\<open>sso_str_\<close>: an array of \<^verbatim>\<open>uint8_t\<close> that its constructor makes a \<^verbatim>\<open>context\<close> in.\<close>

definition sso_str_members :: "nat \<Rightarrow> (nat \<times> nat) list" where
  "sso_str_members ptr = [(struct_size (context_members ptr), 1)]"

text \<open>
  The size asserted by the source holds for pointers of eight bytes and fails for four.  The array
  has the size of a \<^verbatim>\<open>context\<close> but not its alignment, so where it may lie a \<^verbatim>\<open>context\<close> may not.
\<close>

lemma sso_layout:
  "struct_size (context_members 8) = 32" "struct_size (context_members 4) = 24"
  "cache_len_for 8 = locl_cache_len"
  "struct_size (sso_str_members 8) = struct_size (context_members 8)"
  "struct_align (context_members 8) = 8" "struct_align (sso_str_members 8) = 1"
  by (simp_all add: struct_size_def struct_align_def context_members_def sso_str_members_def align_up_def
      cache_len_for_def locl_cache_len_def)

text \<open>
  \<^verbatim>\<open>struct context\<close>: the union of the capacity and the inline cache is the list of its
  twenty bytes; the capacity is its first four, in the byte order of the host.
\<close>

record context_t =
  ctx_data :: pointer
  ctx_len :: u32
  ctx_inner :: "u8 list"

definition ctx_set_capacity :: "u32 \<Rightarrow> context_t \<Rightarrow> context_t" where
  "ctx_set_capacity n c = c\<lparr>ctx_inner := le_bytes 4 n @ drop 4 (ctx_inner c)\<rparr>"

text \<open>
  The constructor works on an object whose members are indeterminate (\<open>c0\<close>):
  \<^verbatim>\<open>context() = default\<close> initialises nothing.  \<open>str\<close> is the memory the argument
  points to.
\<close>

definition sso_new :: "(nat \<Rightarrow> u8) \<Rightarrow> u8 list \<Rightarrow> nat \<Rightarrow> context_t \<Rightarrow> heap \<Rightarrow> cxx_error + context_t \<times> heap" where
  "sso_new fresh str n c0 h =
     and_then (c_strlen str) (\<lambda>k.
     and_then (assert_that (k = n)) (\<lambda>_.
     if n \<le> locl_cache_len
     then and_then (write_n (ctx_inner c0) 0 (take n str @ [0])) (\<lambda>m1.
          and_then (write_n m1 (n + 1) [0]) (\<lambda>m2.
          Inr (c0\<lparr>ctx_inner := m2\<rparr>, h)))
     else let (p, h1) = malloc fresh n h in
          Inr (ctx_set_capacity (of_nat n) (c0\<lparr>ctx_data := p, ctx_len := of_nat n\<rparr>), h1)))"

definition sso_of_cstring :: "(nat \<Rightarrow> u8) \<Rightarrow> u8 list \<Rightarrow> context_t \<Rightarrow> heap \<Rightarrow> cxx_error + context_t \<times> heap" where
  "sso_of_cstring fresh str c0 h = and_then (c_strlen str) (\<lambda>n. sso_new fresh str n c0 h)"

section \<open>Lemmas\<close>

lemma bar_wfE:
  assumes "bar_wf b h"
  obtains a m where "bar_data b = Some a" "blocks h a = Some m" "length m = bar_capacity b"
    "bar_len b \<le> bar_capacity b" "bar_capacity b < 2 ^ 61" "heap_ok h" "a < next_addr h"
  using assms that by (auto simp: bar_wf_def heap_ok_allocated split: option.splits)

lemma bar_wf_data:
  "bar_data b = Some a \<Longrightarrow>
     bar_wf b h \<longleftrightarrow> (\<exists>m. blocks h a = Some m \<and> length m = bar_capacity b) \<and>
       bar_len b \<le> bar_capacity b \<and> bar_capacity b < 2 ^ 61 \<and> heap_ok h"
  by (auto simp: bar_wf_def split: option.splits)

lemma bar_text_data:
  "bar_data b = Some a \<Longrightarrow> blocks h a = Some m \<Longrightarrow> bar_len b \<le> length m \<Longrightarrow>
     bar_text b h = Inr (take (bar_len b) m)"
  by (simp add: bar_text_def heap_simps mem_simps)

lemmas bar_facts = bar_text_data heap_simps mem_simps

lemma bar_of_bytes_ok:
  assumes "n \<le> length str" and "n < 2 ^ 61"
  shows "bar_of_bytes fresh str n h =
    Inr (\<lparr>bar_data = Some (next_addr h), bar_capacity = n, bar_len = n\<rparr>,
         h\<lparr>next_addr := next_addr h + 1, blocks := (blocks h)(next_addr h \<mapsto> take n str)\<rparr>)"
  using assms by (simp add: bar_of_bytes_def heap_simps mem_simps)

lemma bar_grown_ok:
  assumes "bar_data b = Some a" "blocks h a = Some m" "a < next_addr h"
    and "bar_len b \<le> length m" "bar_len b \<le> cap" "cap < 2 ^ 63"
  shows "bar_grown fresh cap (bar_data b) (bar_len b) h =
    Inr (\<lparr>bar_data = Some (next_addr h), bar_capacity = cap, bar_len = bar_len b\<rparr>,
         h\<lparr>next_addr := next_addr h + 1,
           blocks := (blocks h)(next_addr h \<mapsto>
             take (bar_len b) m @ drop (bar_len b) (map fresh [0..<cap]))\<rparr>)"
  using assms by (simp add: bar_grown_def bar_with_capacity_def heap_simps mem_simps)

text \<open>
  Growing hands the new block to \<^verbatim>\<open>this\<close> and then frees it with the temporary: the
  result points to a dead block.
\<close>

lemma bar_regrow_dangles:
  assumes "bar_wf b h" and "bar_len b \<le> cap" and "cap < 2 ^ 63"
  shows "\<exists>b' h'. bar_regrow fresh cap b h = Inr (b', h') \<and> bar_data b' = Some (next_addr h) \<and>
           bar_len b' = bar_len b \<and> blocks h' (next_addr h) = None"
proof -
  obtain a m where "bar_data b = Some a" "blocks h a = Some m" "a < next_addr h"
    "bar_len b \<le> length m" using assms(1) by (auto elim: bar_wfE)
  from bar_grown_ok [OF this assms(2,3)] show ?thesis
    by (simp add: bar_regrow_def bar_copy_swap_def bar_move_def bar_destroy_def heap_simps)
qed

text \<open>A copy of a \<^verbatim>\<open>Bar\<close> holds the same text in a block of its own: both objects stay
  well formed, and destroying either one leaves the text of the other untouched.\<close>

theorem bar_copy_independent:
  assumes "bar_wf b h" and "bar_text b h = Inr xs"
  shows "\<exists>b' h'. bar_copy fresh b h = Inr (b', h') \<and> bar_wf b' h' \<and> bar_wf b h' \<and>
           bar_text b' h' = Inr xs \<and> bar_text b h' = Inr xs \<and>
           (\<exists>d h1. bar_destroy b h' = Inr (d, h1) \<and> bar_text b' h1 = Inr xs) \<and>
           (\<exists>d h2. bar_destroy b' h' = Inr (d, h2) \<and> bar_text b h2 = Inr xs)"
proof -
  obtain a m where b: "bar_data b = Some a" "blocks h a = Some m" "length m = bar_capacity b"
    "bar_len b \<le> bar_capacity b" "bar_capacity b < 2 ^ 61" "heap_ok h" "a < next_addr h"
    using assms(1) by (rule bar_wfE)
  have xs: "xs = take (bar_len b) m" using assms(2) b by (simp add: bar_facts)
  let ?h' = "h\<lparr>next_addr := next_addr h + 1, blocks := (blocks h)(next_addr h \<mapsto> xs)\<rparr>"
  let ?b' = "\<lparr>bar_data = Some (next_addr h), bar_capacity = bar_len b, bar_len = bar_len b\<rparr>"
  have "bar_copy fresh b h = Inr (?b', ?h')"
    using b by (simp add: bar_copy_def bar_facts bar_of_bytes_ok xs)
  moreover have "bar_wf ?b' ?h'" "bar_wf b ?h'"
    using b by (simp_all add: bar_wf_data xs) (auto simp: heap_ok_def)
  moreover have "bar_text ?b' ?h' = Inr xs" "bar_text b ?h' = Inr xs"
    using b by (simp_all add: bar_facts xs)
  moreover have "\<exists>d h1. bar_destroy b ?h' = Inr (d, h1) \<and> bar_text ?b' h1 = Inr xs"
    "\<exists>d h2. bar_destroy ?b' ?h' = Inr (d, h2) \<and> bar_text b h2 = Inr xs"
    using b by (simp_all add: bar_destroy_def bar_facts xs)
  ultimately show ?thesis by blast
qed

text \<open>C40: An append that has to grow the \<^verbatim>\<open>Bar\<close> writes to freed memory: the new block is
  shared by the moved-from temporary, whose destructor frees it before the character (or the
  bytes) is written.\<close>

theorem bar_growth_use_after_free:
  assumes "bar_wf b h"
  shows "(bar_len b = bar_capacity b \<longrightarrow> bar_append_char fresh c b h = Inl UseAfterFree) \<and>
         (n \<le> length str \<and> n < 2 ^ 61 \<and> bar_capacity b < bar_len b + n \<longrightarrow>
            bar_append_bytes fresh str n b h = Inl UseAfterFree)"
proof (intro conjI impI)
  have cap: "bar_capacity b < 2 ^ 61" "bar_len b \<le> bar_capacity b"
    using assms by (auto elim: bar_wfE)
  show "bar_append_char fresh c b h = Inl UseAfterFree" if "bar_len b = bar_capacity b"
  proof -
    obtain b' h' where "bar_regrow fresh (bar_capacity b * 2) b h = Inr (b', h')"
      "bar_data b' = Some (next_addr h)" "blocks h' (next_addr h) = None"
      using bar_regrow_dangles [OF assms, of "bar_capacity b * 2" fresh] cap by auto
    then show ?thesis using that cap by (simp add: bar_append_char_def size_simps heap_simps)
  qed
  show "bar_append_bytes fresh str n b h = Inl UseAfterFree"
    if n: "n \<le> length str \<and> n < 2 ^ 61 \<and> bar_capacity b < bar_len b + n"
  proof -
    obtain b' h' where "bar_regrow fresh (bar_capacity b * 2 + n) b h = Inr (b', h')"
      "bar_data b' = Some (next_addr h)" "blocks h' (next_addr h) = None"
      using bar_regrow_dangles [OF assms, of "bar_capacity b * 2 + n" fresh] cap n by auto
    then show ?thesis
      using n cap by (simp add: bar_append_bytes_def size_simps heap_simps mem_simps)
  qed
qed

text \<open>An append that fits does not extend the text by what was appended.  A character goes
  to the cell after the next one (and past the block when one cell is free), so the text gains
  the stale cell in between; bytes go to the right place but the length is not updated, so the
  text stays what it was and the next append overwrites them.\<close>

theorem bar_append_in_room:
  assumes "bar_wf b h" and "bar_data b = Some a" and "blocks h a = Some m"
  shows "(bar_len b + 1 < bar_capacity b \<longrightarrow>
            (\<exists>h'. bar_append_char fresh c b h = Inr (b\<lparr>bar_len := bar_len b + 1\<rparr>, h') \<and>
                  bar_text (b\<lparr>bar_len := bar_len b + 1\<rparr>) h' = Inr (take (bar_len b) m @ [m ! bar_len b]) \<and>
                  heap_read (bar_data b) (bar_len b + 1) 1 h' = Inr [c])) \<and>
         (bar_len b + 1 = bar_capacity b \<longrightarrow> bar_append_char fresh c b h = Inl OutOfBounds) \<and>
         (bar_len b + length xs \<le> bar_capacity b \<longrightarrow>
            (\<exists>h'. bar_append_bytes fresh xs (length xs) b h = Inr (b, h') \<and>
                  bar_text b h' = bar_text b h \<and>
                  heap_read (bar_data b) (bar_len b) (length xs) h' = Inr xs))"
proof (intro conjI impI)
  have b: "length m = bar_capacity b" "bar_len b \<le> bar_capacity b" "bar_capacity b < 2 ^ 61"
    using assms by (auto elim: bar_wfE)
  show "\<exists>h'. bar_append_char fresh c b h = Inr (b\<lparr>bar_len := bar_len b + 1\<rparr>, h') \<and>
      bar_text (b\<lparr>bar_len := bar_len b + 1\<rparr>) h' = Inr (take (bar_len b) m @ [m ! bar_len b]) \<and>
      heap_read (bar_data b) (bar_len b + 1) 1 h' = Inr [c]" if "bar_len b + 1 < bar_capacity b"
    using that b assms(2,3)
    by (simp add: bar_append_char_def size_simps bar_facts take_Suc_conv_app_nth)
  show "bar_append_char fresh c b h = Inl OutOfBounds" if "bar_len b + 1 = bar_capacity b"
    using that b assms(2,3) by (simp add: bar_append_char_def size_simps bar_facts)
  show "\<exists>h'. bar_append_bytes fresh xs (length xs) b h = Inr (b, h') \<and>
      bar_text b h' = bar_text b h \<and>
      heap_read (bar_data b) (bar_len b) (length xs) h' = Inr xs"
    if "bar_len b + length xs \<le> bar_capacity b"
    using that b assms(2,3) by (simp add: bar_append_bytes_def size_simps bar_facts)
qed

lemma bar_move_double_free:
  assumes "bar_wf b h"
  shows "\<exists>d h'. bar_destroy (bar_move b) h = Inr (d, h') \<and> bar_destroy b h' = Inl InvalidFree"
  using assms by (rule bar_wfE) (simp add: bar_move_def bar_destroy_def heap_simps)

text \<open>A string of up to 18 characters is stored in the object, with its terminator, and
  neither the pointer nor the length is set; 19 characters, the documented inline capacity,
  write one byte behind the cache; longer strings get a block of the right size whose contents
  are never copied.\<close>

theorem sso_string_cases:
  assumes "0 \<notin> set xs" and "length (ctx_inner c0) = 20"
  shows "(length xs < 19 \<longrightarrow>
            sso_of_cstring fresh (xs @ [0]) c0 h =
              Inr (c0\<lparr>ctx_inner := xs @ [0, 0] @ drop (length xs + 2) (ctx_inner c0)\<rparr>, h)) \<and>
         (length xs = 19 \<longrightarrow> sso_of_cstring fresh (xs @ [0]) c0 h = Inl OutOfBounds) \<and>
         (19 < length xs \<and> length xs < 2 ^ 32 \<longrightarrow>
            (\<exists>c h'. sso_of_cstring fresh (xs @ [0]) c0 h = Inr (c, h') \<and>
               unat (ctx_len c) = length xs \<and> ctx_data c = Some (next_addr h) \<and>
               take 4 (ctx_inner c) = le_bytes 4 (ctx_len c) \<and>
               blocks h' (next_addr h) = Some (map fresh [0..<length xs])))"
proof -
  have sl: "c_strlen (xs @ [0]) = Inr (length xs)" using assms(1) by (rule c_strlen_string)
  have len4: "length (le_bytes 4 w) = 4" for w :: u32 by simp
  show ?thesis using assms(2)
    by (auto simp: sso_of_cstring_def sso_new_def sl locl_cache_len_def mem_simps heap_simps
        ctx_set_capacity_def unat_of_nat len4)
qed

lemma bar_copy_independent_witness:
  "\<exists>b' h'. bar_copy (\<lambda>_. 0) \<lparr>bar_data = Some 0, bar_capacity = length [7, 8, 9 :: u8], bar_len = length [7, 8 :: u8]\<rparr>
      \<lparr>next_addr = 1, blocks = [0 \<mapsto> [7, 8, 9]]\<rparr> = Inr (b', h') \<and> bar_text b' h' = Inr [7, 8]"
  using bar_copy_independent [of "\<lparr>bar_data = Some 0, bar_capacity = length [7, 8, 9 :: u8], bar_len = length [7, 8 :: u8]\<rparr>"
      "\<lparr>next_addr = 1, blocks = [0 \<mapsto> [7, 8, 9]]\<rparr>" "[7, 8]" "\<lambda>_. 0"]
  by (auto simp: bar_wf_def bar_facts heap_ok_def)

lemma bar_growth_use_after_free_witness:
  "bar_append_char (\<lambda>_. 0) 5 \<lparr>bar_data = Some 0, bar_capacity = length [7, 8 :: u8], bar_len = length [7, 8 :: u8]\<rparr>
      \<lparr>next_addr = 1, blocks = [0 \<mapsto> [7, 8]]\<rparr> = Inl UseAfterFree"
  using bar_growth_use_after_free [of "\<lparr>bar_data = Some 0, bar_capacity = length [7, 8 :: u8], bar_len = length [7, 8 :: u8]\<rparr>"
      "\<lparr>next_addr = 1, blocks = [0 \<mapsto> [7, 8]]\<rparr>" "\<lambda>_. 0" 5]
  by (simp add: bar_wf_def heap_ok_def)

lemma bar_append_in_room_witness:
  "\<exists>h'. bar_append_char (\<lambda>_. 0) 5 \<lparr>bar_data = Some 0, bar_capacity = length [7, 8, 9 :: u8], bar_len = length [7 :: u8]\<rparr>
      \<lparr>next_addr = 1, blocks = [0 \<mapsto> [7, 8, 9]]\<rparr> =
      Inr (\<lparr>bar_data = Some 0, bar_capacity = length [7, 8, 9 :: u8], bar_len = length [7, 8 :: u8]\<rparr>, h') \<and>
      heap_read (Some 0) (length [7, 8 :: u8]) 1 h' = Inr [5]"
  using bar_append_in_room [of "\<lparr>bar_data = Some 0, bar_capacity = length [7, 8, 9 :: u8], bar_len = length [7 :: u8]\<rparr>"
      "\<lparr>next_addr = 1, blocks = [0 \<mapsto> [7, 8, 9]]\<rparr>" 0 "[7, 8, 9]" "\<lambda>_. 0" 5 "[]"]
  by (auto simp: bar_wf_def heap_ok_def)

lemma sso_string_cases_witness:
  "sso_of_cstring (\<lambda>_. 0) (replicate 19 65 @ [0]) \<lparr>ctx_data = None, ctx_len = 0, ctx_inner = replicate 20 0\<rparr>
     \<lparr>next_addr = 0, blocks = Map.empty\<rparr> = Inl OutOfBounds"
  using sso_string_cases [of "replicate 19 65" "\<lparr>ctx_data = None, ctx_len = 0, ctx_inner = replicate 20 0\<rparr>"
      "\<lambda>_. 0" "\<lparr>next_addr = 0, blocks = Map.empty\<rparr>"]
  by simp

end
