(* ===== verification/Poll_Dispatch.thy ===== *)
theory Poll_Dispatch
  imports Reactor
begin

text \<open>
  \<^verbatim>\<open>Poll::event_handler\<close> of \<^verbatim>\<open>src/set/rtt/Poll.h\<close> when the handler it calls changes the reactor.
  The descriptors it walks over are a copy made before \<^verbatim>\<open>poll\<close>, while the table of sockets is the
  current one: what a handler removes must not be served later in the same walk.
\<close>

text \<open>What a handler may do to the reactor it is called from: remove a socket, update an interest.\<close>

datatype poll_change = Remove_fd int | Update_fd socket

fun apply_change :: "poll_change \<Rightarrow> reactor \<Rightarrow> reactor" where
  "apply_change (Remove_fd fid) r = poll_remove fid r"
| "apply_change (Update_fd s) r = poll_update s r"

fun apply_changes :: "poll_change list \<Rightarrow> reactor \<Rightarrow> reactor" where
  "apply_changes [] r = r"
| "apply_changes (c # cs) r = apply_changes cs (apply_change c r)"

fun dispatch ::
  "(fd_event \<Rightarrow> poll_change list) \<Rightarrow> nat \<Rightarrow> pollfd list \<Rightarrow> reactor \<Rightarrow> cxx_error + fd_event list \<times> reactor" where
  "dispatch handler num [] r = Inr ([], r)"
| "dispatch handler num (f # fs) r =
     (if num = 0 then Inr ([], r)
      else case (if pfd_fd f \<noteq> -1 then r_fdtbs r (pfd_fd f) else None) of
          None \<Rightarrow> dispatch handler num fs r
        | Some ptr \<Rightarrow>
            (case r_objects r ptr of
               None \<Rightarrow> Inl UseAfterFree
             | Some s \<Rightarrow>
                 if responsable s
                 then let e = FdEvent (sock_id s) (has_event (pfd_revents f) POLLIN)
                                (has_event (pfd_revents f) POLLOUT) (has_event (pfd_revents f) POLLERR)
                      in and_then (dispatch handler (num - 1) fs (apply_changes (handler e) r)) (\<lambda>(evs, r').
                           Inr (e # evs, r'))
                 else dispatch handler num fs r))"

text \<open>The handler is set with \<^verbatim>\<open>registerEventFun\<close>; calling it before throws \<^verbatim>\<open>std::bad_function_call\<close>.\<close>

type_synonym event_fun = "(fd_event \<Rightarrow> poll_change list) option"

definition register_event_fun :: "(fd_event \<Rightarrow> poll_change list) \<Rightarrow> event_fun \<Rightarrow> event_fun" where
  "register_event_fun handler f = Some handler"

definition dispatch_registered ::
  "event_fun \<Rightarrow> nat \<Rightarrow> pollfd list \<Rightarrow> reactor \<Rightarrow> cxx_error + fd_event list \<times> reactor" where
  "dispatch_registered f num fds r =
     (case f of
        Some handler \<Rightarrow> dispatch handler num fds r
      | None \<Rightarrow> and_then (event_handler num fds r) (\<lambda>evs. if evs = [] then Inr ([], r) else Inl BadFunctionCall))"

text \<open>\<^verbatim>\<open>run\<close> with such a handler; between the copy and the walk other threads make changes too.\<close>

definition poll_run_with ::
  "(fd_event \<Rightarrow> poll_change list) \<Rightarrow> poll_change list \<Rightarrow> u64 \<Rightarrow> u16 list \<Rightarrow> reactor \<Rightarrow> world \<Rightarrow>
   cxx_error + error_condition \<times> fd_event list \<times> reactor \<times> world" where
  "poll_run_with handler meanwhile ts ready r w =
     (let (a, w1) = invoke (SysPoll (length (r_fds r)) (poll_timeout ts)) w; num = ans_ret a; r1 = apply_changes meanwhile r in
      if num < 0 then Inr (errno_condition w1, [], r1, w1)
      else let (b, w2) = invoke SysGettimeofday w1 in
        if ans_ret b < 0 then Inr (errno_condition w2, [], r1, w2)
        else and_then (dispatch handler (nat num) (fill_revents ready (r_fds r)) r1) (\<lambda>(evs, r2).
               Inr (no_error, evs, r2, w2)))"

fun event_fd :: "fd_event \<Rightarrow> int" where
  "event_fd (FdEvent i rd wr er) = i"

section \<open>Lemmas\<close>

text \<open>Sockets are filed under their own number, and the table refers to live ones.\<close>

definition filed :: "reactor \<Rightarrow> bool" where
  "filed r \<longleftrightarrow> (\<forall>fid ptr. r_fdtbs r fid = Some ptr \<longrightarrow> (\<exists>s. r_objects r ptr = Some s \<and> sock_id s = fid))"

lemma filedD: "filed r \<Longrightarrow> r_fdtbs r fid = Some ptr \<Longrightarrow> \<exists>s. r_objects r ptr = Some s \<and> sock_id s = fid"
  by (simp add: filed_def)

lemma one_change_fields:
  "r_objects (apply_change c r) = r_objects r"
  "r_fdtbs (apply_change c r) fid = (if c = Remove_fd fid then None else r_fdtbs r fid)"
  by (cases c; auto simp: poll_remove_def poll_update_def domIff)+

lemma change_fields:
  "r_objects (apply_changes cs r) = r_objects r"
  "r_fdtbs (apply_changes cs r) fid = (if Remove_fd fid \<in> set cs then None else r_fdtbs r fid)"
  by (induction cs arbitrary: r) (auto simp: one_change_fields simp del: apply_change.simps)

lemma filed_changes: "filed r \<Longrightarrow> filed (apply_changes cs r)"
  by (auto simp: filed_def change_fields split: if_splits)

lemma dispatch_total:
  assumes "filed r"
  shows "\<exists>evs r'. dispatch handler num fs r = Inr (evs, r') \<and> filed r' \<and> length evs \<le> num"
  using assms
proof (induction fs arbitrary: num r)
  case (Cons f fs)
  show ?case
  proof (cases "num = 0 \<or> pfd_fd f = - 1 \<or> r_fdtbs r (pfd_fd f) = None")
    case True
    then show ?thesis using Cons by (auto split: option.splits)
  next
    case False
    then obtain ptr s where s: "r_fdtbs r (pfd_fd f) = Some ptr" "r_objects r ptr = Some s"
      using filedD [OF Cons.prems] by blast
    let ?e = "FdEvent (sock_id s) (has_event (pfd_revents f) POLLIN) (has_event (pfd_revents f) POLLOUT)
      (has_event (pfd_revents f) POLLERR)"
    obtain evs r' where "dispatch handler (num - 1) fs (apply_changes (handler ?e) r) = Inr (evs, r')" "filed r'"
        "length evs \<le> num - 1"
      using Cons.IH [OF filed_changes [OF Cons.prems]] by blast
    then show ?thesis using False s Cons by (auto simp: Let_def)
  qed
qed simp

lemma dispatch_Cons:
  assumes "filed r" and "dispatch handler num (f # fs) r = Inr (e # evs, r')"
  obtains num' r1 fs' where "dispatch handler num' fs' r1 = Inr (evs, r')" and "filed r1"
    and "\<And>fid. r_fdtbs r fid = None \<Longrightarrow> r_fdtbs r1 fid = None" and "r_fdtbs r (event_fd e) \<noteq> None"
    and "\<And>fid. Remove_fd fid \<in> set (handler e) \<Longrightarrow> r_fdtbs r1 fid = None" and "length fs' \<le> length fs"
proof -
  have "\<exists>num' r1 fs'. dispatch handler num' fs' r1 = Inr (evs, r') \<and> filed r1 \<and>
      (\<forall>fid. r_fdtbs r fid = None \<longrightarrow> r_fdtbs r1 fid = None) \<and> r_fdtbs r (event_fd e) \<noteq> None \<and>
      (\<forall>fid. Remove_fd fid \<in> set (handler e) \<longrightarrow> r_fdtbs r1 fid = None) \<and> length fs' \<le> length fs"
    using assms
  proof (induction "f # fs" arbitrary: f fs)
    case (Cons f fs)
    show ?case
    proof (cases "num = 0 \<or> pfd_fd f = - 1 \<or> r_fdtbs r (pfd_fd f) = None")
      case True
      then have skip: "dispatch handler num fs r = Inr (e # evs, r')" using Cons.prems(2) by (auto split: if_splits)
      then obtain g gs where gs: "fs = g # gs" by (cases fs) auto
      from Cons.hyps(1) [OF gs Cons.prems(1)] skip gs show ?thesis by (metis le_SucI length_Cons)
    next
      case False
      then obtain ptr s where s: "r_fdtbs r (pfd_fd f) = Some ptr" "r_objects r ptr = Some s" "sock_id s = pfd_fd f"
        using filedD [OF Cons.prems(1)] by blast
      show ?thesis
      proof (cases "responsable s")
        case True
        then have "dispatch handler (num - 1) fs (apply_changes (handler e) r) = Inr (evs, r')" "event_fd e = pfd_fd f"
          using Cons.prems(2) False s by (auto simp: Let_def and_then_Inr_iff)
        then show ?thesis using filed_changes [OF Cons.prems(1)] s(1)
          by (intro exI [of _ "num - 1"] exI [of _ "apply_changes (handler e) r"] exI [of _ fs]) (simp add: change_fields)
      next
        case no: False
        then have skip: "dispatch handler num fs r = Inr (e # evs, r')" using Cons.prems(2) False s by simp
        then obtain g gs where gs: "fs = g # gs" by (cases fs) auto
        from Cons.hyps(1) [OF gs Cons.prems(1)] skip gs show ?thesis by (metis le_SucI length_Cons)
      qed
    qed
  qed
  then show thesis using that by blast
qed

lemma dispatch_only_filed:
  assumes "filed r" and "dispatch handler num fs r = Inr (evs, r')" and "r_fdtbs r fid = None"
  shows "fid \<notin> event_fd ` set evs"
  using assms
proof (induction evs arbitrary: num fs r)
  case (Cons e evs)
  then obtain f fs' where fs: "fs = f # fs'" by (cases fs) auto
  from dispatch_Cons [OF Cons.prems(1) Cons.prems(2) [unfolded fs]] obtain num' r1 gs
    where r1: "dispatch handler num' gs r1 = Inr (evs, r')" "filed r1" "r_fdtbs r1 fid = None" "r_fdtbs r (event_fd e) \<noteq> None"
    using Cons.prems(3) by metis
  from Cons.IH [OF r1(2,1,3)] r1(4) Cons.prems(3) show ?case by auto
qed simp

lemma dispatch_forgets:
  assumes "filed r" and "dispatch handler num fs r = Inr (pre @ e # post, r')" and "Remove_fd fid \<in> set (handler e)"
  shows "fid \<notin> event_fd ` set post"
  using assms
proof (induction pre arbitrary: num fs r)
  case Nil
  then obtain f fs' where fs: "fs = f # fs'" by (cases fs) auto
  from Nil have "dispatch handler num (f # fs') r = Inr (e # post, r')" by (simp add: fs)
  from dispatch_Cons [OF Nil.prems(1) this] obtain num' r1 gs
    where "dispatch handler num' gs r1 = Inr (post, r')" "filed r1" "r_fdtbs r1 fid = None"
    using Nil.prems(3) by metis
  then show ?case by (metis dispatch_only_filed)
next
  case (Cons p pre)
  then obtain f fs' where fs: "fs = f # fs'" by (cases fs) auto
  from Cons.prems(2) have "dispatch handler num (f # fs') r = Inr (p # pre @ e # post, r')" by (simp add: fs)
  from dispatch_Cons [OF Cons.prems(1) this] obtain num' r1 gs
    where "dispatch handler num' gs r1 = Inr (pre @ e # post, r')" "filed r1" by metis
  then show ?case using Cons.IH Cons.prems(3) by metis
qed

text \<open>A handler that changes nothing: the walk of the sequential model.\<close>

lemma dispatch_alone:
  "dispatch (\<lambda>_. []) num fs r = and_then (event_handler num fs r) (\<lambda>evs. Inr (evs, r))"
proof (induction fs arbitrary: num)
  case (Cons f fs)
  then show ?case
    by (auto simp: and_then_def Let_def split: option.splits sum.splits)
qed simp

text \<open>Without a handler a walk ends exactly when no entry of the table would be served.\<close>

lemma unregistered_dispatch:
  assumes "objects_live r"
  shows "dispatch_registered None num fds r =
    (if num = 0 \<or> filter (watched r) fds = [] then Inr ([], r) else Inl BadFunctionCall)"
  using assms by (simp add: dispatch_registered_def event_handler_take)

section \<open>Properties\<close>

text \<open>
  C29: a round of the reactor with handlers that change it.  While the sockets in the table are
  alive, \<^verbatim>\<open>run\<close> always returns, and it calls the handler at most as often as \<^verbatim>\<open>poll\<close> reported;
  a socket that another thread removed while \<^verbatim>\<open>poll\<close> was waiting is not served, and a socket
  that a handler removes is not served after that, although both are still in the copied list.
  When nothing changes, the calls are those of the plain dispatcher.
\<close>

theorem removed_sockets_not_served:
  assumes "filed r"
  shows "(\<exists>c evs r' w'. poll_run_with handler meanwhile ts ready r w = Inr (c, evs, r', w') \<and> filed r' \<and>
       length evs \<le> nat (ans_ret (next_answer w)) \<and>
       (\<forall>fid. Remove_fd fid \<in> set meanwhile \<longrightarrow> fid \<notin> event_fd ` set evs) \<and>
       (\<forall>pre e post fid. evs = pre @ e # post \<longrightarrow> Remove_fd fid \<in> set (handler e) \<longrightarrow> fid \<notin> event_fd ` set post)) \<and>
    poll_run_with (\<lambda>_. []) [] ts ready r w = and_then (poll_run ts ready r w) (\<lambda>(c, evs, w'). Inr (c, evs, r, w'))"
proof -
  let ?r = "apply_changes meanwhile r" and ?fs = "fill_revents ready (r_fds r)" and ?n = "nat (ans_ret (next_answer w))"
  have filed: "filed ?r" by (rule filed_changes [OF assms])
  obtain evs r' where walk: "dispatch handler ?n ?fs ?r = Inr (evs, r')" "filed r'" "length evs \<le> ?n"
    using dispatch_total [OF filed] by blast
  have gone: "fid \<notin> event_fd ` set evs" if "Remove_fd fid \<in> set meanwhile" for fid
    using dispatch_only_filed [OF filed walk(1), of fid] that by (simp add: change_fields)
  have later: "fid \<notin> event_fd ` set post" if "evs = pre @ e # post" "Remove_fd fid \<in> set (handler e)" for pre e post fid
    using dispatch_forgets [OF filed walk(1) [unfolded that(1)] that(2)] .
  have "poll_run_with (\<lambda>_. []) [] ts ready r w = and_then (poll_run ts ready r w) (\<lambda>(c, evs, w'). Inr (c, evs, r, w'))"
    by (cases "event_handler ?n ?fs r")
      (simp_all add: poll_run_with_def poll_run_def Let_def split_beta dispatch_alone)
  moreover have "\<exists>c evs' r'' w'. poll_run_with handler meanwhile ts ready r w = Inr (c, evs', r'', w') \<and>
      (evs' = evs \<and> r'' = r' \<or> evs' = [] \<and> r'' = ?r)"
    using walk(1) by (auto simp: poll_run_with_def Let_def split_beta)
  ultimately show ?thesis using walk(2,3) filed gone later by fastforce
qed

text \<open>Two sockets are readable; the handler of the first removes the second.\<close>

theorem removed_sockets_not_served_witness:
  "\<exists>c evs r' w'. poll_run_with (\<lambda>e. if event_fd e = 5 then [Remove_fd 6] else []) [] 5 [POLLIN, POLLIN] example_reactor (script [returns 2])
     = Inr (c, evs, r', w') \<and> evs = [FdEvent 5 True False False] \<and> length evs \<le> 2"
proof -
  let ?h = "\<lambda>e. if event_fd e = 5 then [Remove_fd 6] else []"
  have "filed example_reactor" by (auto simp: filed_def example_reactor_def socket_new_def split: if_splits)
  from removed_sockets_not_served [OF this, of ?h "[]" 5 "[POLLIN, POLLIN]" "script [returns 2]"]
  obtain c evs r' w' where run: "poll_run_with ?h [] 5 [POLLIN, POLLIN] example_reactor (script [returns 2]) = Inr (c, evs, r', w')"
      "length evs \<le> 2" by (auto simp: nth_answer_simps(1) nth_answer_script returns_def)
  have ev: "has_event POLLIN POLLIN" "\<not> has_event POLLIN POLLOUT" "\<not> has_event POLLIN POLLERR"
    by (simp_all add: has_event_def poll_flags)
  have "evs = [FdEvent 5 True False False]"
    using run(1) by (simp add: poll_run_with_def Let_def split_beta nth_answer_simps nth_answer_script returns_def
        example_reactor_def fill_revents_def socket_new_def responsable_def poll_remove_def ev numeral_2_eq_2)
  with run show ?thesis by blast
qed

end
