(* ===== verification/Poll_Race.thy ===== *)
theory Poll_Race
  imports Poll_Dispatch
begin










section \<open>Lemmas\<close>











subsection \<open>The walk alone\<close>



section \<open>Properties\<close>



end
