(* ===== verification/Timer_Queue.thy ===== *)
theory Timer_Queue
  imports Prelude "HOL-Library.Multiset"
begin

text \<open>
  The contract of \<^verbatim>\<open>std::priority_queue\<close> with \<^verbatim>\<open>std::greater\<close>, as the event loop
  uses it: the top is an element with the least key, and the order of elements with equal keys is
  not promised.  The concrete queue of the loop is a list kept in key order.
\<close>

locale min_queue =
  fixes inv :: "'q \<Rightarrow> bool"
    and elems :: "'q \<Rightarrow> 'a multiset"
    and key :: "'a \<Rightarrow> 'k::linorder"
    and is_empty :: "'q \<Rightarrow> bool"
    and push :: "'a \<Rightarrow> 'q \<Rightarrow> 'q"
    and top :: "'q \<Rightarrow> 'a"
    and pop :: "'q \<Rightarrow> 'q"
  assumes empty_iff: "inv q \<Longrightarrow> is_empty q \<longleftrightarrow> elems q = {#}"
    and push_inv: "inv q \<Longrightarrow> inv (push x q)"
    and push_elems: "inv q \<Longrightarrow> elems (push x q) = add_mset x (elems q)"
    and pop_inv: "inv q \<Longrightarrow> \<not> is_empty q \<Longrightarrow> inv (pop q)"
    and pop_elems: "inv q \<Longrightarrow> \<not> is_empty q \<Longrightarrow> elems q = add_mset (top q) (elems (pop q))"
    and top_least: "inv q \<Longrightarrow> y \<in># elems q \<Longrightarrow> key (top q) \<le> key y"
begin

text \<open>An element is due exactly when the top is.\<close>

lemma due_iff:
  assumes "inv q"
  shows "(\<exists>x \<in># elems q. key x \<le> t) \<longleftrightarrow> \<not> is_empty q \<and> key (top q) \<le> t"
proof
  assume "\<exists>x \<in># elems q. key x \<le> t"
  then obtain x where x: "x \<in># elems q" "key x \<le> t" by blast
  then have "\<not> is_empty q" using assms by (auto simp: empty_iff)
  moreover have "key (top q) \<le> t" using top_least [OF assms x(1)] x(2) by (rule order_trans)
  ultimately show "\<not> is_empty q \<and> key (top q) \<le> t" ..
next
  assume "\<not> is_empty q \<and> key (top q) \<le> t"
  then show "\<exists>x \<in># elems q. key x \<le> t" using pop_elems [OF assms] by force
qed

lemma none_due: "inv q \<Longrightarrow> is_empty q \<or> t < key (top q) \<Longrightarrow> x \<in># elems q \<Longrightarrow> t < key x"
  using due_iff [of q t] by (meson linorder_not_le)

lemma pop_increasing:
  assumes "inv q" and "\<not> is_empty q" and "x \<in># elems (pop q)"
  shows "key (top q) \<le> key x"
  using assms pop_elems [OF assms(1,2)] by (simp add: top_least)

end

end
