(* ===== verification/Event_Loop.thy ===== *)
theory Event_Loop
  imports Timer_Queue
begin

text \<open>
  \<^verbatim>\<open>tool::Loop\<close> of \<^verbatim>\<open>set/loop\<close>.  A queued function is a \<open>task\<close>: a name and
  the calls it makes on the loop when it runs (pushing further tasks, setting timers, quitting);
  running it appends its name to the log.  What happens outside the loop's thread is given per round:
  the calls other threads make before the round, the calls the I/O handler makes, and the two
  readings of the clock.  \<^verbatim>\<open>std::mutex\<close> is not recursive: a call to \<^verbatim>\<open>runAt\<close> from a
  timer callback, while the loop holds \<^verbatim>\<open>time_mut_\<close>, is \<open>Deadlock\<close>.
\<close>

datatype task = Task (task_name: nat) (task_actions: "action list")
  and action =
    PushIdle task
  | PushRunable task
  | RunAt u64 task
  | Quit

record timer =
  t_stamp :: u64
  t_task :: task

text \<open>The comparisons of \<^verbatim>\<open>Loop.h\<close>; \<^verbatim>\<open>std::greater\<close> uses the last one.\<close>

definition timer_spaceship :: "timer \<Rightarrow> timer \<Rightarrow> int" where
  "timer_spaceship a b = (if t_stamp a < t_stamp b then - 1 else if t_stamp a = t_stamp b then 0 else 1)"

definition timer_less :: "timer \<Rightarrow> timer \<Rightarrow> bool" where
  "timer_less a b \<longleftrightarrow> t_stamp a < t_stamp b"

definition timer_equal :: "timer \<Rightarrow> timer \<Rightarrow> bool" where
  "timer_equal a b \<longleftrightarrow> t_stamp a = t_stamp b"

definition timer_greater :: "timer \<Rightarrow> timer \<Rightarrow> bool" where
  "timer_greater l r \<longleftrightarrow> t_stamp r < t_stamp l"

lemma timer_comparisons_agree:
  "timer_less a b \<longleftrightarrow> timer_spaceship a b < 0" "timer_equal a b \<longleftrightarrow> timer_spaceship a b = 0"
  "timer_greater a b \<longleftrightarrow> 0 < timer_spaceship a b" "timer_greater a b \<longleftrightarrow> timer_less b a"
  by (auto simp: timer_less_def timer_equal_def timer_greater_def timer_spaceship_def)

section \<open>The timer queue\<close>

definition pq_empty :: "timer list \<Rightarrow> bool" where "pq_empty q \<longleftrightarrow> q = []"
definition pq_push :: "timer \<Rightarrow> timer list \<Rightarrow> timer list" where "pq_push = insort_key t_stamp"
definition pq_top :: "timer list \<Rightarrow> timer" where "pq_top q = hd q"
definition pq_pop :: "timer list \<Rightarrow> timer list" where "pq_pop q = tl q"
definition pq_inv :: "timer list \<Rightarrow> bool" where "pq_inv q \<longleftrightarrow> sorted (map t_stamp q)"

text \<open>The order of the queue is the one \<^verbatim>\<open>operator>\<close> gives it.\<close>

lemma pq_inv_greater: "pq_inv q \<longleftrightarrow> sorted_wrt (\<lambda>a b. \<not> timer_greater a b) q"
  by (simp add: pq_inv_def timer_greater_def sorted_map not_less)

interpretation tq: min_queue pq_inv mset t_stamp pq_empty pq_push pq_top pq_pop
proof unfold_locales
  fix q x y
  assume inv: "pq_inv q"
  show "pq_empty q \<longleftrightarrow> mset q = {#}" by (simp add: pq_empty_def)
  show "pq_inv (pq_push x q)" using inv by (simp add: pq_inv_def pq_push_def sorted_insort_key)
  show "mset (pq_push x q) = add_mset x (mset q)" by (simp add: pq_push_def)
  show "pq_inv (pq_pop q)" using inv by (cases q) (simp_all add: pq_inv_def pq_pop_def)
  show "mset q = add_mset (pq_top q) (mset (pq_pop q))" if "\<not> pq_empty q"
    using that by (cases q) (simp_all add: pq_empty_def pq_top_def pq_pop_def)
  show "t_stamp (pq_top q) \<le> t_stamp y" if "y \<in># mset q"
    using that inv by (cases q) (auto simp: pq_inv_def pq_top_def)
qed

section \<open>The loop\<close>

record loop_state =
  l_quit :: bool
  l_idle :: "task list"
  l_runable :: "task list"
  l_timers :: "timer list"
  l_outtime :: u64
  l_io :: bool
  l_log :: "nat list"

definition loop_new :: loop_state where
  "loop_new = \<lparr>l_quit = True, l_idle = [], l_runable = [], l_timers = [], l_outtime = 0,
               l_io = False, l_log = []\<rparr>"

definition loop_destroy :: "loop_state \<Rightarrow> cxx_error + unit" where
  "loop_destroy s = assert_that (l_quit s)"

text \<open>\<^verbatim>\<open>pushIdle\<close> appends to \<^verbatim>\<open>runable_\<close> and \<^verbatim>\<open>pushRunable\<close> to \<^verbatim>\<open>idle_\<close>,
  as the source has it.\<close>

definition push_idle :: "task \<Rightarrow> loop_state \<Rightarrow> loop_state" where
  "push_idle t s = s\<lparr>l_runable := l_runable s @ [t]\<rparr>"

definition push_runable :: "task \<Rightarrow> loop_state \<Rightarrow> loop_state" where
  "push_runable t s = s\<lparr>l_idle := l_idle s @ [t]\<rparr>"

definition quit :: "loop_state \<Rightarrow> loop_state" where
  "quit s = s\<lparr>l_quit := True\<rparr>"

definition run_at :: "bool \<Rightarrow> u64 \<Rightarrow> task \<Rightarrow> loop_state \<Rightarrow> cxx_error + loop_state" where
  "run_at time_locked stamp t s =
     (if time_locked then Inl Deadlock
      else Inr (s\<lparr>l_timers := pq_push \<lparr>t_stamp = stamp, t_task = t\<rparr> (l_timers s)\<rparr>))"

definition register_io_handle :: "loop_state \<Rightarrow> loop_state" where
  "register_io_handle s = s\<lparr>l_io := True\<rparr>"

fun run_action :: "bool \<Rightarrow> action \<Rightarrow> loop_state \<Rightarrow> cxx_error + loop_state" where
  "run_action locked (PushIdle t) s = Inr (push_idle t s)"
| "run_action locked (PushRunable t) s = Inr (push_runable t s)"
| "run_action locked (RunAt stamp t) s = run_at locked stamp t s"
| "run_action locked Quit s = Inr (quit s)"

fun run_actions :: "bool \<Rightarrow> action list \<Rightarrow> loop_state \<Rightarrow> cxx_error + loop_state" where
  "run_actions locked [] s = Inr s"
| "run_actions locked (a # as) s = and_then (run_action locked a s) (run_actions locked as)"

definition run_task :: "bool \<Rightarrow> task \<Rightarrow> loop_state \<Rightarrow> cxx_error + loop_state" where
  "run_task locked t s =
     run_actions locked (task_actions t) (s\<lparr>l_log := l_log s @ [task_name t]\<rparr>)"

fun run_tasks :: "task list \<Rightarrow> loop_state \<Rightarrow> cxx_error + loop_state" where
  "run_tasks [] s = Inr s"
| "run_tasks (t # ts) s = and_then (run_task False t s) (run_tasks ts)"

text \<open>The queue is swapped out under its lock and run without it.\<close>

definition handle_idle :: "loop_state \<Rightarrow> cxx_error + loop_state" where
  "handle_idle s = run_tasks (l_idle s) (s\<lparr>l_idle := []\<rparr>)"

definition handle_runable :: "loop_state \<Rightarrow> cxx_error + loop_state" where
  "handle_runable s = run_tasks (l_runable s) (s\<lparr>l_runable := []\<rparr>)"

lemma run_action_locked_timers:
  "run_action True a s = Inr s' \<Longrightarrow> l_timers s' = l_timers s"
  by (cases a) (auto simp: push_idle_def push_runable_def quit_def run_at_def)

lemma run_actions_locked_timers:
  "run_actions True as s = Inr s' \<Longrightarrow> l_timers s' = l_timers s"
  by (induction as arbitrary: s) (auto simp: and_then_Inr_iff dest: run_action_locked_timers)

lemma run_task_locked_timers: "run_task True t s = Inr s' \<Longrightarrow> l_timers s' = l_timers s"
  by (auto simp: run_task_def dest: run_actions_locked_timers)

function timer_loop :: "u64 \<Rightarrow> u64 \<Rightarrow> loop_state \<Rightarrow> cxx_error + u64 \<times> loop_state" where
  "timer_loop now t s =
     (if pq_empty (l_timers s) then Inr (t, s)
      else let e = pq_top (l_timers s) in
        if now < t_stamp e then Inr (t_stamp e, s)
        else and_then (run_task True (t_task e) s) (\<lambda>s1.
          timer_loop now (t_stamp e) (s1\<lparr>l_timers := pq_pop (l_timers s1)\<rparr>)))"
  by pat_completeness auto
termination
  by (relation "measure (\<lambda>(now, t, s). length (l_timers s))")
    (auto simp: pq_empty_def pq_pop_def dest!: run_task_locked_timers)

declare timer_loop.simps [simp del]

definition handle_timer :: "u64 \<Rightarrow> loop_state \<Rightarrow> cxx_error + loop_state" where
  "handle_timer now s =
     and_then (timer_loop now (l_outtime s) s) (\<lambda>(t, s1). Inr (s1\<lparr>l_outtime := t\<rparr>))"

definition get_outtime :: "u64 \<Rightarrow> loop_state \<Rightarrow> u64" where
  "get_outtime now s = (if l_outtime s < now then now - l_outtime s else 0)"

text \<open>One round: the environment's part of it, and the wait it passes to the I/O handler.\<close>

record round_env =
  env_calls :: "action list"
  env_clock_io :: u64
  env_io :: "u64 \<Rightarrow> action list"
  env_clock_timer :: u64

definition handle_io_source :: "round_env \<Rightarrow> u64 \<Rightarrow> loop_state \<Rightarrow> cxx_error + loop_state" where
  "handle_io_source env out s = (if l_io s then run_actions False (env_io env out) s else Inr s)"

definition loop_round :: "round_env \<Rightarrow> loop_state \<Rightarrow> cxx_error + loop_state" where
  "loop_round env s =
     and_then (handle_idle s) (\<lambda>s1.
     and_then (handle_io_source env (get_outtime (env_clock_io env) s1) s1) (\<lambda>s2.
     and_then (handle_timer (env_clock_timer env) s2) handle_runable))"

partial_function (option) loop_while ::
  "(nat \<Rightarrow> round_env) \<Rightarrow> nat \<Rightarrow> loop_state \<Rightarrow> (cxx_error + loop_state) option" where
  "loop_while envs n s =
     (case run_actions False (env_calls (envs n)) s of
        Inl e \<Rightarrow> Some (Inl e)
      | Inr s0 \<Rightarrow>
          if l_quit s0 then Some (Inr s0)
          else (case loop_round (envs n) s0 of
                  Inl e \<Rightarrow> Some (Inl e)
                | Inr s1 \<Rightarrow> loop_while envs (n + 1) s1))"

definition loop_run :: "(nat \<Rightarrow> round_env) \<Rightarrow> loop_state \<Rightarrow> (cxx_error + loop_state) option" where
  "loop_run envs s = loop_while envs 0 (s\<lparr>l_quit := False\<rparr>)"

section \<open>What tasks leave behind\<close>

fun idle_pushes :: "action \<Rightarrow> task list" where
  "idle_pushes (PushRunable t) = [t]"
| "idle_pushes _ = []"

fun runable_pushes :: "action \<Rightarrow> task list" where
  "runable_pushes (PushIdle t) = [t]"
| "runable_pushes _ = []"

fun timer_pushes :: "action \<Rightarrow> timer list" where
  "timer_pushes (RunAt stamp t) = [\<lparr>t_stamp = stamp, t_task = t\<rparr>]"
| "timer_pushes _ = []"

definition rearms :: "task \<Rightarrow> bool" where
  "rearms t \<longleftrightarrow> concat (map timer_pushes (task_actions t)) \<noteq> []"

definition effect_of :: "action list \<Rightarrow> loop_state \<Rightarrow> loop_state" where
  "effect_of as s =
     s\<lparr>l_idle := l_idle s @ concat (map idle_pushes as),
       l_runable := l_runable s @ concat (map runable_pushes as),
       l_timers := fold pq_push (concat (map timer_pushes as)) (l_timers s),
       l_quit := (l_quit s \<or> Quit \<in> set as)\<rparr>"

lemma run_actions_unlocked: "run_actions False as s = Inr (effect_of as s)"
proof (induction as arbitrary: s)
  case (Cons a as)
  then show ?case
    by (cases a) (auto simp: effect_of_def push_idle_def push_runable_def run_at_def quit_def)
qed (simp add: effect_of_def)

lemma run_actions_locked:
  "run_actions True as s =
     (if concat (map timer_pushes as) = [] then Inr (effect_of as s) else Inl Deadlock)"
proof (induction as arbitrary: s)
  case (Cons a as)
  then show ?case
    by (cases a) (auto simp: effect_of_def push_idle_def push_runable_def run_at_def quit_def)
qed (simp add: effect_of_def)

lemma effect_of_twice: "effect_of bs (effect_of as s) = effect_of (as @ bs) s"
  by (simp add: effect_of_def)

lemma effect_of_log: "(effect_of as s)\<lparr>l_log := xs\<rparr> = effect_of as (s\<lparr>l_log := xs\<rparr>)"
  by (simp add: effect_of_def)

lemma effect_of_fields [simp]:
  "l_log (effect_of as s) = l_log s" "l_outtime (effect_of as s) = l_outtime s"
  "l_io (effect_of as s) = l_io s"
  "l_quit (effect_of as s) \<longleftrightarrow> l_quit s \<or> Quit \<in> set as"
  by (simp_all add: effect_of_def)

lemma run_tasks_effect:
  "run_tasks ts s =
     Inr (effect_of (concat (map task_actions ts)) (s\<lparr>l_log := l_log s @ map task_name ts\<rparr>))"
proof (induction ts arbitrary: s)
  case Nil
  show ?case by (simp add: effect_of_def)
next
  case (Cons t ts)
  then show ?case
    by (simp add: run_task_def run_actions_unlocked effect_of_log effect_of_twice)
qed

lemma timer_loop_done:
  "l_timers s = [] \<Longrightarrow> timer_loop now t s = Inr (t, s)"
  "l_timers s = e # es \<Longrightarrow> now < t_stamp e \<Longrightarrow> timer_loop now t s = Inr (t_stamp e, s)"
  by (simp_all add: timer_loop.simps [of now t s] pq_empty_def pq_top_def)

lemma timer_loop_step:
  "l_timers s = e # es \<Longrightarrow> t_stamp e \<le> now \<Longrightarrow>
     timer_loop now t s =
       and_then (run_task True (t_task e) s) (\<lambda>s1. timer_loop now (t_stamp e) (s1\<lparr>l_timers := es\<rparr>))"
proof -
  assume a: "l_timers s = e # es" "t_stamp e \<le> now"
  have "timer_loop now t s =
      and_then (run_task True (t_task e) s) (\<lambda>s1. timer_loop now (t_stamp e) (s1\<lparr>l_timers := pq_pop (l_timers s1)\<rparr>))"
    using a by (simp add: timer_loop.simps [of now t s] pq_empty_def pq_top_def linorder_not_less [symmetric])
  also have "\<dots> = and_then (run_task True (t_task e) s) (\<lambda>s1. timer_loop now (t_stamp e) (s1\<lparr>l_timers := es\<rparr>))"
    using a(1) by (intro and_then_cong refl) (auto dest!: run_task_locked_timers simp: pq_pop_def)
  finally show ?thesis .
qed

lemma run_task_locked:
  "run_task True t s =
     (if rearms t then Inl Deadlock
      else Inr (effect_of (task_actions t) (s\<lparr>l_log := l_log s @ [task_name t]\<rparr>)))"
  by (simp add: run_task_def run_actions_locked rearms_def)

text \<open>The loop over the timers, on a queue split into the due and the pending ones.\<close>

lemma timer_loop_fires:
  assumes "l_timers s = due @ later" and "\<forall>e \<in> set due. t_stamp e \<le> now"
    and "\<forall>e \<in> set due. \<not> rearms (t_task e)" and "\<forall>e \<in> set later. now < t_stamp e"
  shows "\<exists>s'. timer_loop now t s = Inr (hd (map t_stamp later @ rev (map t_stamp due) @ [t]), s') \<and>
           l_log s' = l_log s @ map (task_name \<circ> t_task) due \<and> l_timers s' = later"
  using assms
proof (induction due arbitrary: s t)
  case Nil
  then show ?case by (cases later) (simp_all add: timer_loop_done)
next
  case (Cons e due)
  let ?s1 = "(effect_of (task_actions (t_task e)) (s\<lparr>l_log := l_log s @ [task_name (t_task e)]\<rparr>))\<lparr>l_timers := due @ later\<rparr>"
  have "timer_loop now t s = timer_loop now (t_stamp e) ?s1"
    using Cons.prems timer_loop_step [of s e "due @ later" now t] by (simp add: run_task_locked)
  moreover obtain s' where s': "timer_loop now (t_stamp e) ?s1 =
      Inr (hd (map t_stamp later @ rev (map t_stamp due) @ [t_stamp e]), s')"
    "l_log s' = l_log ?s1 @ map (task_name \<circ> t_task) due" "l_timers s' = later"
    using Cons.IH [of ?s1 "t_stamp e"] Cons.prems by auto
  moreover have "hd (map t_stamp later @ rev (map t_stamp due) @ [t_stamp e]) =
      hd (map t_stamp later @ rev (map t_stamp (e # due)) @ [t])"
    by (cases later; cases "rev (map t_stamp due)") simp_all
  ultimately show ?case by auto
qed

lemma timer_loop_deadlock:
  assumes "l_timers s = due @ later" and "\<forall>e \<in> set due. t_stamp e \<le> now"
    and "\<exists>e \<in> set due. rearms (t_task e)"
  shows "timer_loop now t s = Inl Deadlock"
  using assms
proof (induction due arbitrary: s t)
  case (Cons e due)
  show ?case
  proof (cases "rearms (t_task e)")
    case True
    then show ?thesis
      using Cons.prems timer_loop_step [of s e "due @ later" now t] by (simp add: run_task_locked)
  next
    case False
    then show ?thesis using Cons.prems timer_loop_step [of s e "due @ later" now t]
      by (simp add: run_task_locked Cons.IH)
  qed
qed simp

lemma sorted_timers_split:
  assumes "pq_inv q"
  shows "q = filter (\<lambda>e. t_stamp e \<le> now) q @ filter (\<lambda>e. now < t_stamp e) q"
  using assms
proof (induction q)
  case (Cons e q)
  show ?case
  proof (cases "t_stamp e \<le> now")
    case True
    then show ?thesis using Cons by (simp add: pq_inv_def)
  next
    case False
    then have later: "now < t_stamp x" if "x \<in> set (e # q)" for x
      using that Cons.prems by (fastforce simp: pq_inv_def)
    then have "filter (\<lambda>x. t_stamp x \<le> now) (e # q) = []" "filter (\<lambda>x. now < t_stamp x) (e # q) = e # q"
      by (auto simp: filter_empty_conv filter_id_conv linorder_not_le)
    then show ?thesis by simp
  qed
qed simp

section \<open>Properties\<close>

text \<open>A round's task queue is run completely, once and in the order it was filled; whatever
  the tasks push goes to the queues for later, and the new contents of both queues are exactly
  these pushes.\<close>

theorem queued_tasks_run_in_order:
  "\<exists>s' s''. handle_idle s = Inr s' \<and>
     l_log s' = l_log s @ map task_name (l_idle s) \<and>
     l_idle s' = concat (map idle_pushes (concat (map task_actions (l_idle s)))) \<and>
     l_runable s' = l_runable s @ concat (map runable_pushes (concat (map task_actions (l_idle s)))) \<and>
     handle_runable s = Inr s'' \<and>
     l_log s'' = l_log s @ map task_name (l_runable s) \<and>
     l_runable s'' = concat (map runable_pushes (concat (map task_actions (l_runable s)))) \<and>
     l_idle s'' = l_idle s @ concat (map idle_pushes (concat (map task_actions (l_runable s))))"
  by (simp add: handle_idle_def handle_runable_def run_tasks_effect) (simp add: effect_of_def)

text \<open>C12: When no due callback sets a timer, \<^verbatim>\<open>handle_timer\<close> runs exactly the timers that are
  due, each once and in the order of their time stamps, keeps the others, and remembers the time
  of the earliest timer that is still pending.\<close>

theorem due_timers_fire_in_order:
  assumes "pq_inv (l_timers s)" and "\<forall>e \<in> set (l_timers s). t_stamp e \<le> now \<longrightarrow> \<not> rearms (t_task e)"
  shows "\<exists>s' fired. handle_timer now s = Inr s' \<and>
           l_log s' = l_log s @ map (task_name \<circ> t_task) fired \<and> sorted (map t_stamp fired) \<and>
           mset (l_timers s) = mset fired + mset (l_timers s') \<and>
           (\<forall>e \<in> set fired. t_stamp e \<le> now) \<and> (\<forall>e \<in> set (l_timers s'). now < t_stamp e) \<and>
           (l_timers s' \<noteq> [] \<longrightarrow> l_outtime s' = Min (t_stamp ` set (l_timers s')))"
proof -
  let ?due = "filter (\<lambda>e. t_stamp e \<le> now) (l_timers s)"
  let ?later = "filter (\<lambda>e. now < t_stamp e) (l_timers s)"
  have split: "l_timers s = ?due @ ?later" using assms(1) by (rule sorted_timers_split)
  obtain s' where s': "timer_loop now (l_outtime s) s =
      Inr (hd (map t_stamp ?later @ rev (map t_stamp ?due) @ [l_outtime s]), s')"
    "l_log s' = l_log s @ map (task_name \<circ> t_task) ?due" "l_timers s' = ?later"
    using timer_loop_fires [OF split, of now "l_outtime s"] assms(2) by auto
  have srt: "sorted (map t_stamp (filter P (l_timers s)))" for P
    using assms(1) by (simp add: pq_inv_def sorted_filter)
  have min: "hd (map t_stamp ?later @ xs) = Min (t_stamp ` set ?later)" if ne: "?later \<noteq> []" for xs
  proof -
    obtain e es where es: "?later = e # es" using ne by (meson neq_Nil_conv)
    then have "Min (t_stamp ` set (e # es)) = t_stamp e"
      using srt [of "\<lambda>e. now < t_stamp e"] by (intro Min_eqI) (auto simp: es)
    then show ?thesis by (simp only: es) simp
  qed
  have "mset (l_timers s) = mset ?due + mset ?later" using split by (metis mset_append)
  then show ?thesis using s' srt min unfolding handle_timer_def
    by (intro exI [of _ "s'\<lparr>l_outtime := hd (map t_stamp ?later @ rev (map t_stamp ?due) @ [l_outtime s])\<rparr>"]
        exI [of _ ?due]) simp
qed

text \<open>A due callback that sets a timer stops the loop for good: it waits for the mutex the loop
  holds while it runs the callbacks.\<close>

theorem rearming_timer_deadlocks:
  assumes "pq_inv (l_timers s)" and "e \<in> set (l_timers s)" and "t_stamp e \<le> now"
    and "rearms (t_task e)"
  shows "handle_timer now s = Inl Deadlock"
proof -
  have "timer_loop now (l_outtime s) s = Inl Deadlock"
    using assms by (intro timer_loop_deadlock [OF sorted_timers_split [OF assms(1)]]) auto
  then show ?thesis by (simp add: handle_timer_def)
qed

text \<open>While a timer is pending, the wait passed to the I/O handler is zero, so the loop spins
  until the timer is due; the wait is positive only when the remembered time is already past, and
  then it is the time elapsed since, not the time to wait.\<close>

theorem pending_timer_makes_loop_spin:
  assumes "pq_inv (l_timers s)" and "\<forall>e \<in> set (l_timers s). now < t_stamp e" and "l_timers s \<noteq> []"
  shows "\<exists>s'. handle_timer now s = Inr s' \<and> l_timers s' = l_timers s \<and>
           (\<forall>clock. clock \<le> l_outtime s' \<longrightarrow> get_outtime clock s' = 0) \<and>
           (\<forall>clock. l_outtime s' < clock \<longrightarrow>
              get_outtime clock s' = clock - l_outtime s' \<and> (\<exists>e \<in> set (l_timers s'). t_stamp e < clock))"
proof -
  obtain e es where es: "l_timers s = e # es" using assms(3) by (cases "l_timers s") auto
  then have "handle_timer now s = Inr (s\<lparr>l_outtime := t_stamp e\<rparr>)"
    using assms(2) by (simp add: handle_timer_def timer_loop_done)
  then show ?thesis using es by (auto simp: get_outtime_def)
qed

text \<open>What running a due callback keeps, the loop over the timers keeps.\<close>

lemma timer_loop_keeps:
  assumes "timer_loop now t s = Inr (t', s')" and "P s"
    and step: "\<And>s e es. P s \<Longrightarrow> l_timers s = e # es \<Longrightarrow>
      P ((effect_of (task_actions (t_task e)) (s\<lparr>l_log := l_log s @ [task_name (t_task e)]\<rparr>))\<lparr>l_timers := es\<rparr>)"
  shows "P s'"
  using assms(1,2)
proof (induction "l_timers s" arbitrary: s t)
  case Nil
  then show ?case by (simp add: timer_loop_done)
next
  case (Cons e es)
  note timers = Cons.hyps(2) [symmetric]
  let ?s1 = "(effect_of (task_actions (t_task e)) (s\<lparr>l_log := l_log s @ [task_name (t_task e)]\<rparr>))\<lparr>l_timers := es\<rparr>"
  consider "now < t_stamp e" | "t_stamp e \<le> now" "rearms (t_task e)"
    | "t_stamp e \<le> now" "\<not> rearms (t_task e)" by (metis linorder_not_less)
  then show ?case
  proof cases
    case 1
    then show ?thesis using Cons.prems timer_loop_done(2) [OF timers] by simp
  next
    case 2
    then show ?thesis using Cons.prems timer_loop_step [OF timers] by (simp add: run_task_locked)
  next
    case 3
    have "timer_loop now (t_stamp e) ?s1 = Inr (t', s')"
      using 3 Cons.prems(1) timer_loop_step [OF timers] by (simp add: run_task_locked)
    then show ?thesis using Cons.hyps(1) [of ?s1 "t_stamp e"] step [OF Cons.prems(2) timers] by simp
  qed
qed

lemma handle_timer_keeps:
  assumes "handle_timer now s = Inr s'" and "P s"
    and "\<And>s e es. P s \<Longrightarrow> l_timers s = e # es \<Longrightarrow>
      P ((effect_of (task_actions (t_task e)) (s\<lparr>l_log := l_log s @ [task_name (t_task e)]\<rparr>))\<lparr>l_timers := es\<rparr>)"
    and "\<And>s t. P s \<Longrightarrow> P (s\<lparr>l_outtime := t\<rparr>)"
  shows "P s'"
  using assms timer_loop_keeps [where P = P, of now "l_outtime s" s]
  by (auto simp: handle_timer_def and_then_Inr_iff)

lemma handle_timer_quit: "handle_timer now s = Inr s' \<Longrightarrow> l_quit s \<Longrightarrow> l_quit s'"
  by (erule handle_timer_keeps) simp_all

lemma loop_round_quit:
  assumes "loop_round env s = Inr s'"
    and "l_quit s \<or> (\<exists>t \<in> set (l_idle s). Quit \<in> set (task_actions t))"
  shows "l_quit s'"
proof -
  obtain s1 s2 s3 where s: "handle_idle s = Inr s1"
    "handle_io_source env (get_outtime (env_clock_io env) s1) s1 = Inr s2"
    "handle_timer (env_clock_timer env) s2 = Inr s3" "handle_runable s3 = Inr s'"
    using assms(1) by (auto simp: loop_round_def and_then_Inr_iff)
  have "l_quit s1" using s(1) assms(2) by (auto simp: handle_idle_def run_tasks_effect)
  then have "l_quit s2" using s(2) by (auto simp: handle_io_source_def run_actions_unlocked split: if_splits)
  then have "l_quit s3" using s(3) handle_timer_quit by blast
  then show ?thesis using s(4) by (auto simp: handle_runable_def run_tasks_effect)
qed

text \<open>A task that calls \<^verbatim>\<open>quit\<close> and was handed to \<^verbatim>\<open>pushRunable\<close> before a round ends
  \<^verbatim>\<open>run\<close> after that round: the loop returns, and runs nothing more.\<close>

theorem quit_task_ends_run:
  assumes "run_actions False (env_calls (envs n)) s = Inr s0" and "\<not> l_quit s0"
    and "\<exists>t \<in> set (l_idle s0). Quit \<in> set (task_actions t)" and "loop_round (envs n) s0 = Inr s1"
  shows "\<exists>s'. loop_while envs n s = Some (Inr s') \<and> l_quit s' \<and> l_log s' = l_log s1 \<and>
           loop_destroy s' = Inr ()"
proof -
  have quit: "l_quit s1" using loop_round_quit [OF assms(4)] assms(3) by simp
  have "loop_while envs n s = loop_while envs (n + 1) s1"
    using assms by (simp add: loop_while.simps [of envs n s])
  also have "\<dots> = Some (Inr (effect_of (env_calls (envs (n + 1))) s1))"
    using quit by (simp add: loop_while.simps [of envs "Suc n" s1] run_actions_unlocked)
  finally show ?thesis using quit by (simp add: loop_destroy_def)
qed

section \<open>Concrete runs\<close>

definition two_timers :: "task \<Rightarrow> loop_state" where
  "two_timers t = loop_new\<lparr>l_timers := [\<lparr>t_stamp = 5, t_task = t\<rparr>, \<lparr>t_stamp = 9, t_task = Task 2 []\<rparr>]\<rparr>"

lemma due_timers_fire_in_order_witness:
  "\<exists>s'. handle_timer 7 (two_timers (Task 1 [])) = Inr s' \<and> (\<forall>e \<in> set (l_timers s'). 7 < t_stamp e)"
  using due_timers_fire_in_order [of "two_timers (Task 1 [])" 7]
  by (auto simp: two_timers_def pq_inv_def rearms_def)

lemma rearming_timer_deadlocks_witness:
  "handle_timer 7 (two_timers (Task 1 [RunAt 12 (Task 3 [])])) = Inl Deadlock"
  using rearming_timer_deadlocks [of "two_timers (Task 1 [RunAt 12 (Task 3 [])])"
      "\<lparr>t_stamp = 5, t_task = Task 1 [RunAt 12 (Task 3 [])]\<rparr>" 7]
  by (simp add: two_timers_def pq_inv_def rearms_def)

lemma pending_timer_makes_loop_spin_witness:
  "\<exists>s'. handle_timer 2 (two_timers (Task 1 [])) = Inr s' \<and> (\<forall>clock. clock \<le> l_outtime s' \<longrightarrow> get_outtime clock s' = 0)"
  using pending_timer_makes_loop_spin [of "two_timers (Task 1 [])" 2]
  by (auto simp: two_timers_def pq_inv_def)

text \<open>The program of \<^verbatim>\<open>set/loop/main.cpp\<close>: a greeting and a task that quits.\<close>

definition hello_envs :: "nat \<Rightarrow> round_env" where
  "hello_envs n =
     \<lparr>env_calls = (if n = 0 then [PushRunable (Task 1 []), PushRunable (Task 2 [Quit])] else []),
      env_clock_io = 0, env_io = (\<lambda>_. []), env_clock_timer = 0\<rparr>"

lemma quit_task_ends_run_witness:
  "\<exists>s'. loop_run hello_envs loop_new = Some (Inr s') \<and> l_log s' = [1, 2]"
proof -
  have "\<exists>s'. loop_while hello_envs 0 (loop_new\<lparr>l_quit := False\<rparr>) = Some (Inr s') \<and> l_quit s' \<and>
      l_log s' = l_log (loop_new\<lparr>l_log := [1, 2]\<rparr>) \<and> loop_destroy s' = Inr ()"
    by (rule quit_task_ends_run [where
          ?s0.0 = "loop_new\<lparr>l_quit := False, l_idle := [Task 1 [], Task 2 [Quit]]\<rparr>"])
      (simp_all add: hello_envs_def loop_new_def push_runable_def loop_round_def handle_idle_def run_task_def
        quit_def handle_io_source_def handle_timer_def timer_loop_done handle_runable_def)
  then show ?thesis by (auto simp: loop_run_def)
qed

end
