(* ===== verification/Guarded_Calls.thy ===== *)
theory Guarded_Calls
  imports Prelude
begin

text \<open>
  Threads that change shared containers under mutexes.  A call locks a mutex, reads a container,
  writes it back and unlocks; every schedule of these steps is possible, and no two of them are
  one atomic action.  The locale states what makes it safe: calls on one container take one
  mutex.  Its lemmas say that then every schedule has the effect of the calls made one after the
  other.
\<close>

section \<open>Threads, mutexes and containers\<close>

datatype ('c, 's) phase =
  Away
| Wants 'c
| Holds 'c
| Loaded 'c 's
| Stored 'c

record ('c, 'q, 'm, 's) shared =
  sh_data :: "'q \<Rightarrow> 's"
  sh_owner :: "'m \<Rightarrow> nat option"
  sh_phase :: "nat \<Rightarrow> ('c, 's) phase"
  sh_history :: "'q \<Rightarrow> ('c \<times> 's) list"

definition shared_start :: "('q \<Rightarrow> 's) \<Rightarrow> ('c, 'q, 'm, 's) shared" where
  "shared_start d = \<lparr>sh_data = d, sh_owner = (\<lambda>_. None), sh_phase = (\<lambda>_. Away), sh_history = (\<lambda>_. [])\<rparr>"

text \<open>
  One step of thread \<open>t\<close>; \<open>next_call\<close> is the call it makes when it is in none.  A thread whose
  mutex is taken stays where it is.  The history of a container lists the calls that wrote it,
  each with the contents it had read.
\<close>

definition thread_step ::
  "('c \<Rightarrow> 'q) \<Rightarrow> ('c \<Rightarrow> 'm) \<Rightarrow> ('c \<Rightarrow> 's \<Rightarrow> 's) \<Rightarrow> nat \<times> 'c \<Rightarrow> ('c, 'q, 'm, 's) shared \<Rightarrow> ('c, 'q, 'm, 's) shared" where
  "thread_step touches guard effect = (\<lambda>(t, next_call) s.
     case sh_phase s t of
       Away \<Rightarrow> s\<lparr>sh_phase := (sh_phase s)(t := Wants next_call)\<rparr>
     | Wants c \<Rightarrow>
         if sh_owner s (guard c) = None
         then s\<lparr>sh_owner := (sh_owner s)(guard c := Some t), sh_phase := (sh_phase s)(t := Holds c)\<rparr>
         else s
     | Holds c \<Rightarrow> s\<lparr>sh_phase := (sh_phase s)(t := Loaded c (sh_data s (touches c)))\<rparr>
     | Loaded c v \<Rightarrow>
         s\<lparr>sh_data := (sh_data s)(touches c := effect c v),
           sh_history := (sh_history s)(touches c := sh_history s (touches c) @ [(c, v)]),
           sh_phase := (sh_phase s)(t := Stored c)\<rparr>
     | Stored c \<Rightarrow>
         s\<lparr>sh_owner := (sh_owner s)(guard c := None), sh_phase := (sh_phase s)(t := Away)\<rparr>)"

fun run_schedule ::
  "('c \<Rightarrow> 'q) \<Rightarrow> ('c \<Rightarrow> 'm) \<Rightarrow> ('c \<Rightarrow> 's \<Rightarrow> 's) \<Rightarrow> (nat \<times> 'c) list \<Rightarrow> ('c, 'q, 'm, 's) shared \<Rightarrow> ('c, 'q, 'm, 's) shared" where
  "run_schedule touches guard effect [] s = s"
| "run_schedule touches guard effect (x # xs) s =
     run_schedule touches guard effect xs (thread_step touches guard effect x s)"

text \<open>The call whose critical section a thread is in.\<close>

fun inside :: "('c, 's) phase \<Rightarrow> 'c option" where
  "inside (Holds c) = Some c"
| "inside (Loaded c v) = Some c"
| "inside (Stored c) = Some c"
| "inside _ = None"

text \<open>The calls one after the other: each reads what the calls before it left.\<close>

fun one_by_one :: "('c \<Rightarrow> 's \<Rightarrow> 's) \<Rightarrow> 's \<Rightarrow> ('c \<times> 's) list \<Rightarrow> bool" where
  "one_by_one effect d [] \<longleftrightarrow> True"
| "one_by_one effect d ((c, v) # h) \<longleftrightarrow> v = d \<and> one_by_one effect (effect c d) h"

fun after :: "('c \<Rightarrow> 's \<Rightarrow> 's) \<Rightarrow> 's \<Rightarrow> ('c \<times> 's) list \<Rightarrow> 's" where
  "after effect d [] = d"
| "after effect d ((c, v) # h) = after effect (effect c d) h"

lemma after_snoc [simp]: "after effect d (h @ [(c, v)]) = effect c (after effect d h)"
  by (induction effect d h rule: after.induct) simp_all

lemma one_by_one_snoc [simp]:
  "one_by_one effect d (h @ [(c, v)]) \<longleftrightarrow> one_by_one effect d h \<and> v = after effect d h"
  by (induction effect d h rule: after.induct) auto

section \<open>A mutex has one owner\<close>

definition owned :: "('c \<Rightarrow> 'm) \<Rightarrow> ('c, 'q, 'm, 's) shared \<Rightarrow> bool" where
  "owned guard s \<longleftrightarrow> (\<forall>t c. inside (sh_phase s t) = Some c \<longrightarrow> sh_owner s (guard c) = Some t)"

lemma owned_start: "owned guard (shared_start d)"
  by (simp add: owned_def shared_start_def)

lemma owned_step:
  assumes "owned guard s"
  shows "owned guard (thread_step touches guard effect x s)"
proof (cases x)
  case (Pair t n)
  have other: "guard c \<noteq> guard c'"
    if "inside (sh_phase s t) = Some c'" "inside (sh_phase s t') = Some c" "t' \<noteq> t" for c c' t'
    using assms that unfolding owned_def by (metis option.inject)
  have free: "guard c \<noteq> guard c'" if "sh_owner s (guard c') = None" "inside (sh_phase s t') = Some c" for c c' t'
    using assms that unfolding owned_def by (metis option.distinct(1))
  show ?thesis
    using assms other free Pair by (cases "sh_phase s t") (auto simp: owned_def thread_step_def)
qed

lemma owned_run: "owned guard s \<Longrightarrow> owned guard (run_schedule touches guard effect xs s)"
  by (induction touches guard effect xs s rule: run_schedule.induct) (simp_all add: owned_step)

lemma one_owner:
  assumes "owned guard s" and "inside (sh_phase s t) = Some c" and "inside (sh_phase s t') = Some c'"
    and "guard c = guard c'"
  shows "t = t'"
proof -
  have "sh_owner s (guard c) = Some t" "sh_owner s (guard c') = Some t'"
    using assms(1-3) by (simp_all add: owned_def)
  with assms(4) show ?thesis by simp
qed

text \<open>Two calls with different mutexes can be in their critical sections at the same time.\<close>

lemma both_inside:
  assumes "guard c \<noteq> guard c'"
  shows "let s = run_schedule touches guard effect [(0, c), (0, c), (1, c'), (1, c')] (shared_start d)
         in inside (sh_phase s 0) = Some c \<and> inside (sh_phase s 1) = Some c'"
  using assms by (simp add: thread_step_def shared_start_def)

section \<open>One mutex for each container\<close>

locale guarded_calls =
  fixes touches :: "'c \<Rightarrow> 'q" and guard :: "'c \<Rightarrow> 'm" and effect :: "'c \<Rightarrow> 's \<Rightarrow> 's" and made :: "'c \<Rightarrow> bool"
  assumes same_mutex: "made c \<Longrightarrow> made c' \<Longrightarrow> touches c = touches c' \<Longrightarrow> guard c = guard c'"
begin

definition calls_made :: "('c, 'q, 'm, 's) shared \<Rightarrow> bool" where
  "calls_made s \<longleftrightarrow>
     (\<forall>t c. (sh_phase s t = Wants c \<or> inside (sh_phase s t) = Some c) \<longrightarrow> made c)"

definition fresh_reads :: "('c, 'q, 'm, 's) shared \<Rightarrow> bool" where
  "fresh_reads s \<longleftrightarrow> (\<forall>t c v. sh_phase s t = Loaded c v \<longrightarrow> v = sh_data s (touches c))"

definition serial :: "('q \<Rightarrow> 's) \<Rightarrow> ('c, 'q, 'm, 's) shared \<Rightarrow> bool" where
  "serial d s \<longleftrightarrow>
     (\<forall>q. one_by_one effect (d q) (sh_history s q) \<and> sh_data s q = after effect (d q) (sh_history s q))"

lemma calls_made_step:
  assumes "calls_made s" and "made (snd x)"
  shows "calls_made (thread_step touches guard effect x s)"
proof (cases x)
  case (Pair t n)
  have "made c" if "sh_phase s t = Wants c \<or> inside (sh_phase s t) = Some c" for c
    using assms(1) that by (auto simp: calls_made_def)
  then show ?thesis
    using assms Pair by (cases "sh_phase s t") (auto simp: calls_made_def thread_step_def)
qed

lemma exclusive:
  assumes "owned guard s" and "calls_made s" and "inside (sh_phase s t) = Some c"
    and "inside (sh_phase s t') = Some c'" and "touches c = touches c'"
  shows "t = t'"
proof -
  have "made c" "made c'" using assms(2-4) by (auto simp: calls_made_def)
  then show ?thesis using one_owner assms same_mutex by metis
qed

lemma fresh_reads_step:
  assumes "owned guard s" and "calls_made s" and "fresh_reads s"
  shows "fresh_reads (thread_step touches guard effect x s)"
proof (cases x)
  case (Pair t n)
  have other: "touches c' \<noteq> touches c"
    if "sh_phase s t = Loaded c v" "sh_phase s t' = Loaded c' v'" "t' \<noteq> t" for c v t' c' v'
    using exclusive [OF assms(1,2), of t c t' c'] that by auto
  show ?thesis
    using assms(3) other Pair
    by (cases "sh_phase s t") (auto simp: fresh_reads_def thread_step_def)
qed

lemma serial_step:
  assumes "fresh_reads s" and "serial d s"
  shows "serial d (thread_step touches guard effect x s)"
proof (cases x)
  case (Pair t n)
  show ?thesis
    using assms Pair by (cases "sh_phase s t") (auto simp: serial_def fresh_reads_def thread_step_def)
qed

lemma run_serial:
  assumes "\<forall>x \<in> set xs. made (snd x)" and "owned guard s" and "calls_made s" and "fresh_reads s"
    and "serial d s"
  shows "let s' = run_schedule touches guard effect xs s
         in owned guard s' \<and> calls_made s' \<and> fresh_reads s' \<and> serial d s'"
  using assms
  by (induction xs arbitrary: s)
    (simp_all add: owned_step calls_made_step fresh_reads_step serial_step)

lemma from_start:
  assumes "\<forall>x \<in> set xs. made (snd x)" and "s' = run_schedule touches guard effect xs (shared_start d)"
  shows "owned guard s' \<and> calls_made s' \<and> serial d s'"
proof -
  have "calls_made (shared_start d)" "fresh_reads (shared_start d)" "serial d (shared_start d)"
    by (simp_all add: calls_made_def fresh_reads_def serial_def shared_start_def)
  from run_serial [OF assms(1) owned_start this] assms(2) show ?thesis by (simp add: Let_def)
qed

text \<open>Whatever the schedule, no two threads are inside one container.\<close>

lemma never_two_inside:
  assumes "\<forall>x \<in> set xs. made (snd x)" and "s' = run_schedule touches guard effect xs (shared_start d)"
    and "inside (sh_phase s' t) = Some c" and "inside (sh_phase s' t') = Some c'" and "touches c = touches c'"
  shows "t = t'"
  using from_start [OF assms(1,2)] exclusive assms(3-5) by blast

text \<open>Whatever the schedule, the containers are as if the calls had been made one after the other.\<close>

lemma calls_take_effect_in_turn:
  assumes "\<forall>x \<in> set xs. made (snd x)" and "s' = run_schedule touches guard effect xs (shared_start d)"
  shows "one_by_one effect (d q) (sh_history s' q) \<and> sh_data s' q = after effect (d q) (sh_history s' q)"
  using from_start [OF assms] by (simp add: serial_def)

end

end
