(* ===== verification/Loop_Race.thy ===== *)
theory Loop_Race
  imports Event_Loop Guarded_Calls Posix
begin

text \<open>
  The containers of \<^verbatim>\<open>tool::Loop\<close> when other threads use them: which mutex each member
  function of \<^verbatim>\<open>src/set/loop/Loop.cpp\<close> locks and which container it changes under it.
  \<^verbatim>\<open>emplace_back\<close>, \<^verbatim>\<open>swap\<close>, \<^verbatim>\<open>emplace\<close> and \<^verbatim>\<open>pop\<close> each read the
  container and write it back; \<^theory_text>\<open>thread_step\<close> interleaves these with everything the other threads do.
\<close>

section \<open>The queues\<close>

datatype loop_queue = Queue_idle | Queue_runable

datatype loop_mutex = Idle_mut | Run_mut

datatype queue_call = Push_idle task | Push_runable task | Handle_idle | Handle_runable

text \<open>
  The arguments given to \<^verbatim>\<open>push_runnable\<close> by \<^verbatim>\<open>pushIdle\<close> and \<^verbatim>\<open>pushRunable\<close> and to
  \<^verbatim>\<open>handle_runnable\<close> by \<^verbatim>\<open>run\<close>: the container, then the mutex.
\<close>

fun queue_touches :: "queue_call \<Rightarrow> loop_queue" where
  "queue_touches (Push_idle t) = Queue_runable"
| "queue_touches (Push_runable t) = Queue_idle"
| "queue_touches Handle_idle = Queue_idle"
| "queue_touches Handle_runable = Queue_runable"

fun queue_guard :: "queue_call \<Rightarrow> loop_mutex" where
  "queue_guard (Push_idle t) = Idle_mut"
| "queue_guard (Push_runable t) = Run_mut"
| "queue_guard Handle_idle = Idle_mut"
| "queue_guard Handle_runable = Run_mut"

text \<open>\<^verbatim>\<open>push_runnable\<close> appends; \<^verbatim>\<open>handle_runnable\<close> swaps with an empty vector.\<close>

fun queue_effect :: "queue_call \<Rightarrow> task list \<Rightarrow> task list" where
  "queue_effect (Push_idle t) q = q @ [t]"
| "queue_effect (Push_runable t) q = q @ [t]"
| "queue_effect Handle_idle q = []"
| "queue_effect Handle_runable q = []"

fun is_push :: "queue_call \<Rightarrow> bool" where
  "is_push (Push_idle t) \<longleftrightarrow> True"
| "is_push (Push_runable t) \<longleftrightarrow> True"
| "is_push _ \<longleftrightarrow> False"

text \<open>What a call put into its container and what it took out.\<close>

fun queue_in :: "queue_call \<times> task list \<Rightarrow> task list" where
  "queue_in (Push_idle t, q) = [t]"
| "queue_in (Push_runable t, q) = [t]"
| "queue_in (_, q) = []"

fun queue_out :: "queue_call \<times> task list \<Rightarrow> task list" where
  "queue_out (Handle_idle, q) = q"
| "queue_out (Handle_runable, q) = q"
| "queue_out (_, q) = []"

text \<open>The loop's queues at rest and under a schedule of calls.\<close>

definition queue_run ::
  "(nat \<times> queue_call) list \<Rightarrow> (queue_call, loop_queue, loop_mutex, task list) shared" where
  "queue_run xs = run_schedule queue_touches queue_guard queue_effect xs (shared_start (\<lambda>_. []))"

text \<open>Two threads are in the same container at the same time, one of them in \<open>c\<close>, the other in \<open>c'\<close>.\<close>

definition racing :: "queue_call \<Rightarrow> queue_call \<Rightarrow> (queue_call, loop_queue, loop_mutex, task list) shared \<Rightarrow> bool" where
  "racing c c' s \<longleftrightarrow> queue_touches c = queue_touches c' \<and>
     (\<exists>t t'. t \<noteq> t' \<and> inside (sh_phase s t) = Some c \<and> inside (sh_phase s t') = Some c')"

text \<open>The calls of threads other than the loop's are pushes; among themselves they are safe.\<close>

interpretation pushes: guarded_calls queue_touches queue_guard queue_effect is_push
proof
  fix c c'
  assume "is_push c" "is_push c'" "queue_touches c = queue_touches c'"
  then show "queue_guard c = queue_guard c'" by (cases c; cases c') simp_all
qed

text \<open>The two calls of \<^verbatim>\<open>run\<close> on the queues are safe among themselves too.\<close>

interpretation handlers: guarded_calls queue_touches queue_guard queue_effect "\<lambda>c. \<not> is_push c"
proof
  fix c c'
  assume "\<not> is_push c" "\<not> is_push c'" "queue_touches c = queue_touches c'"
  then show "queue_guard c = queue_guard c'" by (cases c; cases c') simp_all
qed

text \<open>With the mutexes of the two push functions exchanged, all calls are safe.\<close>

fun matching_guard :: "queue_call \<Rightarrow> loop_mutex" where
  "matching_guard (Push_idle t) = Run_mut"
| "matching_guard (Push_runable t) = Idle_mut"
| "matching_guard Handle_idle = Idle_mut"
| "matching_guard Handle_runable = Run_mut"

interpretation matching: guarded_calls queue_touches matching_guard queue_effect "\<lambda>_. True"
proof
  fix c c'
  assume "queue_touches c = queue_touches c'"
  then show "matching_guard c = matching_guard c'" by (cases c; cases c') simp_all
qed

section \<open>The timers\<close>

datatype timer_call = Run_at timer | Handle_timer u64

fun timer_effect :: "timer_call \<Rightarrow> timer list \<Rightarrow> timer list" where
  "timer_effect (Run_at e) q = pq_push e q"
| "timer_effect (Handle_timer now) q = dropWhile (\<lambda>e. t_stamp e \<le> now) q"





text \<open>
  \<open>timer_effect\<close> is what the loop's own function does to the timers, when no callback
  deadlocks it.
\<close>

lemma handle_timer_effect:
  assumes "pq_inv (l_timers s)" and "\<forall>e \<in> set (l_timers s). t_stamp e \<le> now \<longrightarrow> \<not> rearms (t_task e)"
    and "handle_timer now s = Inr s'"
  shows "l_timers s' = timer_effect (Handle_timer now) (l_timers s)"
proof -
  let ?due = "filter (\<lambda>e. t_stamp e \<le> now) (l_timers s)"
  let ?later = "filter (\<lambda>e. now < t_stamp e) (l_timers s)"
  have split: "l_timers s = ?due @ ?later" using assms(1) by (rule sorted_timers_split)
  have "l_timers s' = ?later"
    using timer_loop_fires [OF split, of now "l_outtime s"] assms(2,3) by (auto simp: handle_timer_def)
  moreover have "dropWhile (\<lambda>e. t_stamp e \<le> now) ?later = ?later"
    by (cases ?later) (auto simp: filter_eq_Cons_iff)
  then have "dropWhile (\<lambda>e. t_stamp e \<le> now) (?due @ ?later) = ?later"
    by (subst dropWhile_append2) auto
  ultimately show ?thesis using split by simp
qed

lemma run_at_effect:
  "run_at False stamp t s = Inr s' \<Longrightarrow>
     l_timers s' = timer_effect (Run_at \<lparr>t_stamp = stamp, t_task = t\<rparr>) (l_timers s)"
  by (auto simp: run_at_def)


section \<open>The clock\<close>

text \<open>\<^verbatim>\<open>get_current_timestamp\<close>: the microseconds, with what \<^verbatim>\<open>gettimeofday\<close> stored as argument.\<close>

definition get_current_timestamp :: "timeval \<Rightarrow> u64" where
  "get_current_timestamp val = word_of_int (tv_sec val * 1000000 + tv_usec val)"

lemma queue_run_owned: "owned queue_guard (queue_run xs)"
  by (simp add: queue_run_def owned_run owned_start)

lemma queue_accounts:
  "one_by_one queue_effect q h \<Longrightarrow>
     q @ concat (map queue_in h) = concat (map queue_out h) @ after queue_effect q h"
proof (induction h arbitrary: q)
  case (Cons x h)
  obtain c v where x: "x = (c, v)" by (cases x)
  have v: "v = q" and rest: "one_by_one queue_effect (queue_effect c q) h" using Cons.prems by (auto simp: x)
  have "q @ queue_in x = queue_out x @ queue_effect c q" by (cases c) (simp_all add: x v)
  with Cons.IH [OF rest] show ?case by (simp add: x) (metis append.assoc)
qed simp

lemma timestamps_ordered:
  assumes "0 \<le> tv_sec a" "0 \<le> tv_usec a" "tv_usec a < 1000000" "tv_sec a < 2 ^ 43"
    and "0 \<le> tv_sec b" "0 \<le> tv_usec b" "tv_usec b < 1000000" "tv_sec b < 2 ^ 43"
  shows "get_current_timestamp a \<le> get_current_timestamp b \<longleftrightarrow>
           tv_sec a < tv_sec b \<or> tv_sec a = tv_sec b \<and> tv_usec a \<le> tv_usec b"
proof -
  have stamp: "uint (get_current_timestamp v) = tv_sec v * 1000000 + tv_usec v"
    if "0 \<le> tv_sec v" "0 \<le> tv_usec v" "tv_usec v < 1000000" "tv_sec v < 2 ^ 43" for v
    unfolding get_current_timestamp_def using that
    by (subst uint_word_of_int_eq) (simp add: take_bit_int_eq_self)
  show ?thesis using assms by (auto simp: word_le_def stamp)
qed

lemma matching_mutexes_keep_tasks:
  assumes "s = run_schedule queue_touches matching_guard queue_effect xs (shared_start (\<lambda>_. []))"
  shows "concat (map queue_in (sh_history s q)) = concat (map queue_out (sh_history s q)) @ sh_data s q"
  using matching.calls_take_effect_in_turn [OF _ assms, of q] queue_accounts [of "[]" "sh_history s q"] by simp

section \<open>Properties\<close>

text \<open>
  C15: exactly which calls on a running loop race.  Over all schedules of any number of threads,
  two threads can be in one of the queues at the same time precisely when one of them is in
  \<^verbatim>\<open>pushIdle\<close> and the loop takes the runnable tasks, or one is in \<^verbatim>\<open>pushRunable\<close>
  and the loop takes the idle tasks; pushes never race with each other, nor does the loop
  with itself.
\<close>

theorem loop_races_exactly:
  "(\<exists>xs. racing c c' (queue_run xs)) \<longleftrightarrow>
     (\<exists>t. {c, c'} = {Push_idle t, Handle_runable} \<or> {c, c'} = {Push_runable t, Handle_idle})"
proof -
  have "racing c c' (queue_run xs) \<Longrightarrow> queue_guard c \<noteq> queue_guard c'" for xs
    using one_owner [OF queue_run_owned] by (auto simp: racing_def)
  moreover have "racing c c' (queue_run [(0, c), (0, c), (1, c'), (1, c')])"
    if "queue_touches c = queue_touches c'" "queue_guard c \<noteq> queue_guard c'"
    using both_inside [where guard = queue_guard, OF that(2), of queue_touches queue_effect "\<lambda>_. []"] that(1)
    unfolding racing_def queue_run_def Let_def by (metis zero_neq_one)
  ultimately have "(\<exists>xs. racing c c' (queue_run xs)) \<longleftrightarrow>
      queue_touches c = queue_touches c' \<and> queue_guard c \<noteq> queue_guard c'"
    by (auto simp: racing_def)
  also have "\<dots> \<longleftrightarrow> (\<exists>t. {c, c'} = {Push_idle t, Handle_runable} \<or> {c, c'} = {Push_runable t, Handle_idle})"
    by (cases c; cases c') (auto simp: doubleton_eq_iff)
  finally show ?thesis .
qed

text \<open>
  Such a race can lose a task: \<^verbatim>\<open>pushIdle\<close> has returned, no thread is in a call, and the
  task is neither in the queue nor among those the loop took out to run.
\<close>

theorem race_loses_task:
  "\<exists>xs. let s = queue_run xs in
     sh_phase s 0 = Away \<and> sh_phase s 1 = Away \<and> (Push_idle t, []) \<in> set (sh_history s Queue_runable) \<and>
     sh_data s Queue_runable = [] \<and> concat (map queue_out (sh_history s Queue_runable)) = []"
proof -
  let ?p = "(1 :: nat, Push_idle t)" and ?h = "(0 :: nat, Handle_runable)"
  have "let s = queue_run [?p, ?p, ?p, ?h, ?h, ?h, ?p, ?p, ?h, ?h] in
     sh_phase s 0 = Away \<and> sh_phase s 1 = Away \<and> (Push_idle t, []) \<in> set (sh_history s Queue_runable) \<and>
     sh_data s Queue_runable = [] \<and> concat (map queue_out (sh_history s Queue_runable)) = []"
    by (simp add: queue_run_def thread_step_def shared_start_def)
  then show ?thesis by blast
qed



end
