(* ===== verification/Loop_Quit.thy ===== *)
theory Loop_Quit
  imports Event_Loop
begin

text \<open>
  \<^verbatim>\<open>Loop::run\<close> of \<^verbatim>\<open>src/set/loop/Loop.cpp\<close> when other threads call the loop at any time.
  \<^verbatim>\<open>run\<close> is cut where other threads can come in between: the store to \<^verbatim>\<open>is_quit_\<close> it begins
  with, the test of \<^verbatim>\<open>is_quit_\<close>, and the four parts of a round.  \<^verbatim>\<open>is_quit_\<close> is a plain
  \<^verbatim>\<open>bool\<close> that \<^verbatim>\<open>quit\<close> stores to without a lock, which the language calls a data race; here
  its loads and stores happen one after the other, the best the program can hope for.
\<close>

datatype loop_pc = Entering | Testing | At_idle | At_io | At_timer | At_runable | Finished

record running =
  run_pc :: loop_pc
  run_loop :: loop_state

text \<open>
  A step of the loop's thread comes with the clock it reads and the calls of the I/O handler;
  other threads make one call.
\<close>

datatype loop_event = Loop_step u64 "u64 \<Rightarrow> action list" | Other_call action

definition goto :: "loop_pc \<Rightarrow> loop_state \<Rightarrow> cxx_error + running" where
  "goto pc s = Inr \<lparr>run_pc = pc, run_loop = s\<rparr>"

fun loop_event_step :: "loop_event \<Rightarrow> running \<Rightarrow> cxx_error + running" where
  "loop_event_step (Other_call a) r =
     and_then (run_action False a (run_loop r)) (\<lambda>s. Inr (r\<lparr>run_loop := s\<rparr>))"
| "loop_event_step (Loop_step clock io) r =
     (let s = run_loop r in
      case run_pc r of
        Entering \<Rightarrow> goto Testing (s\<lparr>l_quit := False\<rparr>)
      | Testing \<Rightarrow> goto (if l_quit s then Finished else At_idle) s
      | At_idle \<Rightarrow> and_then (handle_idle s) (goto At_io)
      | At_io \<Rightarrow> and_then (if l_io s then run_actions False (io (get_outtime clock s)) s else Inr s) (goto At_timer)
      | At_timer \<Rightarrow> and_then (handle_timer clock s) (goto At_runable)
      | At_runable \<Rightarrow> and_then (handle_runable s) (goto Testing)
      | Finished \<Rightarrow> Inr r)"

fun loop_events :: "loop_event list \<Rightarrow> running \<Rightarrow> cxx_error + running" where
  "loop_events [] r = Inr r"
| "loop_events (e # es) r = and_then (loop_event_step e r) (loop_events es)"

definition run_start :: "loop_state \<Rightarrow> running" where
  "run_start s = \<lparr>run_pc = Entering, run_loop = s\<rparr>"

section \<open>Lemmas\<close>

lemma loop_events_append:
  "loop_events (es @ es') r = and_then (loop_events es r) (loop_events es')"
  by (induction es arbitrary: r) (auto simp: and_then_assoc intro: and_then_cong)

subsection \<open>A set flag stays set\<close>

lemma run_action_quit: "run_action False a s = Inr s' \<Longrightarrow> l_quit s \<or> a = Quit \<Longrightarrow> l_quit s'"
  by (cases a) (auto simp: push_idle_def push_runable_def run_at_def quit_def)

lemma handle_quit:
  "handle_idle s = Inr s' \<Longrightarrow> l_quit s \<Longrightarrow> l_quit s'"
  "handle_runable s = Inr s' \<Longrightarrow> l_quit s \<Longrightarrow> l_quit s'"
  by (auto simp: handle_idle_def handle_runable_def run_tasks_effect)

text \<open>How many steps of its own the loop's thread needs until it has tested the flag.\<close>

fun steps_to_end :: "loop_pc \<Rightarrow> nat" where
  "steps_to_end Entering = 6"
| "steps_to_end At_idle = 5"
| "steps_to_end At_io = 4"
| "steps_to_end At_timer = 3"
| "steps_to_end At_runable = 2"
| "steps_to_end Testing = 1"
| "steps_to_end Finished = 0"

fun is_loop_step :: "loop_event \<Rightarrow> bool" where
  "is_loop_step (Loop_step clock io) \<longleftrightarrow> True"
| "is_loop_step (Other_call a) \<longleftrightarrow> False"

lemma quit_step:
  assumes "loop_event_step e r = Inr r'" and "run_pc r \<noteq> Entering" and "l_quit (run_loop r)"
  shows "run_pc r' \<noteq> Entering \<and> l_quit (run_loop r') \<and>
     steps_to_end (run_pc r') = steps_to_end (run_pc r) - (if is_loop_step e then 1 else 0)"
proof (cases e)
  case (Other_call a)
  then show ?thesis using assms run_action_quit [of a "run_loop r"] by (auto simp: and_then_Inr_iff)
next
  case (Loop_step clock io)
  then show ?thesis
    using assms handle_quit handle_timer_quit
    by (cases "run_pc r")
      (auto simp: and_then_Inr_iff goto_def Let_def run_actions_unlocked split: if_splits)
qed

lemma quit_steps:
  assumes "loop_events es r = Inr r'" and "run_pc r \<noteq> Entering" and "l_quit (run_loop r)"
  shows "run_pc r' \<noteq> Entering \<and> l_quit (run_loop r') \<and>
     steps_to_end (run_pc r') = steps_to_end (run_pc r) - length (filter is_loop_step es)"
  using assms
proof (induction es arbitrary: r)
  case (Cons e es)
  from Cons.prems(1) obtain r1 where "loop_event_step e r = Inr r1" "loop_events es r1 = Inr r'"
    by (auto simp: and_then_Inr_iff)
  with Cons.IH quit_step [OF _ Cons.prems(2,3)] show ?case by auto
qed simp

lemma steps_to_end_bounds: "pc \<noteq> Entering \<Longrightarrow> steps_to_end pc \<le> 5" "steps_to_end pc = 0 \<longleftrightarrow> pc = Finished"
  by (cases pc; simp)+

subsection \<open>Nobody quits\<close>

text \<open>A task that calls \<^verbatim>\<open>quit\<close>, or queues one that does.\<close>

fun action_quits :: "action \<Rightarrow> bool" and task_quits :: "task \<Rightarrow> bool" where
  "action_quits (PushIdle t) \<longleftrightarrow> task_quits t"
| "action_quits (PushRunable t) \<longleftrightarrow> task_quits t"
| "action_quits (RunAt stamp t) \<longleftrightarrow> task_quits t"
| "action_quits Quit \<longleftrightarrow> True"
| "task_quits (Task n as) \<longleftrightarrow> (\<exists>a \<in> set as. action_quits a)"

text \<open>No queued task quits.\<close>

definition calm :: "loop_state \<Rightarrow> bool" where
  "calm s \<longleftrightarrow> (\<forall>t \<in> set (l_idle s) \<union> set (l_runable s) \<union> t_task ` set (l_timers s). \<not> task_quits t)"

lemma calm_update [simp]: "calm (s\<lparr>l_quit := q\<rparr>) \<longleftrightarrow> calm s" "calm (s\<lparr>l_log := l\<rparr>) \<longleftrightarrow> calm s"
  "calm (s\<lparr>l_outtime := u\<rparr>) \<longleftrightarrow> calm s"
  by (simp_all add: calm_def)

lemma task_quits_actions: "task_quits t \<longleftrightarrow> (\<exists>a \<in> set (task_actions t). action_quits a)"
  by (cases t) simp

lemma pushes_quit:
  "t \<in> set (idle_pushes a) \<Longrightarrow> task_quits t \<Longrightarrow> action_quits a"
  "t \<in> set (runable_pushes a) \<Longrightarrow> task_quits t \<Longrightarrow> action_quits a"
  "e \<in> set (timer_pushes a) \<Longrightarrow> task_quits (t_task e) \<Longrightarrow> action_quits a"
  by (cases a; simp)+

lemma set_fold_push: "set (fold pq_push es q) = set es \<union> set q"
  by (induction es arbitrary: q) (auto simp: pq_push_def set_insort_key)

lemma calm_effect:
  assumes "calm s" and "\<not> l_quit s" and "\<forall>a \<in> set as. \<not> action_quits a"
  shows "calm (effect_of as s) \<and> \<not> l_quit (effect_of as s)"
proof -
  have "Quit \<notin> set as" using assms(3) by auto
  then show ?thesis
    using assms pushes_quit by (fastforce simp: calm_def effect_of_def set_fold_push)
qed

lemma calm_handle:
  assumes "calm s" and "\<not> l_quit s"
  shows "handle_idle s = Inr s' \<Longrightarrow> calm s' \<and> \<not> l_quit s'"
    and "handle_runable s = Inr s' \<Longrightarrow> calm s' \<and> \<not> l_quit s'"
    and "handle_timer clock s = Inr s' \<Longrightarrow> calm s' \<and> \<not> l_quit s'"
proof -
  have quiet: "\<forall>a \<in> set (concat (map task_actions (l_idle s))). \<not> action_quits a"
    "\<forall>a \<in> set (concat (map task_actions (l_runable s))). \<not> action_quits a"
    using assms(1) by (auto simp: calm_def task_quits_actions)
  have taken: "calm (s\<lparr>l_idle := [], l_log := l\<rparr>)" "calm (s\<lparr>l_runable := [], l_log := l\<rparr>)" for l
    using assms(1) by (auto simp: calm_def)
  show "handle_idle s = Inr s' \<Longrightarrow> calm s' \<and> \<not> l_quit s'"
    using calm_effect [OF taken(1) _ quiet(1)] assms(2) by (auto simp: handle_idle_def run_tasks_effect)
  show "handle_runable s = Inr s' \<Longrightarrow> calm s' \<and> \<not> l_quit s'"
    using calm_effect [OF taken(2) _ quiet(2)] assms(2) by (auto simp: handle_runable_def run_tasks_effect)
  show "calm s' \<and> \<not> l_quit s'" if "handle_timer clock s = Inr s'"
    using that
  proof (rule handle_timer_keeps)
    fix u e es
    assume u: "calm u \<and> \<not> l_quit u" and timers: "l_timers u = e # es"
    then have "\<forall>a \<in> set (task_actions (t_task e)). \<not> action_quits a"
      by (auto simp: calm_def task_quits_actions)
    then have "calm (effect_of (task_actions (t_task e)) (u\<lparr>l_log := l_log u @ [task_name (t_task e)]\<rparr>)) \<and>
        \<not> l_quit (effect_of (task_actions (t_task e)) (u\<lparr>l_log := l_log u @ [task_name (t_task e)]\<rparr>))"
      using u by (intro calm_effect) simp_all
    then show "calm ((effect_of (task_actions (t_task e)) (u\<lparr>l_log := l_log u @ [task_name (t_task e)]\<rparr>))\<lparr>l_timers := es\<rparr>) \<and>
        \<not> l_quit ((effect_of (task_actions (t_task e)) (u\<lparr>l_log := l_log u @ [task_name (t_task e)]\<rparr>))\<lparr>l_timers := es\<rparr>)"
      using timers by (auto simp: calm_def effect_of_def set_fold_push)
  qed (use assms in simp_all)
qed

text \<open>Neither the other threads nor the I/O handler quit, or queue anything that does.\<close>

fun event_quits :: "loop_event \<Rightarrow> bool" where
  "event_quits (Other_call a) \<longleftrightarrow> action_quits a"
| "event_quits (Loop_step clock io) \<longleftrightarrow> (\<exists>out. \<exists>a \<in> set (io out). action_quits a)"

lemma calm_step:
  assumes "loop_event_step e r = Inr r'" and "\<not> event_quits e" and "calm (run_loop r)"
    and "run_pc r \<noteq> Entering \<longrightarrow> \<not> l_quit (run_loop r)" and "run_pc r \<noteq> Finished"
  shows "calm (run_loop r') \<and> (run_pc r' \<noteq> Entering \<longrightarrow> \<not> l_quit (run_loop r')) \<and> run_pc r' \<noteq> Finished"
proof (cases e)
  case (Other_call a)
  with assms(1) obtain s where s: "run_actions False [a] (run_loop r) = Inr s" "r' = r\<lparr>run_loop := s\<rparr>"
    by (auto simp: and_then_Inr_iff)
  have "calm s" and "\<not> l_quit (run_loop r) \<Longrightarrow> \<not> l_quit s"
    using s(1) assms(2,3) Other_call calm_effect [of "(run_loop r)\<lparr>l_quit := False\<rparr>" "[a]"]
    by (auto simp: run_actions_unlocked effect_of_def calm_def simp del: run_actions.simps)
  then show ?thesis using s(2) assms(4,5) by auto
next
  case (Loop_step clock io)
  have io: "calm (effect_of (io out) (run_loop r)) \<and> \<not> l_quit (effect_of (io out) (run_loop r))"
    if "\<not> l_quit (run_loop r)" for out
    by (rule calm_effect [OF assms(3) that]) (use assms(2) Loop_step in auto)
  note calm = calm_handle [OF assms(3)]
  show ?thesis
  proof (cases "run_pc r")
    case At_io
    then show ?thesis using assms(1,3,4) Loop_step io
      by (auto simp: and_then_Inr_iff goto_def Let_def run_actions_unlocked simp del: effect_of_fields split: if_splits)
  next
    case At_idle
    then obtain s' where "handle_idle (run_loop r) = Inr s'" "r' = \<lparr>run_pc = At_io, run_loop = s'\<rparr>"
      using assms(1) Loop_step by (auto simp: and_then_Inr_iff goto_def Let_def)
    then show ?thesis using calm(1) [of s'] assms(4) At_idle by simp
  next
    case At_timer
    then obtain s' where "handle_timer clock (run_loop r) = Inr s'" "r' = \<lparr>run_pc = At_runable, run_loop = s'\<rparr>"
      using assms(1) Loop_step by (auto simp: and_then_Inr_iff goto_def Let_def)
    then show ?thesis using calm(3) [of clock s'] assms(4) At_timer by simp
  next
    case At_runable
    then obtain s' where "handle_runable (run_loop r) = Inr s'" "r' = \<lparr>run_pc = Testing, run_loop = s'\<rparr>"
      using assms(1) Loop_step by (auto simp: and_then_Inr_iff goto_def Let_def)
    then show ?thesis using calm(2) [of s'] assms(4) At_runable by simp
  qed (use assms(1,3-5) Loop_step in \<open>auto simp: goto_def Let_def\<close>)
qed

lemma calm_steps:
  assumes "loop_events es r = Inr r'" and "\<forall>e \<in> set es. \<not> event_quits e" and "calm (run_loop r)"
    and "run_pc r \<noteq> Entering \<longrightarrow> \<not> l_quit (run_loop r)" and "run_pc r \<noteq> Finished"
  shows "calm (run_loop r') \<and> (run_pc r' \<noteq> Entering \<longrightarrow> \<not> l_quit (run_loop r')) \<and> run_pc r' \<noteq> Finished"
  using assms
proof (induction es arbitrary: r)
  case (Cons e es)
  from Cons.prems(1) obtain r1 where r1: "loop_event_step e r = Inr r1" "loop_events es r1 = Inr r'"
    by (auto simp: and_then_Inr_iff)
  from calm_step [OF r1(1) _ Cons.prems(3-5)] Cons.prems(2)
  have "calm (run_loop r1) \<and> (run_pc r1 \<noteq> Entering \<longrightarrow> \<not> l_quit (run_loop r1)) \<and> run_pc r1 \<noteq> Finished" by simp
  then show ?case using Cons.IH [OF r1(2)] Cons.prems(2) by simp
qed simp

subsection \<open>Before run begins\<close>

lemma entering_step:
  "loop_event_step e r = Inr r' \<Longrightarrow> run_pc r' = Entering \<longleftrightarrow> run_pc r = Entering \<and> \<not> is_loop_step e"
  by (cases e; cases "run_pc r") (auto simp: and_then_Inr_iff goto_def Let_def split: if_splits)

lemma entering_steps:
  assumes "loop_events es r = Inr r'"
  shows "run_pc r' = Entering \<longleftrightarrow> run_pc r = Entering \<and> (\<forall>e \<in> set es. \<not> is_loop_step e)"
  using assms
proof (induction es arbitrary: r)
  case (Cons e es)
  from Cons.prems obtain r1 where "loop_event_step e r = Inr r1" "loop_events es r1 = Inr r'"
    by (auto simp: and_then_Inr_iff)
  with Cons.IH entering_step show ?case by auto
qed simp

text \<open>Calls of \<^verbatim>\<open>quit\<close> before \<^verbatim>\<open>run\<close>, and calls that quit nothing.\<close>

definition early :: "loop_event \<Rightarrow> bool" where
  "early e \<longleftrightarrow> (\<exists>a. e = Other_call a \<and> (a = Quit \<or> \<not> action_quits a))"

lemma early_steps:
  assumes "loop_events es r = Inr r'" and "\<forall>e \<in> set es. early e" and "calm (run_loop r)" and "run_pc r = Entering"
  shows "calm (run_loop r') \<and> run_pc r' = Entering"
  using assms
proof (induction es arbitrary: r)
  case (Cons e es)
  from Cons.prems(1) obtain r1 where r1: "loop_event_step e r = Inr r1" "loop_events es r1 = Inr r'"
    by (auto simp: and_then_Inr_iff)
  from Cons.prems(2) obtain a where e: "e = Other_call a" "a = Quit \<or> \<not> action_quits a" by (auto simp: early_def)
  have "calm (run_loop r1) \<and> run_pc r1 = Entering"
  proof (cases "a = Quit")
    case True
    then show ?thesis using r1(1) e(1) Cons.prems(3,4) by (auto simp: quit_def)
  next
    case False
    then show ?thesis using calm_step [OF r1(1) _ Cons.prems(3)] entering_step [OF r1(1)] e Cons.prems(4) by auto
  qed
  then show ?case using Cons.IH [OF r1(2)] Cons.prems(2) by simp
qed simp

text \<open>A round nobody disturbs is the round of the sequential model.\<close>

lemma undisturbed_round:
  assumes "\<not> l_quit s"
  shows "loop_events [Loop_step c0 io, Loop_step c1 io, Loop_step (env_clock_io env) (env_io env),
      Loop_step (env_clock_timer env) io, Loop_step c2 io] \<lparr>run_pc = Testing, run_loop = s\<rparr> =
    and_then (loop_round env s) (goto Testing)"
  using assms
  by (simp add: goto_def [abs_def] loop_round_def handle_io_source_def and_then_assoc)

section \<open>Properties\<close>

text \<open>
  C14: which calls of \<^verbatim>\<open>quit\<close> end the loop, in every interleaving with the calls of other threads.
  A call made after \<^verbatim>\<open>run\<close> has begun ends it within five steps of the loop's own thread, that is,
  after the round it is in and at most the rest of that round's work, and then the destructor's
  assertion holds.  Calls made before \<^verbatim>\<open>run\<close> begins are lost: if nothing quits afterwards the loop
  never ends, and destroying it fails.
\<close>

theorem quit_noticed_exactly:
  assumes "calm s"
  shows "(\<forall>pre post r. (\<exists>e \<in> set pre. is_loop_step e) \<longrightarrow> 5 \<le> length (filter is_loop_step post) \<longrightarrow>
       loop_events (pre @ Other_call Quit # post) (run_start s) = Inr r \<longrightarrow>
       run_pc r = Finished \<and> loop_destroy (run_loop r) = Inr ()) \<and>
    (\<forall>pre post r. (\<forall>e \<in> set pre. early e) \<longrightarrow> (\<forall>e \<in> set post. \<not> event_quits e) \<longrightarrow>
       loop_events (pre @ post) (run_start s) = Inr r \<longrightarrow>
       run_pc r \<noteq> Finished \<and> ((\<exists>e \<in> set post. is_loop_step e) \<longrightarrow> loop_destroy (run_loop r) = Inl AssertionFailed))"
proof (intro conjI allI impI)
  fix pre post r
  assume begun: "\<exists>e \<in> set pre. is_loop_step e" and steps: "5 \<le> length (filter is_loop_step post)"
    and run: "loop_events (pre @ Other_call Quit # post) (run_start s) = Inr r"
  from run obtain r1 where r1: "loop_events pre (run_start s) = Inr r1"
    and rest: "loop_events post (r1\<lparr>run_loop := quit (run_loop r1)\<rparr>) = Inr r"
    by (auto simp: loop_events_append and_then_Inr_iff)
  have "run_pc r1 \<noteq> Entering" using entering_steps [OF r1] begun by auto
  from quit_steps [OF rest] this steps_to_end_bounds(1) [OF this] steps
  have "l_quit (run_loop r)" "steps_to_end (run_pc r) = 0" by (auto simp: quit_def)
  then show "run_pc r = Finished" "loop_destroy (run_loop r) = Inr ()"
    by (simp_all add: steps_to_end_bounds(2) loop_destroy_def assert_that_def)
next
  fix pre post r
  assume pre: "\<forall>e \<in> set pre. early e" and post: "\<forall>e \<in> set post. \<not> event_quits e"
    and run: "loop_events (pre @ post) (run_start s) = Inr r"
  from run obtain r1 where r1: "loop_events pre (run_start s) = Inr r1" "loop_events post r1 = Inr r"
    by (auto simp: loop_events_append and_then_Inr_iff)
  have "calm (run_loop r1)" "run_pc r1 = Entering"
    using early_steps [OF r1(1) pre] assms by (simp_all add: run_start_def)
  then have end_state: "run_pc r \<noteq> Entering \<longrightarrow> \<not> l_quit (run_loop r)" "run_pc r \<noteq> Finished"
    using calm_steps [OF r1(2) post] by simp_all
  then show "run_pc r \<noteq> Finished" by simp
  assume "\<exists>e \<in> set post. is_loop_step e"
  then have "run_pc r \<noteq> Entering" using entering_steps [OF r1(2)] by auto
  with end_state(1) show "loop_destroy (run_loop r) = Inl AssertionFailed"
    by (simp add: loop_destroy_def assert_that_def)
qed

text \<open>One thread quits a new loop before it runs, another one while it waits for input.\<close>

theorem quit_noticed_exactly_witness:
  "\<exists>r r'. loop_events (Other_call Quit # replicate 12 (Loop_step 0 (\<lambda>_. []))) (run_start loop_new) = Inr r \<and>
     run_pc r \<noteq> Finished \<and>
     loop_events (replicate 3 (Loop_step 0 (\<lambda>_. [])) @ Other_call Quit # replicate 5 (Loop_step 0 (\<lambda>_. []))) (run_start loop_new) = Inr r' \<and>
     run_pc r' = Finished"
proof -
  let ?e = "Loop_step 0 (\<lambda>_. [])"
  have calm: "calm loop_new" by (simp add: calm_def loop_new_def)
  have "\<exists>r. loop_events (Other_call Quit # replicate 12 ?e) (run_start loop_new) = Inr r"
    "\<exists>r. loop_events (replicate 3 ?e @ Other_call Quit # replicate 5 ?e) (run_start loop_new) = Inr r"
    by (simp_all add: run_start_def loop_new_def goto_def quit_def handle_idle_def handle_runable_def handle_timer_def
        timer_loop_done numeral_eq_Suc)
  then obtain r r' where r: "loop_events ([Other_call Quit] @ replicate 12 ?e) (run_start loop_new) = Inr r"
    and r': "loop_events (replicate 3 ?e @ Other_call Quit # replicate 5 ?e) (run_start loop_new) = Inr r'" by auto
  have lost: "\<forall>e \<in> set [Other_call Quit]. early e" "\<forall>e \<in> set (replicate 12 ?e). \<not> event_quits e"
    by (simp_all add: early_def)
  have seen: "\<exists>e \<in> set (replicate 3 ?e). is_loop_step e" "5 \<le> length (filter is_loop_step (replicate 5 ?e))"
    by simp_all
  note exact = quit_noticed_exactly [OF calm]
  have "run_pc r \<noteq> Finished" using conjunct2 [OF exact] lost r by blast
  moreover have "run_pc r' = Finished" using conjunct1 [OF exact] seen r' by blast
  ultimately show ?thesis using r r' unfolding append_Cons append_Nil by blast
qed

end
