(* ===== verification/Binary_Heap.thy ===== *)
theory Binary_Heap
  imports Timer_Queue
begin

text \<open>
  \<^verbatim>\<open>std::priority_queue\<close> on a vector, as the C++ library implements it and as \<^verbatim>\<open>Loop::timer_\<close>
  instantiates it (\<^verbatim>\<open>std::greater\<close>, so the least element is on top): \<^verbatim>\<open>push\<close> is
  \<^verbatim>\<open>push_back\<close> and \<^verbatim>\<open>push_heap\<close>, \<^verbatim>\<open>pop\<close> is \<^verbatim>\<open>pop_heap\<close> and \<^verbatim>\<open>pop_back\<close>.  A hole is moved
  through the vector: \<open>hole_up\<close> is the loop of \<^verbatim>\<open>__push_heap\<close>, \<open>hole_down\<close> the one of
  \<^verbatim>\<open>__adjust_heap\<close>, which first carries the hole to a leaf along the smaller children and then lets
  the last element rise from there.
\<close>

section \<open>The operations\<close>

function hole_up :: "('a \<Rightarrow> 'k::linorder) \<Rightarrow> 'a list \<Rightarrow> nat \<Rightarrow> 'a \<Rightarrow> 'a list" where
  "hole_up key xs hole v =
     (if 0 < hole \<and> key v < key (xs ! ((hole - 1) div 2))
      then hole_up key (xs[hole := xs ! ((hole - 1) div 2)]) ((hole - 1) div 2) v
      else xs[hole := v])"
  by pat_completeness auto
termination by (relation "measure (\<lambda>(key, xs, hole, v). hole)") auto

function hole_down :: "('a \<Rightarrow> 'k::linorder) \<Rightarrow> 'a list \<Rightarrow> nat \<Rightarrow> 'a list \<times> nat" where
  "hole_down key xs hole =
     (if hole < (length xs - 1) div 2
      then let s = 2 * (hole + 1);
               c = (if key (xs ! (s - 1)) < key (xs ! s) then s - 1 else s)
           in hole_down key (xs[hole := xs ! c]) c
      else if even (length xs) \<and> hole = (length xs - 2) div 2
      then (xs[hole := xs ! (2 * hole + 1)], 2 * hole + 1)
      else (xs, hole))"
  by pat_completeness auto
termination by (relation "measure (\<lambda>(key, xs, hole). length xs - hole)") auto

declare hole_up.simps [simp del] hole_down.simps [simp del]

definition heap_empty :: "'a list \<Rightarrow> bool" where
  "heap_empty q \<longleftrightarrow> q = []"

definition heap_push :: "('a \<Rightarrow> 'k::linorder) \<Rightarrow> 'a \<Rightarrow> 'a list \<Rightarrow> 'a list" where
  "heap_push key x q = hole_up key (q @ [x]) (length q) x"

definition heap_top :: "'a list \<Rightarrow> 'a" where
  "heap_top q = q ! 0"

definition heap_pop :: "('a \<Rightarrow> 'k::linorder) \<Rightarrow> 'a list \<Rightarrow> 'a list" where
  "heap_pop key q =
     (if 1 < length q
      then let (xs, hole) = hole_down key (butlast q) 0 in hole_up key xs hole (last q)
      else butlast q)"

section \<open>The order of a heap\<close>

text \<open>
  \<open>edge\<close> is the order between an entry and its parent.  A heap has all edges; a vector with a
  hole has those that do not touch the hole, and the hole's children are not below its parent.
\<close>

definition edge :: "('a \<Rightarrow> 'k::linorder) \<Rightarrow> 'a list \<Rightarrow> nat \<Rightarrow> bool" where
  "edge key xs i \<longleftrightarrow> key (xs ! ((i - 1) div 2)) \<le> key (xs ! i)"

definition is_heap :: "('a \<Rightarrow> 'k::linorder) \<Rightarrow> 'a list \<Rightarrow> bool" where
  "is_heap key xs \<longleftrightarrow> (\<forall>i < length xs. 0 < i \<longrightarrow> edge key xs i)"

definition bridged :: "('a \<Rightarrow> 'k::linorder) \<Rightarrow> 'a list \<Rightarrow> nat \<Rightarrow> bool" where
  "bridged key xs h \<longleftrightarrow>
     (\<forall>i < length xs. 0 < i \<and> (i - 1) div 2 = h \<and> 0 < h \<longrightarrow> key (xs ! ((h - 1) div 2)) \<le> key (xs ! i))"

definition holed :: "('a \<Rightarrow> 'k::linorder) \<Rightarrow> 'a list \<Rightarrow> nat \<Rightarrow> bool" where
  "holed key xs h \<longleftrightarrow> bridged key xs h \<and>
     (\<forall>i < length xs. 0 < i \<and> i \<noteq> h \<and> (i - 1) div 2 \<noteq> h \<longrightarrow> edge key xs i)"

text \<open>What the rising value needs: it is not above the children of the hole.\<close>

definition risen :: "('a \<Rightarrow> 'k::linorder) \<Rightarrow> 'a list \<Rightarrow> nat \<Rightarrow> 'a \<Rightarrow> bool" where
  "risen key xs h v \<longleftrightarrow> holed key xs h \<and> h < length xs \<and>
     (\<forall>i < length xs. 0 < i \<and> (i - 1) div 2 = h \<longrightarrow> key v \<le> key (xs ! i))"

lemma parent_less: "0 < i \<Longrightarrow> (i - 1) div 2 < (i::nat)"
  by simp

lemma length_hole_up [simp]: "length (hole_up key xs h v) = length xs"
  by (induction key xs h v rule: hole_up.induct) (subst hole_up.simps, simp)

lemma mset_move_hole:
  assumes "i < length xs" and "j < length xs" and "i \<noteq> j"
  shows "mset (xs[i := xs ! j, j := v]) = mset (xs[i := v])"
proof -
  have "mset ((xs[i := v])[i := (xs[i := v]) ! j, j := (xs[i := v]) ! i]) = mset (xs[i := v])"
    using assms by (intro mset_swap) auto
  then show ?thesis using assms by simp
qed

lemma mset_hole_up: "h < length xs \<Longrightarrow> mset (hole_up key xs h v) = mset (xs[h := v])"
proof (induction key xs h v rule: hole_up.induct)
  case (1 key xs h v)
  let ?p = "(h - 1) div 2"
  show ?case
  proof (cases "0 < h \<and> key v < key (xs ! ?p)")
    case True
    then have "?p < h" using parent_less by blast
    with 1 True show ?thesis
      using mset_move_hole [of h xs ?p v] by (subst hole_up.simps) simp
  qed (subst hole_up.simps, auto)
qed

text \<open>One step of the rise, and its end.\<close>

lemma risen_step:
  assumes risen: "risen key xs h v" and less: "0 < h" "key v < key (xs ! ((h - 1) div 2))"
  shows "risen key (xs[h := xs ! ((h - 1) div 2)]) ((h - 1) div 2) v"
proof -
  let ?p = "(h - 1) div 2" and ?ys = "xs[h := xs ! ((h - 1) div 2)]"
  have h: "h < length xs" using risen by (simp add: risen_def)
  have p: "?p < h" using less parent_less by blast
  have edges: "key (xs ! ((i - 1) div 2)) \<le> key (xs ! i)"
    if "i < length xs" "0 < i" "i \<noteq> h" "(i - 1) div 2 \<noteq> h" for i
    using risen that by (simp add: risen_def holed_def edge_def)
  have below: "key (xs ! ?p) \<le> key (xs ! i)" if "i < length xs" "0 < i" "(i - 1) div 2 = h" for i
    using risen that less by (simp add: risen_def holed_def bridged_def)
  have same: "?ys ! i = (if i = h then xs ! ?p else xs ! i)" if "i < length xs" for i
    using that by (simp add: nth_list_update)
  have child: "key (xs ! ?p) \<le> key (?ys ! i)" if "i < length xs" "0 < i" "(i - 1) div 2 = ?p" for i
    using that p edges [of i] by (cases "i = h") (simp_all add: same)
  show ?thesis unfolding risen_def holed_def bridged_def edge_def
  proof (intro conjI allI impI)
    fix i assume i: "i < length ?ys" "0 < i \<and> (i - 1) div 2 = ?p"
    then show "key v \<le> key (?ys ! i)" using child [of i] less by simp
  next
    fix i assume i: "i < length ?ys" "0 < i \<and> (i - 1) div 2 = ?p \<and> 0 < ?p"
    have pp: "(?p - 1) div 2 < ?p" using i parent_less by blast
    have "key (xs ! ((?p - 1) div 2)) \<le> key (xs ! ?p)" using i p h pp by (intro edges) auto
    then show "key (?ys ! ((?p - 1) div 2)) \<le> key (?ys ! i)" using child [of i] i pp p h by simp
  next
    fix i assume i: "i < length ?ys" "0 < i \<and> i \<noteq> ?p \<and> (i - 1) div 2 \<noteq> ?p"
    have "i \<noteq> h" "(i - 1) div 2 < length xs" using i parent_less [of i] by auto
    then show "key (?ys ! ((i - 1) div 2)) \<le> key (?ys ! i)"
      using edges [of i] below [of i] i by (cases "(i - 1) div 2 = h") (auto simp: same)
  qed (use p h in simp)
qed

lemma risen_end:
  assumes "risen key xs h v" and "\<not> (0 < h \<and> key v < key (xs ! ((h - 1) div 2)))"
  shows "is_heap key (xs[h := v])"
  unfolding is_heap_def edge_def
proof (intro allI impI)
  fix i assume i: "i < length (xs[h := v])" "0 < i"
  have pi: "(i - 1) div 2 < i" using i parent_less by blast
  consider "i = h" | "(i - 1) div 2 = h" "i \<noteq> h" | "i \<noteq> h" "(i - 1) div 2 \<noteq> h" by blast
  then show "key (xs[h := v] ! ((i - 1) div 2)) \<le> key (xs[h := v] ! i)"
    by cases (use assms i pi in \<open>auto simp: risen_def holed_def edge_def\<close>)
qed

lemma hole_up_heap: "risen key xs h v \<Longrightarrow> is_heap key (hole_up key xs h v)"
proof (induction key xs h v rule: hole_up.induct)
  case (1 key xs h v)
  show ?case
  proof (cases "0 < h \<and> key v < key (xs ! ((h - 1) div 2))")
    case True
    then show ?thesis
      using 1(1) [OF True] risen_step [OF 1(2)] by (simp add: hole_up.simps [of key xs h v])
  next
    case False
    then show ?thesis using risen_end [OF 1(2)] by (subst hole_up.simps) auto
  qed
qed

text \<open>The way down: the hole moves to the smaller child until it is a leaf.\<close>

lemma holed_step:
  assumes holed: "holed key xs h" and c: "c < length xs" "0 < c" "(c - 1) div 2 = h"
    and least: "\<And>i. i < length xs \<Longrightarrow> 0 < i \<Longrightarrow> (i - 1) div 2 = h \<Longrightarrow> key (xs ! c) \<le> key (xs ! i)"
  shows "holed key (xs[h := xs ! c]) c"
proof -
  let ?ys = "xs[h := xs ! c]"
  have h: "h < c" using c parent_less by blast
  have edges: "key (xs ! ((i - 1) div 2)) \<le> key (xs ! i)"
    if "i < length xs" "0 < i" "i \<noteq> h" "(i - 1) div 2 \<noteq> h" for i
    using holed that by (simp add: holed_def edge_def)
  have above: "key (xs ! ((h - 1) div 2)) \<le> key (xs ! c)" if "0 < h"
    using holed that c by (simp add: holed_def bridged_def)
  have same: "?ys ! i = (if i = h then xs ! c else xs ! i)" if "i < length xs" for i
    using that by (simp add: nth_list_update)
  show ?thesis unfolding holed_def bridged_def edge_def
  proof (intro conjI allI impI)
    fix i assume i: "i < length ?ys" "0 < i \<and> (i - 1) div 2 = c \<and> 0 < c"
    then have "i \<noteq> h" using h by auto
    then show "key (?ys ! ((c - 1) div 2)) \<le> key (?ys ! i)"
      using edges [of i] i c h by (simp add: same)
  next
    fix i assume i: "i < length ?ys" "0 < i \<and> i \<noteq> c \<and> (i - 1) div 2 \<noteq> c"
    have pi: "(i - 1) div 2 < i" using i parent_less by blast
    consider "i = h" | "i \<noteq> h" "(i - 1) div 2 = h" | "i \<noteq> h" "(i - 1) div 2 \<noteq> h" by blast
    then show "key (?ys ! ((i - 1) div 2)) \<le> key (?ys ! i)"
      by cases (use i pi above least [of i] edges [of i] in \<open>auto simp: same\<close>)
  qed
qed

lemma length_hole_down: "hole_down key xs h = (ys, l) \<Longrightarrow> length ys = length xs"
proof (induction key xs h rule: hole_down.induct)
  case (1 key xs h)
  show ?case using "1.prems" "1.IH" by (subst (asm) hole_down.simps [of key xs h]) (auto simp: Let_def split: if_splits)
qed

lemma length_heap_pop [simp]: "length (heap_pop key q) = length q - 1"
  by (auto simp: heap_pop_def split: prod.split dest!: length_hole_down)

lemma children: "0 < i \<and> (i - 1) div 2 = h \<longleftrightarrow> i = 2 * h + 1 \<or> i = 2 * h + (2::nat)"
  by auto

lemma hole_down_leaf:
  assumes "holed key xs h" and "h < length xs" and "hole_down key xs h = (ys, l)"
  shows "holed key ys l \<and> length ys = length xs \<and> l < length xs \<and> length xs \<le> 2 * l + 1 \<and>
         mset (ys[l := v]) = mset (xs[h := v])"
  using assms
proof (induction key xs h rule: hole_down.induct)
  case (1 key xs h)
  let ?c = "if key (xs ! (2 * (h + 1) - 1)) < key (xs ! (2 * (h + 1))) then 2 * (h + 1) - 1 else 2 * (h + 1)"
  consider (inner) "h < (length xs - 1) div 2"
    | (single) "\<not> h < (length xs - 1) div 2" "even (length xs)" "h = (length xs - 2) div 2"
    | (leaf) "\<not> h < (length xs - 1) div 2" "\<not> (even (length xs) \<and> h = (length xs - 2) div 2)" by blast
  then show ?case
  proof cases
    case inner
    have c: "?c < length xs" "0 < ?c" "(?c - 1) div 2 = h" "?c \<noteq> h" using inner by auto
    have "key (xs ! ?c) \<le> key (xs ! i)" if "i < length xs" "0 < i" "(i - 1) div 2 = h" for i
    proof -
      from that have "i = 2 * h + 1 \<or> i = 2 * h + 2" using children [of i h] by blast
      then show ?thesis by auto
    qed
    then have "holed key (xs[h := xs ! ?c]) ?c" using "1.prems"(1) c by (intro holed_step) auto
    moreover have "hole_down key (xs[h := xs ! ?c]) ?c = (ys, l)"
      using "1.prems"(3) inner by (simp only: hole_down.simps [of key xs h] Let_def if_True)
    ultimately show ?thesis
      using "1.IH" [OF inner refl refl] c mset_move_hole [of h xs ?c v] "1.prems"(2) by simp
  next
    case single
    have len: "length xs = 2 * h + 2" using single "1.prems"(2) by presburger
    have "hole_down key xs h = (xs[h := xs ! (2 * h + 1)], 2 * h + 1)"
      by (subst hole_down.simps) (simp add: len)
    then have eq: "ys = xs[h := xs ! (2 * h + 1)]" "l = 2 * h + 1" using "1.prems"(3) by simp_all
    have "holed key ys l" unfolding eq
      using "1.prems"(1) len by (intro holed_step) (auto simp: children dest: children [THEN iffD1, OF conjI])
    then show ?thesis using eq len mset_move_hole [of h xs l v] by simp
  next
    case leaf
    have "length xs \<le> 2 * h + 1" using leaf "1.prems"(2) by presburger
    then show ?thesis using "1.prems" leaf by (subst (asm) hole_down.simps) auto
  qed
qed

lemma leaf_risen: "holed key xs l \<Longrightarrow> l < length xs \<Longrightarrow> length xs \<le> 2 * l + 1 \<Longrightarrow> risen key xs l v"
  by (auto simp: risen_def)

section \<open>The heap as a priority queue\<close>

lemma heap_top_least: "is_heap key q \<Longrightarrow> i < length q \<Longrightarrow> key (heap_top q) \<le> key (q ! i)"
proof (induction i rule: less_induct)
  case (less i)
  show ?case
  proof (cases "i = 0")
    case False
    then have "(i - 1) div 2 < i" using parent_less by blast
    then have "key (heap_top q) \<le> key (q ! ((i - 1) div 2))" using less by simp
    also have "\<dots> \<le> key (q ! i)" using less.prems False by (simp add: is_heap_def edge_def)
    finally show ?thesis .
  qed (simp add: heap_top_def)
qed

lemma heap_push_heap: "is_heap key q \<Longrightarrow> is_heap key (heap_push key x q)"
  unfolding heap_push_def
proof (rule hole_up_heap)
  assume heap: "is_heap key q"
  have "edge key (q @ [x]) i" if "i < length q" "0 < i" for i
    using heap that parent_less [of i] by (simp add: is_heap_def edge_def nth_append)
  then have "holed key (q @ [x]) (length q)"
    by (auto simp: holed_def bridged_def dest: children [THEN iffD1, OF conjI])
  then show "risen key (q @ [x]) (length q) x" by (intro leaf_risen) auto
qed

lemma heap_push_mset: "mset (heap_push key x q) = add_mset x (mset q)"
  by (simp add: heap_push_def mset_hole_up)

lemma is_heap_butlast: "is_heap key q \<Longrightarrow> is_heap key (butlast q)"
  by (auto simp: is_heap_def edge_def nth_butlast)

lemma heap_pop_correct:
  assumes "is_heap key q" and "q \<noteq> []"
  shows "is_heap key (heap_pop key q) \<and> mset q = add_mset (heap_top q) (mset (heap_pop key q))"
proof (cases "1 < length q")
  case True
  obtain ys l where down: "hole_down key (butlast q) 0 = (ys, l)" by (metis surj_pair)
  have "holed key (butlast q) 0"
    using is_heap_butlast [OF assms(1)] by (simp add: holed_def bridged_def is_heap_def)
  from hole_down_leaf [OF this _ down, of "last q"] True
  have ys: "holed key ys l" "l < length ys" "length ys \<le> 2 * l + 1"
    "mset (ys[l := last q]) = mset ((butlast q)[0 := last q])" by auto
  obtain a b r where q: "q = a # r @ [b]"
    using True by (cases q; cases "tl q" rule: rev_cases) auto
  have "heap_pop key q = hole_up key ys l (last q)" using True down by (simp add: heap_pop_def)
  moreover have "mset q = add_mset (heap_top q) (mset ((butlast q)[0 := last q]))"
    by (simp add: q heap_top_def)
  ultimately show ?thesis
    using hole_up_heap [OF leaf_risen [OF ys(1-3)]] mset_hole_up [OF ys(2)] ys(4) by metis
next
  case False
  then obtain x where "q = [x]" using assms(2) by (cases q) auto
  then show ?thesis by (simp add: heap_pop_def heap_top_def is_heap_def)
qed

lemma heap_is_min_queue:
  "min_queue (is_heap key) mset key heap_empty (heap_push key) heap_top (heap_pop key)"
proof unfold_locales
  fix q :: "'a list" and x y
  assume heap: "is_heap key q"
  show "heap_empty q \<longleftrightarrow> mset q = {#}" by (simp add: heap_empty_def)
  show "is_heap key (heap_push key x q)" using heap by (rule heap_push_heap)
  show "mset (heap_push key x q) = add_mset x (mset q)" by (rule heap_push_mset)
  show "is_heap key (heap_pop key q)" "mset q = add_mset (heap_top q) (mset (heap_pop key q))"
    if "\<not> heap_empty q" using heap_pop_correct [OF heap] that by (simp_all add: heap_empty_def)
  show "key (heap_top q) \<le> key y" if "y \<in># mset q"
    using heap_top_least [OF heap] that by (auto simp: in_set_conv_nth)
qed

end
