(* ===== verification/Heap_Timers.thy ===== *)
theory Heap_Timers
  imports Binary_Heap Event_Loop Op_Simulation
begin

text \<open>
  The timers of \<^verbatim>\<open>Loop\<close> in the vector that \<^verbatim>\<open>std::priority_queue\<close> keeps, \<^verbatim>\<open>runAt\<close> and
  \<^verbatim>\<open>handle_timer\<close> on it, and their equivalence with the loop on a list in time order: two
  loops that agree on everything but the arrangement of the same timers stay so, as long as no two
  pending timers have the same stamp.
\<close>

interpretation hq: min_queue "is_heap t_stamp" mset t_stamp heap_empty "heap_push t_stamp" heap_top
  "heap_pop t_stamp"
  by (rule heap_is_min_queue)

definition heap_run_at :: "bool \<Rightarrow> u64 \<Rightarrow> task \<Rightarrow> loop_state \<Rightarrow> cxx_error + loop_state" where
  "heap_run_at time_locked stamp t s =
     (if time_locked then Inl Deadlock
      else Inr (s\<lparr>l_timers := heap_push t_stamp \<lparr>t_stamp = stamp, t_task = t\<rparr> (l_timers s)\<rparr>))"

function heap_timer_loop :: "u64 \<Rightarrow> u64 \<Rightarrow> loop_state \<Rightarrow> cxx_error + u64 \<times> loop_state" where
  "heap_timer_loop now t s =
     (if heap_empty (l_timers s) then Inr (t, s)
      else let e = heap_top (l_timers s) in
        if now < t_stamp e then Inr (t_stamp e, s)
        else and_then (run_task True (t_task e) s) (\<lambda>s1.
          heap_timer_loop now (t_stamp e) (s1\<lparr>l_timers := heap_pop t_stamp (l_timers s1)\<rparr>)))"
  by pat_completeness auto
termination
  by (relation "measure (\<lambda>(now, t, s). length (l_timers s))")
    (auto simp: heap_empty_def dest!: run_task_locked_timers)

declare heap_timer_loop.simps [simp del]

definition heap_handle_timer :: "u64 \<Rightarrow> loop_state \<Rightarrow> cxx_error + loop_state" where
  "heap_handle_timer now s =
     and_then (heap_timer_loop now (l_outtime s) s) (\<lambda>(t, s1). Inr (s1\<lparr>l_outtime := t\<rparr>))"

section \<open>The heap and the list in time order\<close>

definition same_loop :: "loop_state \<Rightarrow> loop_state \<Rightarrow> bool" where
  "same_loop h s \<longleftrightarrow> is_heap t_stamp (l_timers h) \<and> pq_inv (l_timers s) \<and>
     mset (l_timers h) = mset (l_timers s) \<and> h\<lparr>l_timers := []\<rparr> = s\<lparr>l_timers := []\<rparr>"

definition distinct_stamps :: "loop_state \<Rightarrow> bool" where
  "distinct_stamps s \<longleftrightarrow> distinct (map t_stamp (l_timers s))"

lemma same_loop_iff:
  "same_loop h s \<longleftrightarrow> (\<exists>q. s = h\<lparr>l_timers := q\<rparr> \<and> is_heap t_stamp (l_timers h) \<and> pq_inv q \<and>
     mset (l_timers h) = mset q)"
  by (cases h; cases s) (auto simp: same_loop_def)

lemma same_loop_run_at:
  "same_loop h s \<Longrightarrow> rel_sum (=) same_loop (heap_run_at locked stamp t h) (run_at locked stamp t s)"
  by (auto simp: heap_run_at_def run_at_def same_loop_iff hq.push_inv hq.push_elems tq.push_inv tq.push_elems)

lemma same_top:
  assumes "same_loop h s" and "distinct_stamps s" and "l_timers s = e # es"
  shows "heap_top (l_timers h) = e"
proof -
  have "l_timers h \<noteq> []" using assms by (auto simp: same_loop_def)
  then have top: "heap_top (l_timers h) \<in> set (e # es)"
    using assms by (metis heap_top_def length_greater_0_conv nth_mem same_loop_def set_mset_mset)
  have "t_stamp (heap_top (l_timers h)) \<le> t_stamp e"
    using assms by (intro hq.top_least) (auto simp: same_loop_def)
  moreover have "t_stamp e < t_stamp x" if "x \<in> set es" for x
    using assms that by (fastforce simp: same_loop_def pq_inv_def distinct_stamps_def order_less_le)
  ultimately show ?thesis using top by fastforce
qed


definition fired :: "timer \<Rightarrow> loop_state \<Rightarrow> loop_state" where
  "fired e s = effect_of (task_actions (t_task e)) (s\<lparr>l_log := l_log s @ [task_name (t_task e)]\<rparr>)"

lemma same_loop_popped:
  assumes "same_loop h s" and "distinct_stamps s" and "l_timers s = e # es"
  shows "same_loop ((fired e h)\<lparr>l_timers := heap_pop t_stamp (l_timers h)\<rparr>) ((fired e s)\<lparr>l_timers := es\<rparr>)"
proof -
  have ne: "\<not> heap_empty (l_timers h)" using assms(1,3) by (auto simp: same_loop_def heap_empty_def)
  have heap: "is_heap t_stamp (l_timers h)" using assms(1) by (simp add: same_loop_def)
  have "add_mset e (mset (heap_pop t_stamp (l_timers h))) = add_mset e (mset es)"
    using hq.pop_elems [OF heap ne] same_top [OF assms] assms(1,3) by (simp add: same_loop_def)
  moreover have "pq_inv es" using assms(1,3) by (simp add: same_loop_def pq_inv_def)
  ultimately show ?thesis
    using hq.pop_inv [OF heap ne] assms(1) by (auto simp: same_loop_iff fired_def effect_of_def)
qed

lemma heap_timer_loop_step:
  assumes "\<not> heap_empty (l_timers h)" and "heap_top (l_timers h) = e" and "t_stamp e \<le> now"
  shows "heap_timer_loop now t h =
     (if rearms (t_task e) then Inl Deadlock
      else heap_timer_loop now (t_stamp e) ((fired e h)\<lparr>l_timers := heap_pop t_stamp (l_timers h)\<rparr>))"
proof -
  have "l_timers (fired e h) = l_timers h" if "\<not> rearms (t_task e)"
    using that unfolding rearms_def fired_def effect_of_def by (simp del: concat_eq_Nil_conv)
  then show ?thesis using assms
    by (simp add: heap_timer_loop.simps [of now t h] run_task_locked fired_def [symmetric] linorder_not_less [symmetric])
qed

lemma same_timer_loop:
  assumes "same_loop h s" and "distinct_stamps s"
  shows "rel_sum (=) (rel_prod (=) same_loop) (heap_timer_loop now t h) (timer_loop now t s)"
  using assms
proof (induction "l_timers s" arbitrary: h s t)
  case Nil
  then have "l_timers h = []" by (auto simp: same_loop_def)
  then show ?case using Nil
    by (simp add: timer_loop_done heap_timer_loop.simps [of now t h] heap_empty_def)
next
  case (Cons e es)
  note timers = Cons.hyps(2) [symmetric]
  have top: "\<not> heap_empty (l_timers h)" "heap_top (l_timers h) = e"
    using timers Cons.prems same_top [of h s e es] by (auto simp: same_loop_def heap_empty_def)
  show ?case
  proof (cases "t_stamp e \<le> now")
    case True
    have "distinct_stamps ((fired e s)\<lparr>l_timers := es\<rparr>)"
      using Cons.prems(2) by (simp add: distinct_stamps_def timers)
    then have "rel_sum (=) (rel_prod (=) same_loop)
        (heap_timer_loop now (t_stamp e) ((fired e h)\<lparr>l_timers := heap_pop t_stamp (l_timers h)\<rparr>))
        (timer_loop now (t_stamp e) ((fired e s)\<lparr>l_timers := es\<rparr>))"
      using same_loop_popped [OF Cons.prems timers] by (intro Cons.hyps(1)) auto
    then show ?thesis
      using heap_timer_loop_step [OF top True] timer_loop_step [OF timers True]
      by (simp add: run_task_locked fired_def)
  next
    case False
    then have "now < t_stamp e" by (simp add: linorder_not_le)
    then show ?thesis using top Cons.prems
      by (simp add: timer_loop_done(2) [OF timers] heap_timer_loop.simps [of now t h])
  qed
qed

text \<open>On the vector of \<^verbatim>\<open>std::priority_queue\<close>, arranged by the library's heap operations, the timer
  handling of the loop does what it does on a list in time order: with the same timers pending and
  no two of them for the same moment, it fails for the same reason or runs the same callbacks, sets
  the same next time and leaves the same timers, again as a heap.\<close>

lemma heap_timers_equivalent:
  assumes "same_loop h s" and "distinct_stamps s"
  shows "rel_sum (=) same_loop (heap_handle_timer now h) (handle_timer now s)"
proof -
  have "l_outtime h = l_outtime s" using assms(1) by (auto simp: same_loop_iff)
  moreover have "same_loop (h'\<lparr>l_outtime := u\<rparr>) (s'\<lparr>l_outtime := u\<rparr>)" if "same_loop h' s'" for h' s' u
    using that by (cases h'; cases s') (simp add: same_loop_def)
  ultimately show ?thesis using same_timer_loop [OF assms, of now "l_outtime s"]
    by (auto simp: heap_handle_timer_def handle_timer_def elim!: rel_sum.cases)
qed

section \<open>Histories\<close>

text \<open>A timer is set, or the timers are handled at a time; a caller observes which callbacks have run
  and the next time.\<close>

datatype timer_op = SetAt u64 task | FireAt u64

definition heap_do :: "timer_op \<Rightarrow> loop_state \<Rightarrow> cxx_error + (nat list \<times> u64) \<times> loop_state" where
  "heap_do op s =
     and_then (case op of SetAt stamp t \<Rightarrow> heap_run_at False stamp t s | FireAt now \<Rightarrow> heap_handle_timer now s)
       (\<lambda>s1. Inr ((l_log s1, l_outtime s1), s1))"

definition list_do :: "timer_op \<Rightarrow> loop_state \<Rightarrow> cxx_error + (nat list \<times> u64) \<times> loop_state" where
  "list_do op s =
     and_then (case op of SetAt stamp t \<Rightarrow> run_at False stamp t s | FireAt now \<Rightarrow> handle_timer now s)
       (\<lambda>s1. Inr ((l_log s1, l_outtime s1), s1))"

definition new_stamp :: "timer_op \<Rightarrow> loop_state \<Rightarrow> bool" where
  "new_stamp op s = (case op of SetAt stamp t \<Rightarrow> stamp \<notin> t_stamp ` set (l_timers s) | FireAt now \<Rightarrow> True)"

lemma distinct_map_insort:
  "distinct (map f (insort_key f x xs)) \<longleftrightarrow> f x \<notin> f ` set xs \<and> distinct (map f xs)"
  by (induction xs) (auto simp: set_insort_key)

lemma run_at_distinct:
  "distinct_stamps s \<Longrightarrow> new_stamp (SetAt stamp t) s \<Longrightarrow> run_at False stamp t s = Inr s' \<Longrightarrow> distinct_stamps s'"
  by (auto simp: distinct_stamps_def new_stamp_def run_at_def pq_push_def distinct_map_insort)

lemma timer_loop_distinct:
  "distinct_stamps s \<Longrightarrow> timer_loop now t s = Inr (t', s') \<Longrightarrow> distinct_stamps s'"
proof (induction "l_timers s" arbitrary: s t)
  case Nil
  then show ?case by (simp add: timer_loop_done)
next
  case (Cons e es)
  note timers = Cons.hyps(2) [symmetric]
  show ?case
  proof (cases "t_stamp e \<le> now")
    case True
    have ds: "distinct_stamps ((fired e s)\<lparr>l_timers := es\<rparr>)"
      using Cons.prems(1) by (simp add: distinct_stamps_def timers)
    have "timer_loop now (t_stamp e) ((fired e s)\<lparr>l_timers := es\<rparr>) = Inr (t', s')"
      using timer_loop_step [OF timers True] Cons.prems(2)
      by (auto simp: run_task_locked fired_def split: if_splits)
    then show ?thesis using Cons.hyps(1) [OF _ ds] by simp
  next
    case False
    then have "now < t_stamp e" by (simp add: linorder_not_le)
    then show ?thesis using Cons.prems by (simp add: timer_loop_done(2) [OF timers])
  qed
qed

lemma same_loop_observed: "same_loop h s \<Longrightarrow> l_log h = l_log s \<and> l_outtime h = l_outtime s"
  by (auto simp: same_loop_iff)

lemma timer_step_related:
  assumes "same_loop h s" and "distinct_stamps s"
  shows "rel_sum (=) (\<lambda>(o1, h') (o2, s'). o1 = o2 \<and> same_loop h' s') (heap_do op h) (list_do op s)"
proof (cases op)
  case (SetAt stamp t)
  then show ?thesis using same_loop_run_at [OF assms(1), of False stamp t]
    by (auto simp: heap_do_def list_do_def same_loop_observed elim!: rel_sum.cases)
next
  case (FireAt now)
  then show ?thesis using heap_timers_equivalent [OF assms, of now]
    by (auto simp: heap_do_def list_do_def same_loop_observed elim!: rel_sum.cases)
qed

lemma timer_step_distinct:
  "distinct_stamps s \<Longrightarrow> new_stamp op s \<Longrightarrow> list_do op s = Inr (out, s') \<Longrightarrow> distinct_stamps s'"
  by (cases op) (auto simp: list_do_def handle_timer_def and_then_Inr_iff distinct_stamps_def
      dest: run_at_distinct [unfolded distinct_stamps_def] timer_loop_distinct [unfolded distinct_stamps_def])

interpretation timers: op_simulation "\<lambda>h s. same_loop h s \<and> distinct_stamps s" heap_do list_do new_stamp
proof unfold_locales
  fix h s op e
  assume "same_loop h s \<and> distinct_stamps s" "list_do op s = Inl e"
  then show "heap_do op h = Inl e" using timer_step_related [of h s op] by (auto elim: rel_sum.cases)
next
  fix h s op out s'
  assume "same_loop h s \<and> distinct_stamps s" "new_stamp op s" "list_do op s = Inr (out, s')"
  then show "\<exists>h'. heap_do op h = Inr (out, h') \<and> same_loop h' s' \<and> distinct_stamps s'"
    using timer_step_related [of h s op] timer_step_distinct [of s op] by (auto elim!: rel_sum.cases)
qed

text \<open>C13: On the vector of \<^verbatim>\<open>std::priority_queue\<close>, arranged by the library's heap operations, the timers
  of a new loop behave as on a list in time order: over every history of timers being set and
  handled in which no two pending timers are for the same moment, the same callbacks run in the same
  order, the next time is the same after every operation, and a failure comes at the same operation
  for the same reason.\<close>

theorem heap_timers_refine_time_order:
  assumes "permitted new_stamp list_do ops loop_new"
  shows "observed (run_ops heap_do ops loop_new) = observed (run_ops list_do ops loop_new)"
proof -
  have "same_loop loop_new loop_new \<and> distinct_stamps loop_new"
    by (simp add: same_loop_def distinct_stamps_def loop_new_def is_heap_def pq_inv_def edge_def)
  from timers.runs_alike [OF this assms] show ?thesis by simp
qed

text \<open>Three timers set in the order 9, 5, 7; at time 7 the callbacks of 5 and 7 run, in this order.\<close>

lemma heap_timers_refine_time_order_witness:
  "observed (run_ops heap_do [SetAt 9 (Task 1 []), SetAt 5 (Task 2 []), SetAt 7 (Task 3 []), FireAt 7] loop_new) =
     ([([], 0), ([], 0), ([], 0), ([2, 3], 9)], None)"
proof -
  let ?ops = "[SetAt 9 (Task 1 []), SetAt 5 (Task 2 []), SetAt 7 (Task 3 []), FireAt 7]"
  have "permitted new_stamp list_do ?ops loop_new" by code_simp
  moreover have "observed (run_ops list_do ?ops loop_new) = ([([], 0), ([], 0), ([], 0), ([2, 3], 9)], None)"
    by code_simp
  ultimately show ?thesis using heap_timers_refine_time_order [of ?ops] by simp
qed

end
