(* ===== verification/Rtt_Main.thy ===== *)
theory Rtt_Main
  imports Reactor Event_Loop
begin

text \<open>
  The program \<^verbatim>\<open>rtt_server\<close>: the constructor of \<^verbatim>\<open>RttServer\<close> registers the reactor with the
  loop and runs the loop in a \<^verbatim>\<open>tool::Thread\<close> that is a local variable of the constructor, so its
  destructor, which joins, runs before the constructor returns; \<^verbatim>\<open>main\<close> then calls \<^verbatim>\<open>start\<close>.
  \<open>None\<close> means that a part does not return.
\<close>

definition rtt_server_new :: "(nat \<Rightarrow> round_env) \<Rightarrow> (cxx_error + loop_state) option" where
  "rtt_server_new envs = loop_run envs (register_io_handle loop_new)"

definition rtt_main :: "(nat \<Rightarrow> round_env) \<Rightarrow> nat \<Rightarrow> reactor \<Rightarrow> world \<Rightarrow> (cxx_error + int \<times> reactor \<times> world) option" where
  "rtt_main envs addr r w =
     (case rtt_server_new envs of
        None \<Rightarrow> None
      | Some (Inl e) \<Rightarrow> Some (Inl e)
      | Some (Inr _) \<Rightarrow> Some (rtt_start addr r w))"

text \<open>Nobody calls the loop: \<^verbatim>\<open>main\<close> is in the constructor, and the reactor has no socket whose
  callbacks could.\<close>

definition nobody_calls :: "(nat \<Rightarrow> round_env) \<Rightarrow> bool" where
  "nobody_calls envs \<longleftrightarrow> (\<forall>n. env_calls (envs n) = [] \<and> (\<forall>out. env_io (envs n) out = []))"

definition at_rest :: "loop_state \<Rightarrow> bool" where
  "at_rest s \<longleftrightarrow> \<not> l_quit s \<and> l_idle s = [] \<and> l_runable s = [] \<and> l_timers s = []"

lemma at_rest_round:
  assumes "nobody_calls envs" and "at_rest s"
  shows "\<exists>s'. loop_round (envs n) s = Inr s' \<and> at_rest s'"
  using assms
  by (auto simp: nobody_calls_def at_rest_def loop_round_def handle_idle_def handle_io_source_def
      handle_timer_def timer_loop_done handle_runable_def)

lemma at_rest_never_ends:
  assumes "loop_while envs n s = Some r"
  shows "nobody_calls envs \<longrightarrow> \<not> at_rest s"
proof (rule loop_while.raw_induct [where P = "\<lambda>envs n s r. nobody_calls envs \<longrightarrow> \<not> at_rest s", OF _ assms],
    intro impI notI)
  fix run envs n s r
  assume ih: "\<And>envs n s r. run envs n s = Some r \<Longrightarrow> nobody_calls envs \<longrightarrow> \<not> at_rest s"
    and body: "(case run_actions False (env_calls (envs n)) s of
        Inl e \<Rightarrow> Some (Inl e)
      | Inr s0 \<Rightarrow>
          if l_quit s0 then Some (Inr s0)
          else (case loop_round (envs n) s0 of Inl e \<Rightarrow> Some (Inl e) | Inr s1 \<Rightarrow> run envs (n + 1) s1)) = Some r"
    and quiet: "nobody_calls envs" "at_rest s"
  obtain s' where s': "loop_round (envs n) s = Inr s'" "at_rest s'" using at_rest_round [OF quiet] by blast
  have "run envs (n + 1) s' = Some r" using body quiet s'(1) by (simp add: nobody_calls_def at_rest_def)
  then show False using ih quiet(1) s'(2) by blast
qed

text \<open>The server never starts: its constructor does not return, since the loop it waits for is
  never told to quit, so the call of \<^verbatim>\<open>start\<close> in \<^verbatim>\<open>main\<close> is not reached.\<close>

theorem rtt_main_never_starts:
  assumes "nobody_calls envs"
  shows "rtt_server_new envs = None \<and> rtt_main envs addr r w = None"
proof -
  have "at_rest ((register_io_handle loop_new)\<lparr>l_quit := False\<rparr>)"
    by (simp add: at_rest_def register_io_handle_def loop_new_def)
  then have "rtt_server_new envs = None"
    using at_rest_never_ends assms by (cases "rtt_server_new envs") (auto simp: rtt_server_new_def loop_run_def)
  then show ?thesis by (simp add: rtt_main_def)
qed

lemma rtt_main_never_starts_witness:
  "rtt_main (\<lambda>_. \<lparr>env_calls = [], env_clock_io = 0, env_io = (\<lambda>_. []), env_clock_timer = 0\<rparr>) 0 (poll_new Map.empty) (script []) = None"
  using rtt_main_never_starts [of "\<lambda>_. \<lparr>env_calls = [], env_clock_io = 0, env_io = (\<lambda>_. []), env_clock_timer = 0\<rparr>" 0
      "poll_new Map.empty" "script []"]
  by (simp add: nobody_calls_def)

section \<open>What the thread of the loop does\<close>

text \<open>
  The loop of the constructor together with the reactor registered with it: \<^verbatim>\<open>handle_io_source\<close> calls
  \<^verbatim>\<open>Poll::run\<close> with the wait the loop computes, and \<^verbatim>\<open>Poll::run\<close> calls \<^verbatim>\<open>handleEvent\<close>, whose body
  is empty.  A round is given the two readings of the clock and what \<^verbatim>\<open>poll\<close> reports.
\<close>

definition handle_event :: "fd_event \<Rightarrow> action list" where
  "handle_event e = []"

record server_clock =
  sc_io :: u64
  sc_ready :: "u16 list"
  sc_timer :: u64

definition server_round :: "server_clock \<Rightarrow> reactor \<Rightarrow> loop_state \<times> world \<Rightarrow> cxx_error + loop_state \<times> world" where
  "server_round c r = (\<lambda>(s, w).
     and_then (handle_idle s) (\<lambda>s1.
     and_then (if l_io s1 then poll_run (get_outtime (sc_io c) s1) (sc_ready c) r w else Inr (no_error, [], w)) (\<lambda>(_, evs, w1).
     and_then (run_actions False (concat (map handle_event evs)) s1) (\<lambda>s2.
     and_then (handle_timer (sc_timer c) s2) (\<lambda>s3.
     and_then (handle_runable s3) (\<lambda>s4. Inr (s4, w1)))))))"

fun server_rounds :: "server_clock list \<Rightarrow> reactor \<Rightarrow> loop_state \<times> world \<Rightarrow> cxx_error + loop_state \<times> world" where
  "server_rounds [] r sw = Inr sw"
| "server_rounds (c # cs) r sw = and_then (server_round c r sw) (server_rounds cs r)"

definition server_loop :: loop_state where
  "server_loop = (register_io_handle loop_new)\<lparr>l_quit := False\<rparr>"

fun is_poll :: "syscall \<Rightarrow> bool" where
  "is_poll (SysPoll n ms) \<longleftrightarrow> True"
| "is_poll _ \<longleftrightarrow> False"

text \<open>The state of a loop that has nothing to do and has never seen a timer.\<close>

definition idle_loop :: "loop_state \<Rightarrow> bool" where
  "idle_loop s \<longleftrightarrow> at_rest s \<and> l_io s \<and> l_outtime s = 0"

lemma poll_timeout_bits: "poll_timeout t = signed_take_bit 31 (uint t)"
  by (simp add: poll_timeout_def signed_ucast_eq)

lemma poll_timeout_negative: "poll_timeout t < 0 \<longleftrightarrow> bit t 31"
  using bit_last_iff [of "ucast t :: u32"] by (simp add: poll_timeout_def bit_ucast_iff)

lemma idle_round:
  assumes "idle_loop s" and "r_fds r = []"
  shows "\<exists>w'. server_round c r (s, w) = Inr (s, w') \<and> extends_world w w' \<and>
     filter is_poll (calls_since w w') = [SysPoll 0 (poll_timeout (sc_io c))]"
proof -
  have s: "l_idle s = []" "l_runable s = []" "l_timers s = []" "l_outtime s = 0" "l_io s"
    using assms(1) by (simp_all add: idle_loop_def at_rest_def)
  then have parts: "handle_idle s = Inr s" "handle_runable s = Inr s" "handle_timer t s = Inr s" for t
    by (simp_all add: handle_idle_def handle_runable_def handle_timer_def timer_loop_done)
  have wait: "get_outtime (sc_io c) s = sc_io c" using s(4) by (auto simp: get_outtime_def word_gt_0)
  have "\<exists>cond w'. poll_run (sc_io c) (sc_ready c) r w = Inr (cond, [], w') \<and> extends_world w w' \<and>
      filter is_poll (calls_since w w') = [SysPoll 0 (poll_timeout (sc_io c))]"
    using assms(2) by (simp add: poll_run_def Let_def split_beta fill_revents_def)
  then show ?thesis
    using s(5) parts wait by (auto simp: server_round_def)
qed

lemma idle_rounds:
  assumes "idle_loop s" and "r_fds r = []"
  shows "\<exists>w'. server_rounds cs r (s, w) = Inr (s, w') \<and> extends_world w w' \<and>
     filter is_poll (calls_since w w') = map (\<lambda>c. SysPoll 0 (poll_timeout (sc_io c))) cs"
proof (induction cs arbitrary: w)
  case (Cons c cs)
  obtain w1 where w1: "server_round c r (s, w) = Inr (s, w1)" "extends_world w w1"
      "filter is_poll (calls_since w w1) = [SysPoll 0 (poll_timeout (sc_io c))]"
    using idle_round [OF assms] by blast
  obtain w2 where w2: "server_rounds cs r (s, w1) = Inr (s, w2)" "extends_world w1 w2"
      "filter is_poll (calls_since w1 w2) = map (\<lambda>c. SysPoll 0 (poll_timeout (sc_io c))) cs"
    using Cons.IH by blast
  show ?case
    using w1 w2 by (intro exI [of _ w2]) (simp add: calls_since_trans [OF w1(2) w2(2)] extends_world_trans [OF w1(2) w2(2)])
qed simp

text \<open>
  C30: the server never starts, and what its thread does instead.  The constructor waits for a loop
  that nobody tells to quit, so it does not return and \<^verbatim>\<open>start\<close> is not called.  Over any number of rounds, whatever the clock says
  and the kernel answers, the loop of the constructor never fails and never changes: it waits in
  \<^verbatim>\<open>poll\<close>, once per round, for no descriptor at all.  The time-out, meant in milliseconds, is the
  whole reading of the clock in microseconds (no timer has ever been remembered, so the time since
  the last one is the time since the epoch) cut down to an \<^verbatim>\<open>int\<close>: it is negative, and \<^verbatim>\<open>poll\<close>
  waits without end, exactly when bit 31 of the clock is set, and otherwise the low 31 bits.
\<close>

theorem server_thread_waits_for_nothing:
  assumes "poll_reach r"
  shows "\<exists>w'. server_rounds cs r (server_loop, w) = Inr (server_loop, w') \<and>
     filter is_poll (calls_since w w') = map (\<lambda>c. SysPoll 0 (poll_timeout (sc_io c))) cs \<and>
     (\<forall>c \<in> set cs. if bit (sc_io c) 31 then poll_timeout (sc_io c) < 0
                    else poll_timeout (sc_io c) = uint (sc_io c) mod 2 ^ 31) \<and>
     (nobody_calls envs \<longrightarrow> rtt_server_new envs = None \<and> rtt_main envs addr r w = None)"
proof -
  have "idle_loop server_loop"
    by (simp add: idle_loop_def at_rest_def server_loop_def register_io_handle_def loop_new_def)
  moreover have "r_fds r = []" using poll_reach_empty [OF assms] by simp
  moreover have "poll_timeout t = uint t mod 2 ^ 31" if "\<not> bit t 31" for t
    using that by (simp add: poll_timeout_bits signed_take_bit_eq_if_positive bit_uint_iff take_bit_eq_mod)
  ultimately show ?thesis using idle_rounds [of server_loop r cs w] poll_timeout_negative rtt_main_never_starts [of envs] by auto
qed

text \<open>Two rounds, half an hour apart, in November 2023: the first waits for more than four days, the second for ever.\<close>

theorem server_thread_waits_for_nothing_witness:
  "\<exists>w'. server_rounds [\<lparr>sc_io = 1700000000000000, sc_ready = [], sc_timer = 0\<rparr>,
         \<lparr>sc_io = 1700001800000000, sc_ready = [], sc_timer = 0\<rparr>] (poll_new Map.empty) (server_loop, script []) =
       Inr (server_loop, w') \<and>
     filter is_poll (calls_since (script []) w') = [SysPoll 0 404635648, SysPoll 0 (- 2090331648)] \<and>
     rtt_main (\<lambda>_. \<lparr>env_calls = [], env_clock_io = 0, env_io = (\<lambda>_. []), env_clock_timer = 0\<rparr>) 0 (poll_new Map.empty) (script []) = None"
proof -
  have "poll_timeout 1700000000000000 = 404635648" "poll_timeout 1700001800000000 = - 2090331648"
    by (simp_all add: poll_timeout_def)
  moreover have "nobody_calls (\<lambda>_. \<lparr>env_calls = [], env_clock_io = 0, env_io = (\<lambda>_. []), env_clock_timer = 0\<rparr>)"
    by (simp add: nobody_calls_def)
  ultimately show ?thesis
    using server_thread_waits_for_nothing [OF poll_start, where ?envs =
        "\<lambda>_. \<lparr>env_calls = [], env_clock_io = 0, env_io = (\<lambda>_. []), env_clock_timer = 0\<rparr>" and ?addr = 0 and ?cs = "[\<lparr>sc_io = 1700000000000000, sc_ready = [], sc_timer = 0\<rparr>,
      \<lparr>sc_io = 1700001800000000, sc_ready = [], sc_timer = 0\<rparr>]" and ?objs1 = Map.empty and ?w = "script []"]
    by (auto simp del: server_rounds.simps)
qed

end
