(* ===== verification/Thread_Pool.thy ===== *)
theory Thread_Pool
  imports Prelude "HOL-Library.Multiset"
begin

text \<open>
  \<^verbatim>\<open>set/thread_pool\<close>: the latch \<^verbatim>\<open>Count\<close>, \<^verbatim>\<open>Thread\<close> and \<^verbatim>\<open>ThreadPool\<close>.
  A critical section is one step, because the mutex is held throughout; the interleavings of the
  threads are the sequences of such steps.  A notification is a step of its own, after the lock
  has been released, and a waiting thread may also wake up without one.  A task is a number and
  whether calling it throws.
\<close>

section \<open>Count\<close>

definition count_new :: "u16 \<Rightarrow> u16" where "count_new n = n"

definition count_down :: "u16 \<Rightarrow> u16 \<times> bool" where
  "count_down c = (c - 1, c - 1 = 0)"

definition count_passes :: "u16 \<Rightarrow> bool" where
  "count_passes c \<longleftrightarrow> c = 0"

fun count_downs :: "nat \<Rightarrow> u16 \<Rightarrow> u16" where
  "count_downs 0 c = c"
| "count_downs (Suc k) c = count_downs k (fst (count_down c))"

section \<open>Thread\<close>








section \<open>ThreadPool\<close>

type_synonym pool_task = "nat \<times> bool"

datatype worker = Polling | Running pool_task | Waiting | Exited

record pool =
  p_stoped :: bool
  p_tasks :: "pool_task list"
  p_workers :: "worker list"
  p_notify_one :: nat
  p_notify_all :: bool
  p_pushed :: "pool_task list"
  p_started :: "pool_task list"
  p_done :: "pool_task list"
  p_errors :: nat
  p_late :: bool

text \<open>\<open>p_pushed\<close>, \<open>p_started\<close>, \<open>p_done\<close> and \<open>p_late\<close> (a push after \<^verbatim>\<open>stop\<close>) record the history.\<close>

definition pool_new :: "nat \<Rightarrow> pool" where
  "pool_new hardware_concurrency =
     (let n = (if hardware_concurrency < 1 then 4 else hardware_concurrency)
      in \<lparr>p_stoped = False, p_tasks = [], p_workers = replicate n Polling, p_notify_one = 0,
          p_notify_all = False, p_pushed = [], p_started = [], p_done = [], p_errors = 0, p_late = False\<rparr>)"

definition pool_push :: "pool_task \<Rightarrow> pool \<Rightarrow> pool" where
  "pool_push t p =
     p\<lparr>p_tasks := p_tasks p @ [t], p_notify_one := p_notify_one p + 1,
       p_pushed := p_pushed p @ [t], p_late := (p_late p \<or> p_stoped p)\<rparr>"

definition pool_stop :: "pool \<Rightarrow> pool" where
  "pool_stop p = p\<lparr>p_stoped := True, p_notify_all := True\<rparr>"

text \<open>The two notifications: \<open>notify_one\<close> wakes the waiting worker \<open>i\<close>, or nobody when no
  worker waits.\<close>

definition notify_one :: "nat \<Rightarrow> pool \<Rightarrow> pool option" where
  "notify_one i p =
     (if p_notify_one p = 0 then None
      else if i < length (p_workers p) \<and> p_workers p ! i = Waiting
        then Some (p\<lparr>p_notify_one := p_notify_one p - 1, p_workers := (p_workers p)[i := Polling]\<rparr>)
      else if Waiting \<notin> set (p_workers p) then Some (p\<lparr>p_notify_one := p_notify_one p - 1\<rparr>)
      else None)"

definition wake :: "worker \<Rightarrow> worker" where
  "wake w = (if w = Waiting then Polling else w)"

definition notify_all :: "pool \<Rightarrow> pool option" where
  "notify_all p =
     (if p_notify_all p then Some (p\<lparr>p_notify_all := False, p_workers := map wake (p_workers p)\<rparr>)
      else None)"

text \<open>One turn of worker \<open>i\<close> in \<^verbatim>\<open>bind_run\<close>: the critical section, or the call of the task.\<close>

definition bind_run_step :: "nat \<Rightarrow> pool \<Rightarrow> pool option" where
  "bind_run_step i p =
     (if length (p_workers p) \<le> i then None
      else case p_workers p ! i of
          Polling \<Rightarrow>
            (case p_tasks p of
               t # ts \<Rightarrow> Some (p\<lparr>p_tasks := ts, p_started := p_started p @ [t],
                                  p_workers := (p_workers p)[i := Running t]\<rparr>)
             | [] \<Rightarrow> if p_stoped p then Some (p\<lparr>p_workers := (p_workers p)[i := Exited]\<rparr>)
                     else Some (p\<lparr>p_workers := (p_workers p)[i := Waiting]\<rparr>))
        | Running t \<Rightarrow>
            Some (p\<lparr>p_workers := (p_workers p)[i := Polling], p_done := p_done p @ [t],
                    p_errors := p_errors p + (if snd t then 1 else 0)\<rparr>)
        | Waiting \<Rightarrow> None
        | Exited \<Rightarrow> None)"

definition spurious_wake :: "nat \<Rightarrow> pool \<Rightarrow> pool option" where
  "spurious_wake i p =
     (if i < length (p_workers p) \<and> p_workers p ! i = Waiting
      then Some (p\<lparr>p_workers := (p_workers p)[i := Polling]\<rparr>) else None)"

text \<open>
  The destructor has an empty body: the members are destroyed, and destroying a
  \<^verbatim>\<open>std::thread\<close> that was never joined calls \<^verbatim>\<open>std::terminate\<close>, whether it has
  finished or not.
\<close>

definition pool_destroy :: "pool \<Rightarrow> cxx_error + unit" where
  "pool_destroy p = (if p_workers p = [] then Inr () else Inl Terminated)"

inductive pool_internal :: "pool \<Rightarrow> pool \<Rightarrow> bool" where
  worker_turn: "bind_run_step i p = Some p' \<Longrightarrow> pool_internal p p'"
| one_notified: "notify_one i p = Some p' \<Longrightarrow> pool_internal p p'"
| all_notified: "notify_all p = Some p' \<Longrightarrow> pool_internal p p'"

inductive pool_reach :: "pool \<Rightarrow> bool" where
  pool_init: "pool_reach (pool_new n)"
| pool_pushes: "pool_reach p \<Longrightarrow> pool_reach (pool_push t p)"
| pool_stops: "pool_reach p \<Longrightarrow> pool_reach (pool_stop p)"
| pool_steps: "pool_reach p \<Longrightarrow> pool_internal p p' \<Longrightarrow> pool_reach p'"
| pool_wakes: "pool_reach p \<Longrightarrow> spurious_wake i p = Some p' \<Longrightarrow> pool_reach p'"

inductive_cases pool_internalE: "pool_internal p p'"

definition running_of :: "worker \<Rightarrow> pool_task multiset" where
  "running_of w = (case w of Running t \<Rightarrow> {#t#} | _ \<Rightarrow> {#})"

definition running :: "worker list \<Rightarrow> pool_task multiset" where
  "running ws = sum_list (map running_of ws)"

definition active :: "worker \<Rightarrow> bool" where
  "active w \<longleftrightarrow> w \<noteq> Waiting \<and> w \<noteq> Exited"

definition quiescent :: "pool \<Rightarrow> bool" where
  "quiescent p \<longleftrightarrow> (\<forall>w \<in> set (p_workers p). \<not> active w) \<and> p_notify_one p = 0 \<and> \<not> p_notify_all p"

definition pool_inv :: "pool \<Rightarrow> bool" where
  "pool_inv p \<longleftrightarrow>
     p_workers p \<noteq> [] \<and>
     p_pushed p = p_started p @ p_tasks p \<and>
     mset (p_started p) = mset (p_done p) + running (p_workers p) \<and>
     (Exited \<in> set (p_workers p) \<longrightarrow> p_stoped p) \<and>
     (p_stoped p \<and> \<not> p_notify_all p \<longrightarrow> Waiting \<notin> set (p_workers p)) \<and>
     (p_tasks p \<noteq> [] \<and> p_notify_one p = 0 \<longrightarrow>
        (\<exists>w \<in> set (p_workers p). active w) \<or> set (p_workers p) = {Exited}) \<and>
     (\<not> p_late p \<and> Exited \<in> set (p_workers p) \<longrightarrow> p_tasks p = []) \<and>
     p_errors p = length (filter snd (p_done p))"

section \<open>Lemmas on the pool\<close>

lemma worker_split:
  assumes "i < length ws" and "ws ! i = w"
  obtains xs ys where "ws = xs @ w # ys" and "\<And>v. ws[i := v] = xs @ v # ys"
proof
  show "ws = take i ws @ w # drop (Suc i) ws" 
    unfolding assms(2) [symmetric] using assms(1) by (rule id_take_nth_drop)
  show "ws[i := v] = take i ws @ v # drop (Suc i) ws" for v
    using assms(1) by (rule upd_conv_take_nth_drop)
qed

lemma running_simps [simp]:
  "running [] = {#}"
  "running (w # ws) = running_of w + running ws"
  "running (xs @ ys) = running xs + running ys"
  "running_of (Running t) = {#t#}" "running_of Polling = {#}"
  "running_of Waiting = {#}" "running_of Exited = {#}"
  by (simp_all add: running_def running_of_def)

lemma running_inactive: "\<forall>w \<in> set ws. \<not> active w \<Longrightarrow> running ws = {#}"
  by (induction ws) (auto simp: active_def)

lemma active_simps [simp]:
  "active Polling" "active (Running t)" "\<not> active Waiting" "\<not> active Exited"
  by (simp_all add: active_def)

lemma wake_simps [simp]:
  "wake Waiting = Polling" "wake Polling = Polling" "wake (Running t) = Running t" "wake Exited = Exited"
  by (simp_all add: wake_def)

lemma wake_neq_Waiting [simp]: "wake w \<noteq> Waiting"
  by (simp add: wake_def)

lemma wake_eq_Exited [simp]: "Exited = wake w \<longleftrightarrow> w = Exited"
  by (auto simp: wake_def)

lemma running_wake: "running (map wake ws) = running ws"
proof (induction ws)
  case (Cons w ws)
  then show ?case by (cases w) simp_all
qed simp

text \<open>The four ways a turn of a worker goes, and what each needs.\<close>

lemma bind_run_stepE:
  assumes "bind_run_step i p = Some p'"
  obtains
    (take) xs ys t ts where "p_workers p = xs @ Polling # ys" "p_tasks p = t # ts"
      "p' = p\<lparr>p_tasks := ts, p_started := p_started p @ [t], p_workers := xs @ Running t # ys\<rparr>"
  | (exit) xs ys where "p_workers p = xs @ Polling # ys" "p_tasks p = []" "p_stoped p"
      "p' = p\<lparr>p_workers := xs @ Exited # ys\<rparr>"
  | (sleep) xs ys where "p_workers p = xs @ Polling # ys" "p_tasks p = []" "\<not> p_stoped p"
      "p' = p\<lparr>p_workers := xs @ Waiting # ys\<rparr>"
  | (finish) xs ys t where "p_workers p = xs @ Running t # ys"
      "p' = p\<lparr>p_workers := xs @ Polling # ys, p_done := p_done p @ [t],
              p_errors := p_errors p + (if snd t then 1 else 0)\<rparr>"
proof -
  have i: "i < length (p_workers p)"
    using assms by (auto simp: bind_run_step_def split: if_splits)
  then obtain xs ys where ws: "p_workers p = xs @ (p_workers p ! i) # ys"
    "\<And>v. (p_workers p)[i := v] = xs @ v # ys" by (rule worker_split) auto
  show ?thesis
  proof (cases "p_workers p ! i")
    case Polling
    then show ?thesis using assms i ws take exit sleep
      by (auto simp: bind_run_step_def split: list.splits if_splits)
  next
    case (Running t)
    then show ?thesis using assms i ws finish by (auto simp: bind_run_step_def)
  qed (use assms i in \<open>auto simp: bind_run_step_def\<close>)
qed

lemma notify_oneE:
  assumes "notify_one i p = Some p'"
  obtains
    (wakes) xs ys where "p_workers p = xs @ Waiting # ys" "0 < p_notify_one p"
      "p' = p\<lparr>p_notify_one := p_notify_one p - 1, p_workers := xs @ Polling # ys\<rparr>"
  | (nobody) "Waiting \<notin> set (p_workers p)" "0 < p_notify_one p"
      "p' = p\<lparr>p_notify_one := p_notify_one p - 1\<rparr>"
proof (cases "i < length (p_workers p) \<and> p_workers p ! i = Waiting")
  case True
  then obtain xs ys where "p_workers p = xs @ Waiting # ys"
    "\<And>v. (p_workers p)[i := v] = xs @ v # ys" by (auto elim: worker_split)
  then show ?thesis using True assms wakes by (auto simp: notify_one_def split: if_splits)
next
  case False
  then show ?thesis using assms nobody by (auto simp: notify_one_def split: if_splits)
qed

lemma pool_inv_new: "pool_inv (pool_new n)"
proof -
  have "running (replicate k Polling) = {#}" for k by (induction k) simp_all
  then show ?thesis by (auto simp: pool_inv_def pool_new_def Let_def)
qed

lemma pool_inv_push: "pool_inv p \<Longrightarrow> pool_inv (pool_push t p)"
  by (auto simp: pool_inv_def pool_push_def)

lemma pool_inv_stop: "pool_inv p \<Longrightarrow> pool_inv (pool_stop p)"
  by (auto simp: pool_inv_def pool_stop_def)

lemma pool_inv_turn:
  assumes "pool_inv p" and "bind_run_step i p = Some p'"
  shows "pool_inv p'"
  using assms(2,1) by (cases rule: bind_run_stepE) (auto simp: pool_inv_def)

lemma pool_inv_notify_one:
  assumes "pool_inv p" and "notify_one i p = Some p'"
  shows "pool_inv p'"
  using assms(2)
proof (cases rule: notify_oneE)
  case (wakes xs ys)
  then show ?thesis using assms(1) by (auto simp: pool_inv_def)
next
  case nobody
  have "set (p_workers p) = {Exited}" if "\<forall>w \<in> set (p_workers p). \<not> active w"
    using that assms(1) nobody(1) by (cases "p_workers p") (auto simp: pool_inv_def active_def)
  then show ?thesis using assms(1) nobody by (auto simp: pool_inv_def)
qed

lemma pool_inv_notify_all: "pool_inv p \<Longrightarrow> notify_all p = Some p' \<Longrightarrow> pool_inv p'"
proof -
  assume inv: "pool_inv p" and p': "notify_all p = Some p'"
  have p': "p' = p\<lparr>p_notify_all := False, p_workers := map wake (p_workers p)\<rparr>"
    using p' by (auto simp: notify_all_def split: if_splits)
  define ws where "ws = map wake (p_workers p)"
  have act: "active (wake w) \<longleftrightarrow> w \<noteq> Exited" for w by (cases w) auto
  have ex: "Exited \<in> set ws \<longleftrightarrow> Exited \<in> set (p_workers p)" and wt: "Waiting \<notin> set ws"
    unfolding ws_def by (auto simp: image_iff) (metis wake_neq_Waiting)
  have ne: "ws \<noteq> []" using inv by (simp add: ws_def pool_inv_def)
  have all: "(\<exists>w \<in> set ws. active w) \<or> set ws = {Exited}"
  proof (cases "\<forall>w \<in> set (p_workers p). w = Exited")
    case True
    then have "\<forall>w \<in> set ws. w = Exited" by (auto simp: ws_def)
    then show ?thesis using ne by (cases ws) auto
  qed (auto simp: ws_def act)
  show ?thesis using inv ex wt ne all running_wake [of "p_workers p"]
    unfolding p' ws_def [symmetric] by (simp add: pool_inv_def)
qed

lemma pool_inv_wake: "pool_inv p \<Longrightarrow> spurious_wake i p = Some p' \<Longrightarrow> pool_inv p'"
proof -
  assume inv: "pool_inv p" and p': "spurious_wake i p = Some p'"
  then have "i < length (p_workers p)" "p_workers p ! i = Waiting"
    by (auto simp: spurious_wake_def split: if_splits)
  then obtain xs ys where "p_workers p = xs @ Waiting # ys" "\<And>v. (p_workers p)[i := v] = xs @ v # ys"
    by (rule worker_split) (rule that)
  moreover from this have "p' = p\<lparr>p_workers := xs @ Polling # ys\<rparr>"
    using p' by (auto simp: spurious_wake_def split: if_splits)
  ultimately show ?thesis using inv by (auto simp: pool_inv_def)
qed

lemma pool_inv_internal: "pool_internal p p' \<Longrightarrow> pool_inv p \<Longrightarrow> pool_inv p'"
  by (erule pool_internalE)
    (rule pool_inv_turn pool_inv_notify_one pool_inv_notify_all, assumption+)+

lemma pool_reach_inv: "pool_reach p \<Longrightarrow> pool_inv p"
proof (induction rule: pool_reach.induct)
  case (pool_steps p p')
  then show ?case by (blast intro: pool_inv_internal)
next
  case (pool_wakes p i p')
  then show ?case by (blast intro: pool_inv_wake)
qed (rule pool_inv_new pool_inv_push pool_inv_stop; assumption?)+

lemma pool_internal_keeps:
  "pool_internal p p' \<Longrightarrow> p_pushed p' = p_pushed p \<and> p_late p' = p_late p \<and> p_stoped p' = p_stoped p"
  by (erule pool_internalE)
    (auto elim!: bind_run_stepE notify_oneE simp: notify_all_def split: if_splits)

text \<open>Every internal step uses up a bounded supply of work.\<close>

definition worker_weight :: "worker \<Rightarrow> nat" where
  "worker_weight w = (case w of Polling \<Rightarrow> 1 | Running _ \<Rightarrow> 2 | _ \<Rightarrow> 0)"

definition pool_measure :: "pool \<Rightarrow> nat" where
  "pool_measure p =
     2 * length (p_tasks p) + sum_list (map worker_weight (p_workers p)) + 2 * p_notify_one p +
     (if p_notify_all p then length (p_workers p) + 1 else 0)"

lemma wake_weight: "sum_list (map (worker_weight \<circ> wake) ws) \<le> sum_list (map worker_weight ws) + length ws"
proof (induction ws)
  case (Cons w ws)
  then show ?case by (cases w) (simp_all add: worker_weight_def)
qed simp

lemma pool_internal_measure: "pool_internal p p' \<Longrightarrow> pool_measure p' < pool_measure p"
proof (erule pool_internalE)
  show "bind_run_step i p = Some p' \<Longrightarrow> pool_measure p' < pool_measure p" for i
    by (erule bind_run_stepE) (simp_all add: pool_measure_def worker_weight_def)
  show "notify_one i p = Some p' \<Longrightarrow> pool_measure p' < pool_measure p" for i
    by (erule notify_oneE) (simp_all add: pool_measure_def worker_weight_def)
  show "notify_all p = Some p' \<Longrightarrow> pool_measure p' < pool_measure p"
    using wake_weight [of "p_workers p"]
    by (auto simp: notify_all_def pool_measure_def split: if_splits)
qed

lemma busy_pool_moves:
  assumes "\<not> quiescent p"
  shows "\<exists>p'. pool_internal p p'"
proof -
  consider w where "w \<in> set (p_workers p)" "active w" | "0 < p_notify_one p" | "p_notify_all p"
    using assms by (auto simp: quiescent_def)
  then show ?thesis
  proof cases
    case 1
    then obtain i where i: "i < length (p_workers p)" "active (p_workers p ! i)"
      by (auto simp: in_set_conv_nth)
    then have "bind_run_step i p \<noteq> None"
      by (cases "p_workers p ! i") (auto simp: bind_run_step_def active_def split: list.splits)
    then show ?thesis by (blast intro: worker_turn)
  next
    case 2
    show ?thesis
    proof (cases "Waiting \<in> set (p_workers p)")
      case True
      then obtain i where "i < length (p_workers p)" "p_workers p ! i = Waiting"
        by (auto simp: in_set_conv_nth)
      then have "notify_one i p \<noteq> None" using 2 by (simp add: notify_one_def)
      then show ?thesis by (blast intro: one_notified)
    next
      case False
      then have "notify_one (length (p_workers p)) p \<noteq> None" using 2 by (simp add: notify_one_def)
      then show ?thesis by (blast intro: one_notified)
    qed
  next
    case 3
    then have "notify_all p \<noteq> None" by (simp add: notify_all_def)
    then show ?thesis by (blast intro: all_notified)
  qed
qed

lemma pool_becomes_quiescent: "\<exists>p'. pool_internal\<^sup>*\<^sup>* p p' \<and> quiescent p'"
proof (induction "pool_measure p" arbitrary: p rule: less_induct)
  case less
  show ?case
  proof (cases "quiescent p")
    case False
    then obtain p1 where p1: "pool_internal p p1" using busy_pool_moves by blast
    then obtain p' where "pool_internal\<^sup>*\<^sup>* p1 p'" "quiescent p'"
      using less pool_internal_measure by blast
    then show ?thesis using p1 by (meson converse_rtranclp_into_rtranclp)
  qed blast
qed

lemma pool_internals_keep:
  "pool_internal\<^sup>*\<^sup>* p p' \<Longrightarrow> pool_inv p \<Longrightarrow>
     pool_inv p' \<and> p_pushed p' = p_pushed p \<and> p_late p' = p_late p \<and> p_stoped p' = p_stoped p"
  by (induction rule: rtranclp_induct) (auto dest: pool_inv_internal pool_internal_keeps)

lemma quiescent_pool_is_drained:
  assumes "pool_inv p" and "quiescent p" and "\<not> p_late p"
  shows "mset (p_done p) = mset (p_pushed p) \<and> p_tasks p = [] \<and>
         (p_stoped p \<longrightarrow> set (p_workers p) = {Exited})"
proof -
  have idle: "\<forall>w \<in> set (p_workers p). \<not> active w" "p_notify_one p = 0" "\<not> p_notify_all p"
    using assms(2) by (simp_all add: quiescent_def)
  have tasks: "p_tasks p = []" using assms(1,3) idle by (fastforce simp: pool_inv_def)
  moreover have "mset (p_done p) = mset (p_pushed p)"
    using assms(1) running_inactive [OF idle(1)] tasks by (simp add: pool_inv_def)
  moreover have "set (p_workers p) = {Exited}" if "p_stoped p"
    using that assms(1) idle by (cases "p_workers p") (auto simp: pool_inv_def active_def)
  ultimately show ?thesis by blast
qed

section \<open>Properties\<close>

text \<open>C11: In every interleaving of pushes, stops, workers, notifications and spurious wake-ups,
  tasks are taken in the order they were pushed, no task is taken twice or lost, what was taken is
  either finished or running, a worker leaves only after \<^verbatim>\<open>stop\<close>, and every task that threw
  was caught.\<close>

theorem pool_accounts_for_tasks:
  assumes "pool_reach p"
  shows "p_pushed p = p_started p @ p_tasks p \<and>
         mset (p_started p) = mset (p_done p) + running (p_workers p) \<and>
         (Exited \<in> set (p_workers p) \<longrightarrow> p_stoped p) \<and>
         p_errors p = length (filter snd (p_done p))"
  using pool_reach_inv [OF assms] by (simp add: pool_inv_def)

text \<open>C10: No wake-up is lost: from every reachable state without a push after \<^verbatim>\<open>stop\<close>, the
  workers and the outstanding notifications come to rest by themselves, however they are
  scheduled, and when they do every pushed task has been run exactly once; if the pool was
  stopped, all workers have left by then.\<close>

theorem pool_drains:
  assumes "pool_reach p" and "\<not> p_late p"
  shows "wfP pool_internal\<inverse>\<inverse> \<and>
         (\<exists>p'. pool_internal\<^sup>*\<^sup>* p p' \<and> quiescent p') \<and>
         (\<forall>p'. pool_internal\<^sup>*\<^sup>* p p' \<and> quiescent p' \<longrightarrow>
            mset (p_done p') = mset (p_pushed p) \<and> p_tasks p' = [] \<and>
            (p_stoped p \<longrightarrow> set (p_workers p') = {Exited}))"
proof (intro conjI allI impI)
  show "wfP pool_internal\<inverse>\<inverse>"
    by (rule wfp_if_convertible_to_nat [of _ pool_measure]) (simp add: pool_internal_measure)
  show "\<exists>p'. pool_internal\<^sup>*\<^sup>* p p' \<and> quiescent p'" by (rule pool_becomes_quiescent)
  fix p' assume p': "pool_internal\<^sup>*\<^sup>* p p' \<and> quiescent p'"
  then have keep: "pool_inv p'" "p_pushed p' = p_pushed p" "p_late p' = p_late p" "p_stoped p' = p_stoped p"
    using pool_internals_keep pool_reach_inv [OF assms(1)] by blast+
  show "mset (p_done p') = mset (p_pushed p)" "p_tasks p' = []"
    "p_stoped p \<Longrightarrow> set (p_workers p') = {Exited}"
    using quiescent_pool_is_drained [of p'] p' keep assms(2) by simp_all
qed

text \<open>Destroying a pool calls \<^verbatim>\<open>std::terminate\<close> in every reachable state, also after
  \<^verbatim>\<open>stop\<close> and after all workers have left: the threads are never joined.\<close>

theorem pool_destructor_terminates:
  assumes "pool_reach p"
  shows "pool_destroy p = Inl Terminated"
  using pool_reach_inv [OF assms] by (simp add: pool_destroy_def pool_inv_def)

text \<open>The program of \<^verbatim>\<open>thread_pool/main.cpp\<close>: a task that throws, ten that print, \<^verbatim>\<open>stop\<close>, and the
  destructor at the end of \<^verbatim>\<open>main\<close>.  Whatever the workers have done by then, it terminates the
  process.\<close>

definition pool_main_tasks :: "pool_task list" where
  "pool_main_tasks = (0, True) # map (\<lambda>i. (i + 1, False)) [0..<10]"

inductive pool_main :: "nat \<Rightarrow> pool \<Rightarrow> bool" for n where
  main_pushed: "pool_internal\<^sup>*\<^sup>* (fold pool_push pool_main_tasks (pool_new n)) p \<Longrightarrow>
    pool_internal\<^sup>*\<^sup>* (pool_stop p) q \<Longrightarrow> pool_main n q"

lemma pool_reach_internals: "pool_internal\<^sup>*\<^sup>* p q \<Longrightarrow> pool_reach p \<Longrightarrow> pool_reach q"
  by (induction rule: rtranclp_induct) (auto intro: pool_steps)

lemma pool_reach_pushes: "pool_reach p \<Longrightarrow> pool_reach (fold pool_push ts p)"
  by (induction ts arbitrary: p) (auto intro: pool_pushes)

lemma pool_main_terminates: "pool_main n q \<Longrightarrow> pool_destroy q = Inl Terminated"
proof (induction rule: pool_main.induct)
  case (main_pushed p q)
  then have "pool_reach q"
    by (meson pool_reach_internals pool_reach_pushes pool_init pool_stops)
  from pool_reach_inv [OF this] show ?case by (simp add: pool_destroy_def pool_inv_def)
qed

section \<open>Threads and the latch\<close>




lemma count_downs_sub: "count_downs k c = c - of_nat k"
  by (induction k arbitrary: c) (simp_all add: count_down_def)

text \<open>A latch of \<^verbatim>\<open>n\<close> lets its waiters pass after exactly \<^verbatim>\<open>n\<close> calls of \<^verbatim>\<open>down\<close>; a
  further call wraps the counter to 65535 and blocks later waiters.\<close>

theorem count_latch:
  assumes "k < 2 ^ 16"
  shows "(count_passes (count_downs k (count_new n)) \<longleftrightarrow> k = unat n) \<and>
         fst (count_down (count_downs (unat n) (count_new n))) = 65535"
proof -
  have "n - of_nat k = 0 \<longleftrightarrow> k = unat n"
  proof
    assume "n - of_nat k = 0"
    then have "unat n = unat (of_nat k :: u16)" by simp
    then show "k = unat n" using assms by (simp add: unat_of_nat)
  qed simp
  then show ?thesis by (simp add: count_passes_def count_downs_sub count_new_def count_down_def)
qed

section \<open>Concrete runs\<close>

lemma pool_accounts_for_tasks_witness:
  "p_pushed (pool_push (7, True) (pool_new 2)) = [] @ [(7, True)]"
  using pool_accounts_for_tasks [OF pool_pushes [OF pool_init [of 2], of "(7, True)"]]
  by (simp add: pool_push_def pool_new_def)

lemma pool_drains_witness:
  "\<exists>p'. pool_internal\<^sup>*\<^sup>* (pool_stop (pool_push (7, True) (pool_new 2))) p' \<and> quiescent p' \<and> p_done p' = [(7, True)]"
proof -
  let ?p = "pool_stop (pool_push (7, True) (pool_new 2))"
  have "pool_reach ?p" by (intro pool_reach.intros)
  moreover have "\<not> p_late ?p" "p_pushed ?p = [(7, True)]"
    by (simp_all add: pool_stop_def pool_push_def pool_new_def)
  ultimately obtain p' where "pool_internal\<^sup>*\<^sup>* ?p p'" "quiescent p'" "mset (p_done p') = mset [(7, True)]"
    using pool_drains [of ?p] by metis
  then show ?thesis by (auto simp: mset_single_iff)
qed

lemma pool_destructor_terminates_witness: "pool_destroy (pool_stop (pool_new 0)) = Inl Terminated"
  using pool_destructor_terminates [OF pool_stops [OF pool_init [of 0]]] .


lemma count_latch_witness: "count_passes (count_downs 1 (count_new 1))"
  using count_latch [of 1 1] by simp

end
