(* ===== verification/Atomics.thy ===== *)
theory Atomics
  imports Prelude
begin

text \<open>
  The two hand-over protocols of \<^verbatim>\<open>set/atomic\<close>: \<^verbatim>\<open>Foo\<close> (\<^verbatim>\<open>main.cpp\<close>, three
  functions that must run in order) and \<^verbatim>\<open>ZeroEvenOdd\<close> (\<^verbatim>\<open>main1.cpp\<close>, three threads
  that print \<open>0102030\<dots>\<close>).  Each load, store and print is one step of its thread, and the
  threads are interleaved arbitrarily; a load that does not see the awaited value leaves the state
  as it was, so a spinning thread has no step.
\<close>

section \<open>Foo\<close>

datatype foo_pc = FSpin | FPrint | FStore | FDone

record foo =
  cnt :: u16
  pc_first :: foo_pc
  pc_second :: foo_pc
  pc_third :: foo_pc
  foo_out :: "string list"

definition foo_new :: foo where
  "foo_new = \<lparr>cnt = 1, pc_first = FPrint, pc_second = FSpin, pc_third = FSpin, foo_out = []\<rparr>"

definition foo_first :: "foo \<Rightarrow> foo option" where
  "foo_first s =
     (case pc_first s of
        FPrint \<Rightarrow> Some (s\<lparr>foo_out := foo_out s @ [''first''], pc_first := FStore\<rparr>)
      | FStore \<Rightarrow> Some (s\<lparr>cnt := 2, pc_first := FDone\<rparr>)
      | _ \<Rightarrow> None)"

definition foo_second :: "foo \<Rightarrow> foo option" where
  "foo_second s =
     (case pc_second s of
        FSpin \<Rightarrow> if cnt s \<noteq> 2 then None else Some (s\<lparr>pc_second := FPrint\<rparr>)
      | FPrint \<Rightarrow> Some (s\<lparr>foo_out := foo_out s @ [''second''], pc_second := FStore\<rparr>)
      | FStore \<Rightarrow> Some (s\<lparr>cnt := 3, pc_second := FDone\<rparr>)
      | FDone \<Rightarrow> None)"

definition foo_third :: "foo \<Rightarrow> foo option" where
  "foo_third s =
     (case pc_third s of
        FSpin \<Rightarrow> if cnt s \<noteq> 3 then None else Some (s\<lparr>pc_third := FPrint\<rparr>)
      | FPrint \<Rightarrow> Some (s\<lparr>foo_out := foo_out s @ [''third''], pc_third := FDone\<rparr>)
      | _ \<Rightarrow> None)"

definition foo_step :: "foo \<Rightarrow> foo \<Rightarrow> bool" where
  "foo_step s s' \<longleftrightarrow> foo_first s = Some s' \<or> foo_second s = Some s' \<or> foo_third s = Some s'"

section \<open>ZeroEvenOdd\<close>










section \<open>Protocols with one enabled thread\<close>

text \<open>
  Both protocols hand a token around: whatever the interleaving, exactly one thread can move.
  Such a system follows one sequence of states to its end, so what holds at its end holds for
  every schedule.
\<close>

locale token_protocol =
  fixes step :: "'s \<Rightarrow> 's \<Rightarrow> bool" and at :: "nat \<Rightarrow> 's" and last :: nat
  assumes only_next: "t < last \<Longrightarrow> step (at t) s \<longleftrightarrow> s = at (Suc t)"
    and stops: "\<not> step (at last) s"
begin

lemma reached: "step\<^sup>*\<^sup>* (at 0) s \<Longrightarrow> \<exists>t \<le> last. s = at t"
proof (induction rule: rtranclp_induct)
  case (step s s')
  then obtain t where t: "t \<le> last" "s = at t" by blast
  then have "t < last" using step.hyps(2) stops by (cases "t = last") auto
  then show ?case using t step.hyps(2) only_next by (metis Suc_leI)
qed blast

lemma runs: "t \<le> last \<Longrightarrow> step\<^sup>*\<^sup>* (at 0) (at t)"
proof (induction t)
  case (Suc t)
  then have "step (at t) (at (Suc t))" by (simp add: only_next)
  then show ?case using Suc by (simp add: rtranclp.rtrancl_into_rtrancl)
qed simp

lemma finishes: "step\<^sup>*\<^sup>* (at 0) (at last)"
  by (simp add: runs)

lemma end_unique:
  assumes "step\<^sup>*\<^sup>* (at 0) s" and "\<forall>s'. \<not> step s s'"
  shows "s = at last"
proof -
  obtain t where t: "t \<le> last" "s = at t" using reached [OF assms(1)] by blast
  then have "\<not> t < last" using assms(2) only_next by blast
  then show ?thesis using t by simp
qed

lemma can_finish: "step\<^sup>*\<^sup>* (at 0) s \<Longrightarrow> step\<^sup>*\<^sup>* s (at last)"
proof -
  assume "step\<^sup>*\<^sup>* (at 0) s"
  then obtain t where t: "t \<le> last" "s = at t" using reached by blast
  have "step\<^sup>*\<^sup>* (at t) (at (t + k))" if "t + k \<le> last" for k
    using that
  proof (induction k)
    case (Suc k)
    then have "step (at (t + k)) (at (t + Suc k))" by (simp add: only_next)
    then show ?case using Suc by (simp add: rtranclp.rtrancl_into_rtrancl)
  qed simp
  from this [of "last - t"] show ?thesis using t by simp
qed

end

definition foo_at :: "nat \<Rightarrow> foo" where
  "foo_at t =
     \<lparr>cnt = (if t < 2 then 1 else if t < 5 then 2 else 3),
      pc_first = (if t = 0 then FPrint else if t = 1 then FStore else FDone),
      pc_second = (if t < 3 then FSpin else if t = 3 then FPrint else if t = 4 then FStore else FDone),
      pc_third = (if t < 6 then FSpin else if t = 6 then FPrint else FDone),
      foo_out = (if t < 1 then [] else if t < 4 then [''first''] else if t < 7 then [''first'', ''second'']
                 else [''first'', ''second'', ''third''])\<rparr>"

lemmas foo_defs = foo_step_def foo_first_def foo_second_def foo_third_def foo_at_def

interpretation fp: token_protocol foo_step foo_at 7
proof unfold_locales
  fix t :: nat and s
  show "foo_step (foo_at t) s \<longleftrightarrow> s = foo_at (Suc t)" if lt: "t < 7"
  proof -
    consider "t = 0" | "t = 1" | "t = 2" | "t = 3" | "t = 4" | "t = 5" | "t = 6" using lt by linarith
    then show ?thesis by cases (auto simp: foo_defs)
  qed
  show "\<not> foo_step (foo_at 7) s" by (simp add: foo_defs)
qed

text \<open>The state of \<^verbatim>\<open>ZeroEvenOdd\<close> after \<open>6 * k + r\<close> steps: \<open>k\<close> numbers are out.\<close>

definition pairs_upto :: "nat \<Rightarrow> int list" where
  "pairs_upto k = concat (map (\<lambda>j. [0, int j]) [1..<Suc k])"



lemma pairs_upto_Suc [simp]: "pairs_upto (Suc k) = pairs_upto k @ [0, int k + 1]"
  by (simp add: pairs_upto_def)






section \<open>Properties\<close>

text \<open>Whatever the schedule, the three functions print in the order first, second, third: at
  every moment the output is a prefix of these three, the run can always be completed, and it
  stops only when all three are out.\<close>

theorem foo_prints_in_order:
  assumes "foo_step\<^sup>*\<^sup>* foo_new s"
  shows "(\<exists>k. foo_out s = take k [''first'', ''second'', ''third'']) \<and>
         (\<exists>e. foo_step\<^sup>*\<^sup>* s e \<and> foo_out e = [''first'', ''second'', ''third'']) \<and>
         ((\<forall>s'. \<not> foo_step s s') \<longrightarrow> foo_out s = [''first'', ''second'', ''third''])"
proof (intro conjI impI)
  have "foo_new = foo_at 0" by (simp add: foo_new_def foo_at_def)
  then have s: "foo_step\<^sup>*\<^sup>* (foo_at 0) s" using assms by simp
  have out: "foo_out (foo_at 7) = [''first'', ''second'', ''third'']" by (simp add: foo_at_def)
  obtain t where "s = foo_at t" using fp.reached [OF s] by blast
  moreover have "\<exists>k. foo_out (foo_at t) = take k [''first'', ''second'', ''third'']"
    by (rule exI [of _ "if t < 1 then 0 else if t < 4 then 1 else if t < 7 then 2 else 3"])
      (simp add: foo_at_def numeral_eq_Suc)
  ultimately show "\<exists>k. foo_out s = take k [''first'', ''second'', ''third'']" by simp
  show "\<exists>e. foo_step\<^sup>*\<^sup>* s e \<and> foo_out e = [''first'', ''second'', ''third'']"
    using fp.can_finish [OF s] out by blast
  show "foo_out s = [''first'', ''second'', ''third'']" if "\<forall>s'. \<not> foo_step s s'"
    using fp.end_unique [OF s that] out by simp
qed


lemma foo_prints_in_order_witness:
  "\<exists>e. foo_step\<^sup>*\<^sup>* foo_new e \<and> foo_out e = [''first'', ''second'', ''third'']"
  using foo_prints_in_order [OF rtranclp.rtrancl_refl] by blast


end
