(* ===== verification/Relaxed_Order.thy ===== *)
theory Relaxed_Order
  imports Prelude
begin

text \<open>
  \<^verbatim>\<open>set/atomic/main2.cpp\<close>: two threads and two flags with relaxed loads and stores.  The memory
  model is the part of the C++ one the program needs: every location has a modification order (the
  list of its messages), every thread a view of each location (the newest message it knows), a load
  may return any message that is not older than the thread's view, and a message of a releasing
  store carries the view of its thread, which an acquiring load takes over.  Starting and joining a
  thread hand over the whole view.  The order used for the flag \<^verbatim>\<open>y\<close> is an argument, \<open>Relaxed\<close>
  in the source.
\<close>

datatype loc = X | Y | Z

datatype memory_order = Relaxed | AcqRel

type_synonym view = "loc \<Rightarrow> nat"

record message =
  msg_val :: int
  msg_view :: view

type_synonym memory = "loc \<Rightarrow> message list"

definition merge_views :: "view \<Rightarrow> view \<Rightarrow> view" where
  "merge_views v w l = max (v l) (w l)"

definition atomic_store :: "memory_order \<Rightarrow> loc \<Rightarrow> int \<Rightarrow> memory \<times> view \<Rightarrow> memory \<times> view" where
  "atomic_store ord l n mv =
     (case mv of (m, v) \<Rightarrow>
        let v' = v(l := length (m l));
            carried = (case ord of AcqRel \<Rightarrow> v' | Relaxed \<Rightarrow> (\<lambda>_. 0)(l := length (m l)))
        in (m(l := m l @ [\<lparr>msg_val = n, msg_view = carried\<rparr>]), v'))"

definition can_read :: "memory \<Rightarrow> view \<Rightarrow> loc \<Rightarrow> nat \<Rightarrow> bool" where
  "can_read m v l i \<longleftrightarrow> v l \<le> i \<and> i < length (m l)"

definition atomic_load :: "memory_order \<Rightarrow> loc \<Rightarrow> nat \<Rightarrow> memory \<Rightarrow> view \<Rightarrow> int \<times> view" where
  "atomic_load ord l i m v =
     (msg_val (m l ! i),
      case ord of AcqRel \<Rightarrow> merge_views (v(l := i)) (msg_view (m l ! i)) | Relaxed \<Rightarrow> v(l := i))"

text \<open>An atomic increment reads the newest message.\<close>

definition atomic_increment :: "loc \<Rightarrow> memory \<times> view \<Rightarrow> memory \<times> view" where
  "atomic_increment l mv = atomic_store AcqRel l (msg_val (last (fst mv l)) + 1) mv"

section \<open>The program\<close>

datatype writer_pc = StoreX | StoreY | WriterDone
datatype reader_pc = SpinY | LoadX | IncZ | ReaderDone

record relaxed_state =
  r_mem :: memory
  w_pc :: writer_pc
  w_view :: view
  r_pc :: reader_pc
  r_view :: view
  asserted :: "(cxx_error + unit) option"

text \<open>Static initialisation, the three stores of \<^verbatim>\<open>main\<close> and the start of the threads.\<close>

definition main2_start :: relaxed_state where
  "main2_start =
     (let (m, v) = (atomic_store AcqRel Z 0 \<circ> atomic_store AcqRel Y 0 \<circ> atomic_store AcqRel X 0)
                     ((\<lambda>_. [\<lparr>msg_val = 0, msg_view = (\<lambda>_. 0)\<rparr>]), (\<lambda>_. 0))
      in \<lparr>r_mem = m, w_pc = StoreX, w_view = v, r_pc = SpinY, r_view = v, asserted = None\<rparr>)"

fun write_x_then_y :: "memory_order \<Rightarrow> relaxed_state \<Rightarrow> relaxed_state option" where
  "write_x_then_y ord s =
     (case w_pc s of
        StoreX \<Rightarrow> let (m, v) = atomic_store Relaxed X 1 (r_mem s, w_view s)
                  in Some (s\<lparr>r_mem := m, w_view := v, w_pc := StoreY\<rparr>)
      | StoreY \<Rightarrow> let (m, v) = atomic_store ord Y 1 (r_mem s, w_view s)
                  in Some (s\<lparr>r_mem := m, w_view := v, w_pc := WriterDone\<rparr>)
      | WriterDone \<Rightarrow> None)"

text \<open>The reader's step; \<open>i\<close> is the message a load returns.\<close>

fun read_y_then_x :: "memory_order \<Rightarrow> nat \<Rightarrow> relaxed_state \<Rightarrow> relaxed_state option" where
  "read_y_then_x ord i s =
     (case r_pc s of
        SpinY \<Rightarrow>
          if can_read (r_mem s) (r_view s) Y i
          then let (n, v) = atomic_load ord Y i (r_mem s) (r_view s)
               in Some (s\<lparr>r_view := v, r_pc := (if n = 0 then SpinY else LoadX)\<rparr>)
          else None
      | LoadX \<Rightarrow>
          if can_read (r_mem s) (r_view s) X i
          then let (n, v) = atomic_load Relaxed X i (r_mem s) (r_view s)
               in Some (s\<lparr>r_view := v, r_pc := (if n = 0 then ReaderDone else IncZ)\<rparr>)
          else None
      | IncZ \<Rightarrow> let (m, v) = atomic_increment Z (r_mem s, r_view s)
                in Some (s\<lparr>r_mem := m, r_view := v, r_pc := ReaderDone\<rparr>)
      | ReaderDone \<Rightarrow> None)"

text \<open>After both joins \<^verbatim>\<open>main\<close> knows what the threads knew, loads \<^verbatim>\<open>z\<close> and asserts.\<close>

fun main2_check :: "nat \<Rightarrow> relaxed_state \<Rightarrow> relaxed_state option" where
  "main2_check i s =
     (if w_pc s = WriterDone \<and> r_pc s = ReaderDone \<and> asserted s = None \<and>
         can_read (r_mem s) (merge_views (w_view s) (r_view s)) Z i
      then Some (s\<lparr>asserted := Some (assert_that (msg_val (r_mem s Z ! i) \<noteq> 0))\<rparr>)
      else None)"

inductive main2_step :: "memory_order \<Rightarrow> relaxed_state \<Rightarrow> relaxed_state \<Rightarrow> bool" for ord where
  writer: "write_x_then_y ord s = Some s' \<Longrightarrow> main2_step ord s s'"
| reader: "read_y_then_x ord i s = Some s' \<Longrightarrow> main2_step ord s s'"
| check: "main2_check i s = Some s' \<Longrightarrow> main2_step ord s s'"

abbreviation main2_reaches :: "memory_order \<Rightarrow> relaxed_state \<Rightarrow> bool" where
  "main2_reaches ord \<equiv> (main2_step ord)\<^sup>*\<^sup>* main2_start"

section \<open>What the threads can see\<close>

definition vals :: "memory \<Rightarrow> loc \<Rightarrow> int list" where
  "vals m l = map msg_val (m l)"

fun written :: "writer_pc \<Rightarrow> loc \<Rightarrow> int list" where
  "written StoreX l = [0, 0]"
| "written StoreY l = (if l = X then [0, 0, 1] else [0, 0])"
| "written WriterDone l = (if l = Z then [0, 0] else [0, 0, 1])"

definition releases :: "memory_order \<Rightarrow> relaxed_state \<Rightarrow> bool" where
  "releases ord s \<longleftrightarrow> (ord = AcqRel \<longrightarrow>
     (w_pc s \<noteq> StoreX \<longrightarrow> 2 \<le> w_view s X) \<and>
     (w_pc s = WriterDone \<longrightarrow> 2 \<le> msg_view (r_mem s Y ! 2) X) \<and>
     (r_pc s = LoadX \<longrightarrow> 2 \<le> r_view s X) \<and>
     (r_pc s = ReaderDone \<longrightarrow> vals (r_mem s) Z = [0, 0, 1]))"

definition mem_ok :: "relaxed_state \<Rightarrow> bool" where
  "mem_ok s \<longleftrightarrow> vals (r_mem s) X = written (w_pc s) X \<and> vals (r_mem s) Y = written (w_pc s) Y \<and>
     (r_pc s \<noteq> SpinY \<longrightarrow> w_pc s = WriterDone) \<and>
     (vals (r_mem s) Z = [0, 0] \<or> r_pc s = ReaderDone \<and> vals (r_mem s) Z = [0, 0, 1])"

definition known :: "memory \<Rightarrow> view \<Rightarrow> bool" where
  "known m v \<longleftrightarrow> v X < length (vals m X) \<and> v Y < length (vals m Y) \<and> v Z \<le> 1"

definition view_ok :: "relaxed_state \<Rightarrow> bool" where
  "view_ok s \<longleftrightarrow> known (r_mem s) (w_view s) \<and> w_view s Z = 1 \<and>
     (\<forall>msg \<in> set (r_mem s Y). known (r_mem s) (msg_view msg)) \<and>
     r_view s X < length (vals (r_mem s) X) \<and> r_view s Y < length (vals (r_mem s) Y) \<and>
     Suc (r_view s Z) = length (vals (r_mem s) Z) \<and> 2 \<le> length (vals (r_mem s) Z)"

definition assert_ok :: "relaxed_state \<Rightarrow> bool" where
  "assert_ok s \<longleftrightarrow> asserted s = None \<or>
     r_pc s = ReaderDone \<and> asserted s = Some (assert_that (vals (r_mem s) Z = [0, 0, 1]))"

definition main2_inv :: "memory_order \<Rightarrow> relaxed_state \<Rightarrow> bool" where
  "main2_inv ord s \<longleftrightarrow> mem_ok s \<and> view_ok s \<and> assert_ok s \<and> releases ord s"

lemma nth_vals: "i < length (vals m l) \<Longrightarrow> msg_val (m l ! i) = vals m l ! i"
  by (simp add: vals_def)

lemma atomic_store_vals [simp]:
  "vals (fst (atomic_store ord l n mv)) l' = (if l' = l then vals (fst mv) l @ [n] else vals (fst mv) l')"
  "snd (atomic_store ord l n mv) = (snd mv)(l := length (vals (fst mv) l))"
  "l' \<noteq> l \<Longrightarrow> fst (atomic_store ord l n mv) l' = fst mv l'"
  by (cases ord; simp add: atomic_store_def vals_def Let_def split_beta)+

lemma atomic_store_released [simp]:
  "msg_view (fst (atomic_store AcqRel l n mv) l ! length (vals (fst mv) l)) =
     (snd mv)(l := length (vals (fst mv) l))"
  by (simp add: atomic_store_def Let_def vals_def split_beta)

lemma atomic_increment_eq:
  "vals (fst mv) l \<noteq> [] \<Longrightarrow> atomic_increment l mv = atomic_store AcqRel l (last (vals (fst mv) l) + 1) mv"
  by (simp add: atomic_increment_def vals_def last_map)

lemma atomic_load_simps [simp]:
  "i < length (vals m l) \<Longrightarrow> fst (atomic_load ord l i m v) = vals m l ! i"
  "snd (atomic_load Relaxed l i m v) = v(l := i)"
  "snd (atomic_load AcqRel l i m v) l' = max ((v(l := i)) l') (msg_view (m l ! i) l')"
  by (simp_all add: atomic_load_def vals_def merge_views_def)

lemma can_read_vals: "can_read m v l i \<longleftrightarrow> v l \<le> i \<and> i < length (vals m l)"
  by (simp add: can_read_def vals_def)

lemma vals_initial: "vals (\<lambda>_. [\<lparr>msg_val = 0, msg_view = w\<rparr>]) l = [0]"
  by (simp add: vals_def)

lemma main2_start_fields:
  "vals (r_mem main2_start) l = [0, 0]" "w_view main2_start l = 1" "r_view main2_start l = 1"
  "w_pc main2_start = StoreX" "r_pc main2_start = SpinY" "asserted main2_start = None"
  by (cases l, simp_all add: main2_start_def split_beta vals_initial)+

lemma set_stored:
  "set (fst (atomic_store ord l n mv) l) \<subseteq> set (fst mv l) \<union>
     {\<lparr>msg_val = n, msg_view = (case ord of AcqRel \<Rightarrow> (snd mv)(l := length (vals (fst mv) l))
                                    | Relaxed \<Rightarrow> (\<lambda>_. 0)(l := length (vals (fst mv) l)))\<rparr>}"
  by (cases ord) (auto simp: atomic_store_def Let_def split_beta vals_def)

lemma main2_start_inv: "main2_inv ord main2_start"
proof -
  have "\<forall>msg \<in> set (r_mem main2_start Y). msg_view msg X \<le> 1 \<and> msg_view msg Y \<le> 1 \<and> msg_view msg Z \<le> 1"
    by code_simp
  then show ?thesis
    by (auto simp: main2_inv_def mem_ok_def view_ok_def known_def assert_ok_def releases_def main2_start_fields)
qed

lemma writer_mem_ok: "mem_ok s \<Longrightarrow> write_x_then_y ord s = Some s' \<Longrightarrow> mem_ok s'"
  by (cases "w_pc s") (auto simp: mem_ok_def split_beta)

lemma known_mono:
  "known m v \<Longrightarrow> length (vals m X) \<le> length (vals m' X) \<Longrightarrow> length (vals m Y) \<le> length (vals m' Y) \<Longrightarrow> known m' v"
  by (auto simp: known_def)

lemma writer_view_ok:
  assumes "view_ok s" and "write_x_then_y ord s = Some s'"
  shows "view_ok s'"
proof (cases "w_pc s")
  case StoreX
  then show ?thesis using assms by (auto simp: view_ok_def split_beta intro: known_mono) (auto simp: known_def)
next
  case StoreY
  then show ?thesis using assms
    by (cases ord) (auto simp: view_ok_def known_def split_beta less_Suc_eq dest!: set_stored [THEN subsetD])
qed (use assms in simp)

lemma writer_assert_ok: "assert_ok s \<Longrightarrow> write_x_then_y ord s = Some s' \<Longrightarrow> assert_ok s'"
  by (cases "w_pc s") (auto simp: assert_ok_def split_beta)

lemma writer_releases:
  assumes "mem_ok s" and "releases ord s" and "write_x_then_y ord s = Some s'"
  shows "releases ord s'"
  using assms atomic_store_released [of Y 1 "(r_mem s, w_view s)"]
  by (cases "w_pc s"; cases ord) (auto simp: mem_ok_def releases_def split_beta numeral_2_eq_2)

lemma reader_mem_ok: "mem_ok s \<Longrightarrow> read_y_then_x ord i s = Some s' \<Longrightarrow> mem_ok s'"
  by (cases "r_pc s"; cases "w_pc s")
    (auto simp: mem_ok_def split_beta can_read_vals atomic_increment_eq less_Suc_eq split: if_splits)

lemma reader_view_ok:
  assumes "view_ok s" and "read_y_then_x ord i s = Some s'"
  shows "view_ok s'"
proof (cases "r_pc s")
  case SpinY
  have "known (r_mem s) (msg_view (r_mem s Y ! i))" if "i < length (vals (r_mem s) Y)"
    using assms(1) that by (simp add: view_ok_def vals_def)
  then show ?thesis using SpinY assms
    by (cases ord) (auto simp: view_ok_def known_def split_beta can_read_vals split: if_splits)
qed (use assms in \<open>auto simp: view_ok_def known_def split_beta can_read_vals atomic_increment_def split: if_splits\<close>)

lemma reader_assert_ok: "assert_ok s \<Longrightarrow> read_y_then_x ord i s = Some s' \<Longrightarrow> assert_ok s'"
  by (cases "r_pc s") (auto simp: assert_ok_def split_beta split: if_splits)

lemma reader_releases:
  assumes "mem_ok s" and "releases ord s" and "read_y_then_x ord i s = Some s'"
  shows "releases ord s'"
proof (cases "r_pc s")
  case SpinY
  then show ?thesis using assms
    by (cases "w_pc s"; cases ord) (auto simp: mem_ok_def releases_def split_beta can_read_vals less_Suc_eq numeral_2_eq_2 split: if_splits)
qed (use assms in \<open>auto simp: mem_ok_def releases_def split_beta can_read_vals atomic_increment_eq less_Suc_eq split: if_splits\<close>)

lemma check_inv: "main2_inv ord s \<Longrightarrow> main2_check i s = Some s' \<Longrightarrow> main2_inv ord s'"
  by (simp split: if_splits)
    (auto simp: main2_inv_def mem_ok_def view_ok_def assert_ok_def releases_def can_read_vals merge_views_def nth_vals)


lemma main2_step_inv: "main2_step ord s s' \<Longrightarrow> main2_inv ord s \<Longrightarrow> main2_inv ord s'"
proof (induction rule: main2_step.induct)
  case (writer s s')
  then show ?case
    using writer_mem_ok writer_view_ok writer_assert_ok writer_releases by (metis main2_inv_def)
next
  case (reader i s s')
  then show ?case
    using reader_mem_ok reader_view_ok reader_assert_ok reader_releases by (metis main2_inv_def)
next
  case (check i s s')
  then show ?case using check_inv by blast
qed

lemma main2_reaches_inv: "main2_reaches ord s \<Longrightarrow> main2_inv ord s"
  by (induction rule: rtranclp_induct) (auto intro: main2_start_inv main2_step_inv)


text \<open>A schedule with the messages the loads return, and the run it gives.\<close>

datatype choice = Writer | Reader nat | Check nat

fun take_choice :: "memory_order \<Rightarrow> choice \<Rightarrow> relaxed_state \<Rightarrow> relaxed_state option" where
  "take_choice ord Writer s = write_x_then_y ord s"
| "take_choice ord (Reader i) s = read_y_then_x ord i s"
| "take_choice ord (Check i) s = main2_check i s"

fun main2_run :: "memory_order \<Rightarrow> choice list \<Rightarrow> relaxed_state \<Rightarrow> relaxed_state option" where
  "main2_run ord [] s = Some s"
| "main2_run ord (c # cs) s = Option.bind (take_choice ord c s) (main2_run ord cs)"

lemma take_choice_step: "take_choice ord c s = Some s' \<Longrightarrow> main2_step ord s s'"
  by (cases c) (simp_all del: write_x_then_y.simps read_y_then_x.simps main2_check.simps add: main2_step.intros)

lemma main2_run_reaches: "main2_run ord cs s = Some s' \<Longrightarrow> (main2_step ord)\<^sup>*\<^sup>* s s'"
  by (induction cs arbitrary: s)
    (auto simp: bind_eq_Some_conv dest!: take_choice_step intro: converse_rtranclp_into_rtranclp)

lemma run_outcome:
  assumes "Option.bind (main2_run ord cs main2_start) asserted = Some r"
  shows "\<exists>s. main2_reaches ord s \<and> asserted s = Some r"
  using assms by (auto simp: bind_eq_Some_conv dest: main2_run_reaches)

lemma outcome_failed:
  "Option.bind (main2_run Relaxed [Writer, Writer, Reader 2, Reader 1, Check 1] main2_start) asserted =
     Some (Inl AssertionFailed)"
  by code_simp

lemma outcome_passed:
  "Option.bind (main2_run ord [Writer, Writer, Reader 2, Reader 2, Reader 0, Check 2] main2_start) asserted =
     Some (Inr ())"
  by (cases ord; hypsubst_thin; code_simp)

text \<open>C27: The assertion at the end of \<^verbatim>\<open>main\<close>: with relaxed loads and stores, as in the source, it can
  fail and it can hold; were \<^verbatim>\<open>y\<close> written with release and read with acquire order, it would hold
  in every run.\<close>

theorem relaxed_flags_outcomes:
  "{r. \<exists>s. main2_reaches ord s \<and> asserted s = Some r} =
     (if ord = Relaxed then {Inl AssertionFailed, Inr ()} else {Inr ()})"
proof (intro equalityI subsetI)
  fix r assume "r \<in> {r. \<exists>s. main2_reaches ord s \<and> asserted s = Some r}"
  then obtain s where s: "main2_inv ord s" "asserted s = Some r" using main2_reaches_inv by blast
  then have "r_pc s = ReaderDone" "r = assert_that (vals (r_mem s) Z = [0, 0, 1])"
    by (auto simp: main2_inv_def assert_ok_def)
  moreover have "vals (r_mem s) Z = [0, 0, 1]" if "ord = AcqRel" "r_pc s = ReaderDone"
    using s(1) that by (simp add: main2_inv_def releases_def)
  ultimately show "r \<in> (if ord = Relaxed then {Inl AssertionFailed, Inr ()} else {Inr ()})"
    by (cases ord) (auto simp: assert_that_def)
next
  fix r :: "cxx_error + unit"
  assume "r \<in> (if ord = Relaxed then {Inl AssertionFailed, Inr ()} else {Inr ()})"
  then show "r \<in> {r. \<exists>s. main2_reaches ord s \<and> asserted s = Some r}"
    using run_outcome [OF outcome_failed] run_outcome [OF outcome_passed] by (auto split: if_splits)
qed

end
