(* ===== verification/Process_Pool.thy ===== *)
theory Process_Pool
  imports Prelude
begin

text \<open>
  \<^verbatim>\<open>set/process_pool\<close>: \<^verbatim>\<open>Billboard\<close> (a socket pair split between a process and its
  child), \<^verbatim>\<open>ProcessHandle\<close> and \<^verbatim>\<open>ProcessPool\<close>.  A call of \<^verbatim>\<open>new_process\<close> has two
  continuations after \<^verbatim>\<open>fork\<close>, the parent's and the child's; the answer of
  \<^verbatim>\<open>fork\<close> decides which one the model describes.  Thread identities (\<^verbatim>\<open>pthread_self\<close> and
  \<^verbatim>\<open>gettid\<close>) are arguments.
\<close>

section \<open>Billboard\<close>

record billboard =
  bb_ends :: "int \<times> int"
  bb_thread_id :: u64
  bb_fd :: int

definition billboard_new :: "int \<times> int \<Rightarrow> u64 \<Rightarrow> billboard" where
  "billboard_new ends current = \<lparr>bb_ends = ends, bb_thread_id = current, bb_fd = 0\<rparr>"

text \<open>
  \<^verbatim>\<open>process_communication_init\<close> drops the result of \<^verbatim>\<open>socketpair\<close>; when it fails (\<open>None\<close>) the
  array keeps what it held, which nothing has set.
\<close>

definition process_communication_init :: "(int \<times> int) option \<Rightarrow> int \<times> int \<Rightarrow> int \<times> (int \<times> int)" where
  "process_communication_init pair held = (0, case pair of Some ends \<Rightarrow> ends | None \<Rightarrow> held)"

text \<open>\<^verbatim>\<open>start\<close> returns the descriptor it closes with the updated object.\<close>

definition billboard_start :: "u64 \<Rightarrow> billboard \<Rightarrow> int \<times> billboard" where
  "billboard_start current b =
     (if bb_thread_id b = current
      then (fst (bb_ends b), b\<lparr>bb_fd := snd (bb_ends b)\<rparr>)
      else (snd (bb_ends b), b\<lparr>bb_fd := fst (bb_ends b), bb_thread_id := current\<rparr>))"

section \<open>ProcessHandle\<close>

definition MAX_PROCESS_NAME :: nat where "MAX_PROCESS_NAME = 20"

text \<open>What calling the stored function does: it returns a value or throws.\<close>

type_synonym process_exec = "billboard \<Rightarrow> int option"

record process_handle =
  ph_exec :: process_exec
  ph_name :: string
  ph_billboard :: "billboard option"
  ph_user_data :: "(string \<times> nat) option"

text \<open>
  The name starts as the two characters of the initializer list; each turn of the loop assigns
  one character to the whole string.
\<close>

definition process_handle_new :: "string \<Rightarrow> process_exec \<Rightarrow> process_handle" where
  "process_handle_new name exec =
     \<lparr>ph_exec = exec,
      ph_name = fold (\<lambda>i _. [name ! i]) [0..<min MAX_PROCESS_NAME (length name)]
                  [CHR 0x00, char_of MAX_PROCESS_NAME],
      ph_billboard = None, ph_user_data = None\<rparr>"

definition set_billboard :: "billboard \<Rightarrow> process_handle \<Rightarrow> process_handle" where
  "set_billboard b h = h\<lparr>ph_billboard := Some b\<rparr>"

text \<open>\<^verbatim>\<open>set_exec\<close> returns its argument after it was moved from, an empty function.\<close>

definition set_exec :: "process_exec \<Rightarrow> process_handle \<Rightarrow> process_exec option \<times> process_handle" where
  "set_exec pexec h = (None, h\<lparr>ph_exec := pexec\<rparr>)"

text \<open>The user data is a \<^verbatim>\<open>std::any\<close>: a value with the name of its type; asking for another type
  gives a null pointer.\<close>

definition set_user_data :: "string \<Rightarrow> nat \<Rightarrow> process_handle \<Rightarrow> process_handle" where
  "set_user_data ty v h = h\<lparr>ph_user_data := Some (ty, v)\<rparr>"

definition get_user_data :: "string \<Rightarrow> process_handle \<Rightarrow> nat option" where
  "get_user_data ty h =
     (case ph_user_data h of None \<Rightarrow> None | Some (t, v) \<Rightarrow> if t = ty then Some v else None)"

lemma user_data_round_trip:
  "get_user_data ty' (set_user_data ty v h) = (if ty' = ty then Some v else None)"
  by (simp add: get_user_data_def set_user_data_def)

text \<open>The accessors; \<^verbatim>\<open>get_billboard\<close> dereferences the pointer.\<close>

definition get_billboard :: "process_handle \<Rightarrow> cxx_error + billboard" where
  "get_billboard h = (case ph_billboard h of None \<Rightarrow> Inl NullDereference | Some b \<Rightarrow> Inr b)"

definition get_process_name :: "process_handle \<Rightarrow> string" where
  "get_process_name h = ph_name h"

text \<open>
  \<^verbatim>\<open>send\<close> and \<^verbatim>\<open>recv\<close> pass the vector on to the billboard, whose two functions are declared
  and have no body in the repository: they are arguments.
\<close>

definition handle_send ::
  "(billboard \<Rightarrow> u32 list \<Rightarrow> billboard \<times> u32 list) \<Rightarrow> u32 list \<Rightarrow> process_handle \<Rightarrow> cxx_error + u32 list \<times> process_handle" where
  "handle_send billboard_send data h =
     and_then (get_billboard h) (\<lambda>b. let (b1, data1) = billboard_send b data in Inr (data1, set_billboard b1 h))"

definition handle_recv ::
  "(billboard \<Rightarrow> u32 list \<Rightarrow> billboard \<times> u32 list) \<Rightarrow> u32 list \<Rightarrow> process_handle \<Rightarrow> cxx_error + u32 list \<times> process_handle" where
  "handle_recv billboard_recv data h =
     and_then (get_billboard h) (\<lambda>b. let (b1, data1) = billboard_recv b data in Inr (data1, set_billboard b1 h))"

definition handle_invoke :: "process_handle \<Rightarrow> cxx_error + int" where
  "handle_invoke h =
     (case ph_billboard h of
        None \<Rightarrow> Inl NullDereference
      | Some b \<Rightarrow> Inr (case ph_exec h b of None \<Rightarrow> -1 | Some r \<Rightarrow> r))"

section \<open>ProcessPool\<close>

record process_pool =
  pp_seq :: u8
  pp_process :: "string \<rightharpoonup> process_handle"

definition process_pool_new :: process_pool where
  "process_pool_new = \<lparr>pp_seq = 0, pp_process = Map.empty\<rparr>"

fun decimal :: "nat \<Rightarrow> string" where
  "decimal n = (if n < 10 then [char_of (48 + n)] else decimal (n div 10) @ [char_of (48 + n mod 10)])"

declare decimal.simps [simp del]

record fork_env =
  fe_pthread_id :: u64
  fe_tid :: u64
  fe_ends :: "int \<times> int"
  fe_fork :: int
  fe_child_tid :: u64

datatype fork_outcome =
    Refused
  | InParent process_handle process_pool
  | InChild int

definition is_vail :: "fork_env \<Rightarrow> bool" where
  "is_vail e \<longleftrightarrow> fe_pthread_id e = fe_tid e"

definition process_name :: "u8 \<Rightarrow> string" where
  "process_name seq = ''process_poll_'' @ decimal (unat seq)"

text \<open>\<^verbatim>\<open>pthread_atfork\<close> sets the child's thread identity to its own \<^verbatim>\<open>gettid\<close>.\<close>

definition new_process :: "fork_env \<Rightarrow> process_exec \<Rightarrow> process_pool \<Rightarrow> cxx_error + fork_outcome" where
  "new_process e exec p =
     (if \<not> is_vail e \<or> 4 \<le> pp_seq p then Inr Refused
      else let name = process_name (pp_seq p);
               h = set_billboard (billboard_new (fe_ends e) (fe_pthread_id e)) (process_handle_new name exec)
           in if fe_fork e \<noteq> 0
              then let h' = h\<lparr>ph_billboard := map_option (\<lambda>b. snd (billboard_start (fe_pthread_id e) b)) (ph_billboard h)\<rparr>;
                       tab = (if name \<in> dom (pp_process p) then pp_process p else (pp_process p)(name \<mapsto> h'))
                   in Inr (InParent h' (p\<lparr>pp_process := tab\<rparr>))
              else let h' = h\<lparr>ph_billboard := map_option (\<lambda>b. snd (billboard_start (fe_child_tid e) b)) (ph_billboard h)\<rparr>
                   in and_then (handle_invoke h') (\<lambda>code. Inr (InChild code)))"

text \<open>
  The calls \<^verbatim>\<open>main\<close> makes one after the other: the handles returned, the pool, and the code the
  process exits with, if it is a child.
\<close>

fun new_processes ::
  "(fork_env \<times> process_exec) list \<Rightarrow> process_pool \<Rightarrow> cxx_error + process_handle list \<times> process_pool \<times> int option" where
  "new_processes [] p = Inr ([], p, None)"
| "new_processes ((e, f) # es) p =
     and_then (new_process e f p) (\<lambda>r.
       case r of
         InParent h p1 \<Rightarrow> and_then (new_processes es p1) (\<lambda>(hs, p2, x). Inr (h # hs, p2, x))
       | InChild code \<Rightarrow> Inr ([], p, Some code)
       | Refused \<Rightarrow> new_processes es p)"

section \<open>Lemmas\<close>

lemma fold_last: "fold (\<lambda>i _. f i) is a = (if is = [] then a else f (last is))"
  by (induction "is" arbitrary: a) auto

lemma handle_name_is_last_char:
  assumes "name \<noteq> []"
  shows "ph_name (process_handle_new name exec) = [name ! (min 20 (length name) - 1)]"
proof -
  have "[0..<min 20 (length name)] \<noteq> []" using assms by simp
  then show ?thesis by (simp add: process_handle_new_def fold_last MAX_PROCESS_NAME_def)
qed

lemma new_process_parent:
  assumes "is_vail e" and "pp_seq p = 0" and "fe_fork e \<noteq> 0"
  shows "\<exists>h. new_process e f p =
           Inr (InParent h (if process_name 0 \<in> dom (pp_process p) then p
                            else p\<lparr>pp_process := (pp_process p)(process_name 0 \<mapsto> h)\<rparr>))"
  using assms by (simp add: new_process_def Let_def)

text \<open>A handle that \<^verbatim>\<open>new_process\<close> returns can be used for messages, one that was only constructed cannot.\<close>

lemma handle_messages:
  assumes "new_process e exec p = Inr (InParent h p')"
  shows "\<exists>b. get_billboard h = Inr b \<and> bb_ends b = fe_ends e \<and> bb_fd b = snd (fe_ends e) \<and>
           handle_send f data h = Inr (snd (f b data), set_billboard (fst (f b data)) h)"
    and "handle_send f data (process_handle_new name exec) = Inl NullDereference"
  using assms
  by (auto simp: new_process_def Let_def set_billboard_def billboard_new_def billboard_start_def get_billboard_def
      handle_send_def process_handle_new_def split_beta and_then_Inr_iff split: if_splits)

section \<open>Properties\<close>

text \<open>After \<^verbatim>\<open>fork\<close> the two processes hold the two ends of the socket pair and each has
  closed the other's: the parent keeps the second end, the child the first.\<close>

theorem billboard_ends_are_split:
  assumes "parent \<noteq> child" and "b = billboard_new (fd0, fd1) parent"
  shows "billboard_start parent b = (fd0, b\<lparr>bb_fd := fd1\<rparr>) \<and>
         (\<exists>c. billboard_start child b = (fd1, c) \<and> bb_fd c = fd0 \<and> bb_thread_id c = child)"
  using assms by (simp add: billboard_start_def billboard_new_def)

text \<open>In the child, \<^verbatim>\<open>new_process\<close> never returns to its caller: it exits with the result of
  the function run on the child's end of the pair, or with -1 when the function throws.\<close>

theorem child_exits_with_result:
  assumes "is_vail e" and "pp_seq p < 4" and "fe_fork e = 0" and "fe_child_tid e \<noteq> fe_pthread_id e"
  shows "new_process e exec p =
    Inr (InChild (case exec \<lparr>bb_ends = fe_ends e, bb_thread_id = fe_child_tid e, bb_fd = fst (fe_ends e)\<rparr> of
                    None \<Rightarrow> -1 | Some r \<Rightarrow> r))"
proof -
  have "\<not> 4 \<le> pp_seq p" using assms(2) by (simp add: linorder_not_le)
  then show ?thesis using assms(1,3,4)
    by (simp add: new_process_def Let_def set_billboard_def handle_invoke_def billboard_new_def
        billboard_start_def process_handle_new_def)
qed

text \<open>The sequence number is never advanced: however many children are forked, the limit of
  four is never reached, all children have the same name, and the table only ever holds the first
  of their handles.\<close>

theorem pool_keeps_only_first_handle:
  assumes "\<forall>(e, f) \<in> set es. is_vail e \<and> fe_fork e \<noteq> 0"
    and "pp_seq p = 0" and "pp_process p = Map.empty"
  shows "\<exists>hs p'. new_processes es p = Inr (hs, p', None) \<and> length hs = length es \<and> pp_seq p' = 0 \<and>
           pp_process p' = (if hs = [] then Map.empty else [process_name 0 \<mapsto> hd hs])"
proof -
  have more: "\<exists>hs. new_processes es p = Inr (hs, p, None) \<and> length hs = length es"
    if "\<forall>(e, f) \<in> set es. is_vail e \<and> fe_fork e \<noteq> 0" "pp_seq p = 0" "process_name 0 \<in> dom (pp_process p)"
    for es p using that
  proof (induction es)
    case (Cons ef es)
    obtain e f where ef: "ef = (e, f)" by (cases ef)
    then obtain h where "new_process e f p = Inr (InParent h p)"
      using Cons.prems new_process_parent [of e p f] by auto
    then show ?case using Cons ef by auto
  qed simp
  show ?thesis
  proof (cases es)
    case Nil
    then show ?thesis using assms by simp
  next
    case (Cons ef es')
    obtain e f where ef: "ef = (e, f)" by (cases ef)
    obtain h where h: "new_process e f p = Inr (InParent h (p\<lparr>pp_process := [process_name 0 \<mapsto> h]\<rparr>))"
      using assms Cons ef new_process_parent [of e p f] by auto
    obtain hs where "new_processes es' (p\<lparr>pp_process := [process_name 0 \<mapsto> h]\<rparr>) =
        Inr (hs, p\<lparr>pp_process := [process_name 0 \<mapsto> h]\<rparr>, None)" "length hs = length es'"
      using more [of es' "p\<lparr>pp_process := [process_name 0 \<mapsto> h]\<rparr>"] assms Cons by auto
    then show ?thesis using h Cons ef assms(2) by simp
  qed
qed

text \<open>A child leaves \<^verbatim>\<open>main\<close> in the call that made it: the calls behind it are the parent's alone.\<close>

lemma child_leaves_main:
  assumes "new_processes es p = Inr (hs, p1, None)" and "new_process e f p1 = Inr (InChild code)"
  shows "new_processes (es @ (e, f) # rest) p = Inr (hs, p1, Some code)"
  using assms(1)
proof (induction es arbitrary: p hs)
  case Nil
  then show ?case using assms(2) by simp
next
  case (Cons ef es)
  obtain e' f' where ef: "ef = (e', f')" by (cases ef)
  from Cons.prems obtain r where r: "new_process e' f' p = Inr r" by (auto simp: ef and_then_Inr_iff)
  then show ?case using Cons by (cases r) (auto simp: ef and_then_Inr_iff)
qed

text \<open>The guard of \<^verbatim>\<open>new_process\<close> compares a \<^verbatim>\<open>pthread_self\<close> value with a kernel
  thread number: in a process where they differ every request is refused and nothing changes.\<close>

theorem foreign_thread_refused:
  assumes "\<forall>(e, f) \<in> set es. fe_pthread_id e \<noteq> fe_tid e"
  shows "new_processes es p = Inr ([], p, None)"
  using assms by (induction es) (auto simp: new_process_def is_vail_def)

section \<open>Concrete runs\<close>

definition main_env :: fork_env where
  "main_env = \<lparr>fe_pthread_id = 77, fe_tid = 77, fe_ends = (3, 4), fe_fork = 100, fe_child_tid = 100\<rparr>"

lemma billboard_ends_are_split_witness:
  "billboard_start 77 (billboard_new (3, 4) 77) = (3, (billboard_new (3, 4) 77)\<lparr>bb_fd := 4\<rparr>)"
  using billboard_ends_are_split [of 77 100 _ 3 4, OF _ refl] by simp

lemma child_exits_with_result_witness:
  "new_process (main_env\<lparr>fe_fork := 0\<rparr>) (\<lambda>b. Some (bb_fd b)) process_pool_new = Inr (InChild 3)"
  using child_exits_with_result [of "main_env\<lparr>fe_fork := 0\<rparr>" process_pool_new "\<lambda>b. Some (bb_fd b)"]
  by (simp add: main_env_def is_vail_def process_pool_new_def)

lemma pool_keeps_only_first_handle_witness:
  "\<exists>hs p'. new_processes (replicate 5 (main_env, \<lambda>_. Some 0)) process_pool_new = Inr (hs, p', None) \<and> length hs = 5"
  using pool_keeps_only_first_handle [of "replicate 5 (main_env, \<lambda>_. Some 0)" process_pool_new]
  by (auto simp: main_env_def is_vail_def process_pool_new_def)

lemma foreign_thread_refused_witness:
  "new_processes [(main_env\<lparr>fe_tid := 5\<rparr>, \<lambda>_. Some 0)] process_pool_new = Inr ([], process_pool_new, None)"
  using foreign_thread_refused [of "[(main_env\<lparr>fe_tid := 5\<rparr>, \<lambda>_. Some 0)]" process_pool_new]
  by (simp add: main_env_def)

end
