(* ===== verification/Inventory.thy ===== *)
theory Inventory
  imports Prelude
begin

text \<open>
  \<^verbatim>\<open>set/inventory\<close>: requests register themselves as weak pointers with a global
  \<^verbatim>\<open>Inventory\<close>.  A request is its control block: a number, never reused, with the count of
  the shared pointers that own it; a weak pointer can be locked exactly while that count is not
  zero.  The destructor runs when the count has become zero.
\<close>

record inventory =
  owners :: "nat \<Rightarrow> nat"
  obs :: "nat list"
  printed :: "nat list"

definition inventory_new :: inventory where
  "inventory_new = \<lparr>owners = (\<lambda>_. 0), obs = [], printed = []\<rparr>"

definition weak_lock :: "inventory \<Rightarrow> nat \<Rightarrow> nat option" where
  "weak_lock s r = (if owners s r = 0 then None else Some r)"

definition inventory_register :: "nat \<Rightarrow> inventory \<Rightarrow> inventory" where
  "inventory_register r s = s\<lparr>obs := obs s @ [r]\<rparr>"

definition inventory_remove :: "nat \<Rightarrow> inventory \<Rightarrow> inventory" where
  "inventory_remove r s =
     s\<lparr>obs := filter (\<lambda>e. \<not> (case weak_lock s e of Some q \<Rightarrow> r = q | None \<Rightarrow> False)) (obs s)\<rparr>"

definition print_all :: "inventory \<Rightarrow> inventory" where
  "print_all s =
     fold (\<lambda>e st. case weak_lock st e of Some q \<Rightarrow> st\<lparr>printed := printed st @ [q]\<rparr> | None \<Rightarrow> st) (obs s) s"

text \<open>The life of a request: \<^verbatim>\<open>make_shared\<close>, copying a pointer, registering, releasing a
  pointer (with the destructor when it was the last one), and the explicit destructor call of
  \<^verbatim>\<open>main\<close>.\<close>

definition request_make :: "nat \<Rightarrow> inventory \<Rightarrow> inventory" where
  "request_make r s = s\<lparr>owners := (owners s)(r := 1)\<rparr>"

definition request_share :: "nat \<Rightarrow> inventory \<Rightarrow> inventory" where
  "request_share r s = s\<lparr>owners := (owners s)(r := owners s r + 1)\<rparr>"

definition request_register :: "nat \<Rightarrow> inventory \<Rightarrow> inventory" where
  "request_register r s = inventory_register r s"

definition request_destroy :: "nat \<Rightarrow> inventory \<Rightarrow> inventory" where
  "request_destroy r s = inventory_remove r s"

definition request_release :: "nat \<Rightarrow> inventory \<Rightarrow> inventory" where
  "request_release r s =
     (let s1 = s\<lparr>owners := (owners s)(r := owners s r - 1)\<rparr>
      in if owners s1 r = 0 then request_destroy r s1 else s1)"

text \<open>\<^verbatim>\<open>main\<close>: the printing thread runs before or after the explicit destructor call; the
  pointer's own release at the end runs the destructor a second time.\<close>

definition inventory_main :: "bool \<Rightarrow> inventory" where
  "inventory_main prints_first =
     (let s1 = request_register 0 (request_make 0 inventory_new);
          s2 = (if prints_first then request_destroy 0 (print_all s1) else print_all (request_destroy 0 s1))
      in request_release 0 s2)"

lemma print_all_filter:
  "fold (\<lambda>e st. case weak_lock st e of Some q \<Rightarrow> st\<lparr>printed := printed st @ [q]\<rparr> | None \<Rightarrow> st) es s =
     s\<lparr>printed := printed s @ filter (\<lambda>e. owners s e \<noteq> 0) es\<rparr>"
  by (induction es arbitrary: s) (simp_all add: weak_lock_def)

text \<open>\<^verbatim>\<open>printAll\<close> prints exactly the registered requests that are still owned, in the order
  of their registration, and never touches a destroyed one; it leaves the registrations alone.\<close>

theorem print_all_live_only:
  "printed (print_all s) = printed s @ filter (\<lambda>r. owners s r \<noteq> 0) (obs s) \<and>
   obs (print_all s) = obs s \<and>
   (\<forall>r \<in> set (drop (length (printed s)) (printed (print_all s))). 0 < owners s r \<and> r \<in> set (obs s))"
  by (auto simp: print_all_def print_all_filter)

text \<open>The explicit destructor call removes the registration, so the request is printed exactly when
  the thread was first.\<close>

lemma inventory_main_prints:
  "printed (inventory_main prints_first) = (if prints_first then [0] else []) \<and> obs (inventory_main prints_first) = []"
  by (simp add: inventory_main_def request_register_def inventory_register_def request_make_def inventory_new_def
      request_destroy_def inventory_remove_def request_release_def weak_lock_def print_all_def Let_def)

text \<open>A request never unregisters itself: when its last owner lets go, the weak pointers to it
  can no longer be locked in its destructor, so every registration stays for ever; only a
  destructor called while the request is still owned removes its registrations, all of them and
  no others.\<close>

theorem last_release_keeps_registration:
  assumes "owners s r = 1"
  shows "obs (request_release r s) = obs s \<and> owners (request_release r s) r = 0 \<and>
         obs (request_destroy r s) = filter (\<lambda>e. e \<noteq> r) (obs s)"
proof -
  have "filter (\<lambda>e. e = r \<longrightarrow> owners s r = 0) (obs s) = filter (\<lambda>e. e \<noteq> r) (obs s)"
    using assms by (intro filter_cong) auto
  moreover have keep: "inventory_remove r t = t" if "owners t r = 0" for t
    using that by (auto simp: inventory_remove_def weak_lock_def filter_id_conv intro!: inventory.equality)
  moreover have "filter (\<lambda>e. \<not> (case weak_lock s e of None \<Rightarrow> False | Some q \<Rightarrow> r = q)) (obs s) = filter (\<lambda>e. e \<noteq> r) (obs s)"
    using assms by (intro filter_cong) (auto simp: weak_lock_def)
  ultimately show ?thesis using assms
    by (simp add: request_release_def request_destroy_def Let_def) (simp add: inventory_remove_def)
qed

lemma last_release_keeps_registration_witness:
  "obs (request_release 4 (request_register 4 (request_make 4 inventory_new))) = [4]"
  using last_release_keeps_registration [of "request_register 4 (request_make 4 inventory_new)" 4]
  by (simp add: request_register_def inventory_register_def request_make_def inventory_new_def)

end
