(* ===== verification/Inventory_Race.thy ===== *)
theory Inventory_Race
  imports Inventory
begin

text \<open>
  \<^verbatim>\<open>Inventory::remove\<close> of \<^verbatim>\<open>src/set/inventory/main.cpp\<close> while other threads let go of
  requests.  The lambda given to \<^verbatim>\<open>std::erase_if\<close> turns every weak pointer into an owning one for
  the time of the comparison, with \<^verbatim>\<open>mut_\<close> held.  When the other owners let go of that request
  meanwhile, the pointer of the lambda is the last one: its end runs \<^verbatim>\<open>~Request\<close>, which calls
  \<^verbatim>\<open>remove\<close> and waits for the mutex its own thread holds.
\<close>

text \<open>Other threads drop their pointers to the requests of the list.\<close>

definition let_go :: "nat list \<Rightarrow> (nat \<Rightarrow> nat) \<Rightarrow> nat \<Rightarrow> nat" where
  "let_go rs own = (\<lambda>e. own e - count_list rs e)"

text \<open>
  The calls of the lambda, one for each registration; \<open>drops k\<close> are the pointers
  dropped by other threads during the \<open>k\<close>-th call.
\<close>

fun remove_scan ::
  "nat \<Rightarrow> (nat \<Rightarrow> nat list) \<Rightarrow> nat \<Rightarrow> nat list \<Rightarrow> (nat \<Rightarrow> nat) \<Rightarrow> cxx_error + (nat list \<times> (nat \<Rightarrow> nat))" where
  "remove_scan request drops k [] own = Inr ([], own)"
| "remove_scan request drops k (e # es) own =
     (if own e = 0 then
        and_then (remove_scan request drops (Suc k) es (let_go (drops k) own)) (\<lambda>(kept, own). Inr (e # kept, own))
      else
        let locked = own(e := own e + 1);
            meanwhile = let_go (drops k) locked;
            unlocked = meanwhile(e := meanwhile e - 1)
        in if unlocked e = 0 then Inl Deadlock
           else and_then (remove_scan request drops (Suc k) es unlocked) (\<lambda>(kept, own).
                  Inr (if e = request then kept else e # kept, own)))"

text \<open>\<^verbatim>\<open>Request::print\<close> writes the whole array, the terminating zero included.\<close>

definition request_print :: "u8 list" where
  "request_print = [82, 101, 113, 117, 101, 115, 116, 10, 0]"

section \<open>Lemmas\<close>

definition dropped :: "(nat \<Rightarrow> nat list) \<Rightarrow> nat \<Rightarrow> nat \<Rightarrow> nat \<Rightarrow> nat" where
  "dropped drops k i e = count_list (concat (map drops [k..<k + i])) e"

lemma dropped_0 [simp]: "dropped drops k 0 e = 0"
  by (simp add: dropped_def)

lemma dropped_Suc: "dropped drops k (Suc i) e = count_list (drops k) e + dropped drops (Suc k) i e"
  by (simp add: dropped_def upt_conv_Cons del: upt_Suc)

lemma unlocked_let_go:
  assumes "0 < own e" and "\<And>x. count_list rs x \<le> own x"
  shows "(let_go rs (own(e := own e + 1)))(e := let_go rs (own(e := own e + 1)) e - 1) = let_go rs own"
  using assms by (auto simp: let_go_def fun_eq_iff Suc_diff_le)

definition valid_drops :: "(nat \<Rightarrow> nat list) \<Rightarrow> nat \<Rightarrow> nat \<Rightarrow> (nat \<Rightarrow> nat) \<Rightarrow> bool" where
  "valid_drops drops k n own \<longleftrightarrow> (\<forall>e. dropped drops k n e \<le> own e)"

lemma valid_drops_Suc:
  assumes "valid_drops drops k (Suc n) own"
  shows "count_list (drops k) e \<le> own e" and "valid_drops drops (Suc k) n (let_go (drops k) own)"
proof -
  have le: "count_list (drops k) e + dropped drops (Suc k) n e \<le> own e" for e
    using assms by (simp add: valid_drops_def dropped_Suc)
  show "count_list (drops k) e \<le> own e" using le [of e] by simp
  show "valid_drops drops (Suc k) n (let_go (drops k) own)"
    unfolding valid_drops_def let_go_def using le by (metis add_le_imp_le_diff add.commute)
qed

text \<open>The registration at position \<open>i\<close> is the one whose last other owner lets go during the comparison.\<close>

definition fatal :: "(nat \<Rightarrow> nat list) \<Rightarrow> nat \<Rightarrow> nat list \<Rightarrow> (nat \<Rightarrow> nat) \<Rightarrow> nat \<Rightarrow> bool" where
  "fatal drops k es own i \<longleftrightarrow>
     i < length es \<and> dropped drops k i (es ! i) < own (es ! i) \<and> own (es ! i) = dropped drops k (Suc i) (es ! i)"

lemma fatal_Cons:
  assumes "valid_drops drops k (Suc n) own"
  shows "fatal drops k (e # es) own 0 \<longleftrightarrow> 0 < own e \<and> own e = count_list (drops k) e"
    and "fatal drops k (e # es) own (Suc i) \<longleftrightarrow> fatal drops (Suc k) es (let_go (drops k) own) i"
proof -
  show "fatal drops k (e # es) own 0 \<longleftrightarrow> 0 < own e \<and> own e = count_list (drops k) e"
    by (simp add: fatal_def dropped_Suc)
  have "count_list (drops k) (es ! i) \<le> own (es ! i)" by (rule valid_drops_Suc [OF assms])
  then show "fatal drops k (e # es) own (Suc i) \<longleftrightarrow> fatal drops (Suc k) es (let_go (drops k) own) i"
    by (auto simp: fatal_def dropped_Suc let_go_def)
qed

lemma ex_Suc: "(\<exists>i. P i) \<longleftrightarrow> P 0 \<or> (\<exists>i. P (Suc i))"
  by (metis not0_implies_Suc)

lemma remove_scan_outcome:
  assumes "valid_drops drops k (length es) own"
  shows "(if \<exists>i. fatal drops k es own i then remove_scan request drops k es own = Inl Deadlock
          else \<exists>kept own'. remove_scan request drops k es own = Inr (kept, own') \<and>
                 filter (\<lambda>e. e \<noteq> request) kept = filter (\<lambda>e. e \<noteq> request) es)"
  using assms
proof (induction es arbitrary: k own)
  case Nil
  show ?case by (simp add: fatal_def)
next
  case (Cons e es)
  have valid: "valid_drops drops k (Suc (length es)) own" using Cons.prems by simp
  note le = valid_drops_Suc(1) [OF valid] and IH = Cons.IH [OF valid_drops_Suc(2) [OF valid]]
  note fat = ex_Suc [of "fatal drops k (e # es) own"] fatal_Cons [OF valid, of e es]
  show ?case
  proof (cases "own e = 0")
    case True
    then show ?thesis using IH fat by (auto split: if_splits)
  next
    case False
    let ?unlocked = "(let_go (drops k) (own(e := own e + 1)))(e := let_go (drops k) (own(e := own e + 1)) e - 1)"
    have un: "?unlocked = let_go (drops k) own" using unlocked_let_go [of own e "drops k"] False le by simp
    have zero: "let_go (drops k) own e = 0 \<longleftrightarrow> own e = count_list (drops k) e"
      using le [of e] by (auto simp: let_go_def)
    have step: "remove_scan request drops k (e # es) own =
        (if own e = count_list (drops k) e then Inl Deadlock
         else and_then (remove_scan request drops (Suc k) es (let_go (drops k) own)) (\<lambda>(kept, own).
                Inr (if e = request then kept else e # kept, own)))"
      using False unfolding remove_scan.simps Let_def un zero by simp
    show ?thesis unfolding step using IH fat False by (auto split: if_splits)
  qed
qed

text \<open>Undisturbed, the scan is the removal of the sequential model.\<close>

lemma remove_scan_alone:
  "remove_scan request (\<lambda>_. []) k es own =
     Inr (filter (\<lambda>e. \<not> (0 < own e \<and> e = request)) es, own)"
proof (induction es arbitrary: k)
  case (Cons e es)
  have "let_go [] f = f" for f by (simp add: let_go_def)
  with Cons show ?case by (auto simp: fun_upd_idem)
qed simp

section \<open>Properties\<close>

text \<open>
  C31: exactly when \<^verbatim>\<open>remove\<close> waits for itself.  For any pointers that other threads drop
  while it runs (no more than they hold), it deadlocks if and only if for some registered request
  that is still owned when its turn comes, all other owners let go during that turn; otherwise it
  returns and has removed no registration of any other request.  Undisturbed it is the
  sequential \<^verbatim>\<open>remove\<close>.
\<close>

theorem remove_deadlocks_exactly:
  assumes "\<forall>e. dropped drops 0 (length (obs s)) e \<le> owners s e"
  shows "(remove_scan r drops 0 (obs s) (owners s) = Inl Deadlock \<longleftrightarrow>
           (\<exists>i < length (obs s). dropped drops 0 i (obs s ! i) < owners s (obs s ! i) \<and>
              owners s (obs s ! i) = dropped drops 0 (Suc i) (obs s ! i))) \<and>
    (remove_scan r drops 0 (obs s) (owners s) \<noteq> Inl Deadlock \<longrightarrow>
       (\<exists>kept own. remove_scan r drops 0 (obs s) (owners s) = Inr (kept, own) \<and>
          filter (\<lambda>e. e \<noteq> r) kept = filter (\<lambda>e. e \<noteq> r) (obs s))) \<and>
    remove_scan r (\<lambda>_. []) 0 (obs s) (owners s) = Inr (obs (inventory_remove r s), owners s)"
proof -
  have "valid_drops drops 0 (length (obs s)) (owners s)" using assms by (simp add: valid_drops_def)
  from remove_scan_outcome [OF this, of r]
  have "remove_scan r drops 0 (obs s) (owners s) = Inl Deadlock \<longleftrightarrow> (\<exists>i. fatal drops 0 (obs s) (owners s) i)"
    and "remove_scan r drops 0 (obs s) (owners s) \<noteq> Inl Deadlock \<longrightarrow>
       (\<exists>kept own. remove_scan r drops 0 (obs s) (owners s) = Inr (kept, own) \<and>
          filter (\<lambda>e. e \<noteq> r) kept = filter (\<lambda>e. e \<noteq> r) (obs s))"
    by (auto split: if_splits)
  moreover have "filter (\<lambda>e. \<not> (0 < owners s e \<and> e = r)) (obs s) = obs (inventory_remove r s)"
    by (auto simp: inventory_remove_def weak_lock_def intro: filter_cong)
  ultimately show ?thesis by (auto simp: fatal_def remove_scan_alone)
qed

text \<open>Two registered requests; while the first removes itself, the only owner of the second lets go.\<close>

theorem remove_deadlocks_exactly_witness:
  "remove_scan 1 (\<lambda>k. if k = 1 then [2] else []) 0 [1, 2] (\<lambda>_. 1) = Inl Deadlock"
proof -
  let ?s = "\<lparr>owners = (\<lambda>_. 1), obs = [1, 2], printed = []\<rparr>" and ?d = "\<lambda>k :: nat. if k = 1 then [2 :: nat] else []"
  have "\<forall>e. dropped ?d 0 (length (obs ?s)) e \<le> owners ?s e" by (simp add: dropped_def)
  from remove_deadlocks_exactly [OF this, of 1] show ?thesis by (auto simp: dropped_def less_Suc_eq)
qed

end
