(* ===== verification/Record_Stream.thy ===== *)
theory Record_Stream
  imports Endian
begin

text \<open>
  Buffers that hold a sequence of variable-length records, as the kernel fills them for netlink
  sockets and inotify descriptors.  A pointer into the buffer is the rest of the buffer from there.
  The locale states what a loop over such records has to do with one of them; the lemma extends
  it to all of them.
\<close>

definition load_u32 :: "u8 list \<Rightarrow> nat \<Rightarrow> cxx_error + u32" where
  "load_u32 p off = and_then (read_n p off 4) (\<lambda>bs. Inr (le_word bs))"

definition load_u16 :: "u8 list \<Rightarrow> nat \<Rightarrow> cxx_error + u16" where
  "load_u16 p off = and_then (read_n p off 2) (\<lambda>bs. Inr (le_word bs))"

lemma load_u32_at:
  "length pre = off \<Longrightarrow> load_u32 (pre @ le_bytes 4 w @ rest) off = Inr w"
  by (simp add: load_u32_def mem_simps le_word_le_bytes)

lemma load_u16_at:
  "length pre = off \<Longrightarrow> load_u16 (pre @ le_bytes 2 w @ rest) off = Inr w"
  by (simp add: load_u16_def mem_simps le_word_le_bytes)

lemma load_inside:
  "off + 4 \<le> length p \<Longrightarrow> \<exists>w. load_u32 p off = Inr w"
  "off + 2 \<le> length p \<Longrightarrow> \<exists>v. load_u16 p off = Inr v"
  by (simp_all add: load_u32_def load_u16_def mem_simps)

locale record_stream =
  fixes ok :: "'m \<Rightarrow> bool"
    and enc :: "'m \<Rightarrow> u8 list"
    and out :: "'m \<Rightarrow> 'o list"
    and loop :: "u8 list \<Rightarrow> nat \<Rightarrow> cxx_error + 'o list"
  assumes loop_end: "loop p 0 = Inr []"
    and loop_record: "ok m \<Longrightarrow>
      loop (enc m @ rest) (length (enc m) + k) = and_then (loop rest k) (\<lambda>os. Inr (out m @ os))"
begin

lemma loop_records:
  "\<forall>m \<in> set ms. ok m \<Longrightarrow>
     loop (concat (map enc ms) @ tail) (length (concat (map enc ms))) = Inr (concat (map out ms))"
proof (induction ms)
  case (Cons m ms)
  then show ?case
    using loop_record [of m "concat (map enc ms) @ tail" "length (concat (map enc ms))"] by simp
qed (simp add: loop_end)

end

end
