(* ===== verification/Netlink.thy ===== *)
theory Netlink
  imports Record_Stream
begin

text \<open>
  \<^verbatim>\<open>src/main.cpp\<close>: the netlink listener.  One round of its loop is a function of what
  \<^verbatim>\<open>select\<close> and \<^verbatim>\<open>recv\<close> returned and of the buffer; it gives the lines printed.
  The macros \<^verbatim>\<open>NLMSG_OK\<close> and \<^verbatim>\<open>NLMSG_NEXT\<close> are those of \<^verbatim>\<open>linux/netlink.h\<close>.
\<close>

unbundle bit_operations_syntax

record nlmsghdr =
  nlmsg_len :: u32
  nlmsg_type :: u16

definition nl_load :: "u8 list \<Rightarrow> cxx_error + nlmsghdr" where
  "nl_load p =
     and_then (load_u32 p 0) (\<lambda>l. and_then (load_u16 p 4) (\<lambda>t.
       Inr \<lparr>nlmsg_len = l, nlmsg_type = t\<rparr>))"

definition nlmsg_align :: "u32 \<Rightarrow> u32" where
  "nlmsg_align n = (n + 3) AND NOT 3"

definition NLMSG_ERROR :: u16 where "NLMSG_ERROR = 2"
definition NLMSG_DONE :: u16 where "NLMSG_DONE = 3"
definition RTM_NEWLINK :: u16 where "RTM_NEWLINK = 16"
definition RTM_DELLINK :: u16 where "RTM_DELLINK = 17"
definition RTM_NEWADDR :: u16 where "RTM_NEWADDR = 20"
definition RTM_DELADDR :: u16 where "RTM_DELADDR = 21"

definition nl_line :: "u16 \<Rightarrow> string list" where
  "nl_line t =
     (if t = NLMSG_DONE \<or> t = NLMSG_ERROR then []
      else if t = RTM_NEWLINK \<or> t = RTM_DELLINK then [''RTM_NEWLINK or RTM_DELLINK'']
      else if t = RTM_NEWADDR \<or> t = RTM_DELADDR then [''RTM_NEWLINK or RTM_DELLINK'']
      else [])"

text \<open>\<open>left\<close> is \<^verbatim>\<open>read_size\<close>, a signed number that the macros count down.  A header
  whose aligned length wrapped to zero would leave the pointer where it is and the loop would
  never end: that is the value \<open>Diverges\<close>.\<close>

function nl_loop :: "u8 list \<Rightarrow> int \<Rightarrow> cxx_error + string list" where
  "nl_loop p left =
     (if left < 16 then Inr []
      else and_then (nl_load p) (\<lambda>h.
        if 16 \<le> unat (nlmsg_len h) \<and> int (unat (nlmsg_len h)) \<le> left
        then let step = unat (nlmsg_align (nlmsg_len h)) in
          if step = 0 then Inl Diverges
          else and_then (nl_loop (drop step p) (left - int step)) (\<lambda>ls.
            Inr (nl_line (nlmsg_type h) @ ls))
        else Inr []))"
  by pat_completeness auto
termination
proof (relation "measure (\<lambda>(p, left). nat left)", goal_cases)
  case (2 p left h step)
  then have "0 < left" "0 < int step" by linarith+
  then show ?case by simp
qed simp

declare nl_loop.simps [simp del]

definition nl_round :: "int \<Rightarrow> bool \<Rightarrow> int \<Rightarrow> u8 list \<Rightarrow> cxx_error + string list" where
  "nl_round select_ret is_set read_size buffer =
     (if select_ret \<le> 0 then Inr []
      else if is_set
        then if read_size < 0 then Inr [''fail to recv.'']
             else if read_size = 0 then Inr [''read 0 bytes'']
             else nl_loop buffer read_size
      else Inr [])"

section \<open>Messages as the kernel writes them\<close>

record nl_message =
  nm_type :: u16
  nm_rest :: "u8 list"
  nm_payload :: "u8 list"

definition nl_size :: "nl_message \<Rightarrow> nat" where
  "nl_size m = 16 + length (nm_payload m)"

definition nl_encode :: "nl_message \<Rightarrow> u8 list" where
  "nl_encode m =
     le_bytes 4 (of_nat (nl_size m) :: u32) @ le_bytes 2 (nm_type m) @ nm_rest m @ nm_payload m @
     replicate ((4 - nl_size m mod 4) mod 4) 0"

definition nl_ok :: "nl_message \<Rightarrow> bool" where
  "nl_ok m \<longleftrightarrow> length (nm_rest m) = 10 \<and> nl_size m < 2 ^ 31"

section \<open>Lemmas\<close>

lemma nlmsg_align_value:
  assumes "unat n + 3 < 2 ^ 32"
  shows "unat (nlmsg_align n) = 4 * ((unat n + 3) div 4)"
proof -
  have "x AND NOT 3 = push_bit 2 (drop_bit 2 x)" for x :: u32
  proof (rule bit_word_eqI)
    fix i assume "i < LENGTH(32)"
    have three: "(3 :: u32) = mask 2" by (simp add: mask_eq_exp_minus_1)
    show "bit (x AND NOT 3) i = bit (push_bit 2 (drop_bit 2 x)) i"
      unfolding three using \<open>i < LENGTH(32)\<close>
      by (auto simp: bit_simps linorder_not_less le_add_diff_inverse simp del: add_2_eq_Suc add_2_eq_Suc')
  qed
  then have "nlmsg_align n = push_bit 2 (drop_bit 2 (n + 3))" by (simp add: nlmsg_align_def)
  moreover have "unat (n + 3) = unat n + 3" using assms by (simp add: unat_word_ariths)
  moreover have "4 * ((unat n + 3) div 4) < 2 ^ 32" using assms by linarith
  moreover have "unat (push_bit 2 y) = (4 * unat y) mod 2 ^ 32" for y :: u32
    by (simp add: push_bit_eq_mult unat_word_ariths mult.commute)
  moreover have "unat (drop_bit 2 y) = unat y div 4" for y :: u32
    by (simp add: drop_bit_eq_div unat_div)
  ultimately show ?thesis by (simp only: mod_less)
qed

lemma pad_to_four: "s + (4 - s mod 4) mod 4 = 4 * ((s + 3) div 4)" for s :: nat
proof -
  define q r where "q = s div 4" and "r = s mod 4"
  then have s: "s = 4 * q + r" and "r < 4" by simp_all
  then consider "r = 0" | "r = 1" | "r = 2" | "r = 3" by linarith
  moreover have "(4 * q + r) mod 4 = r" using \<open>r < 4\<close> by simp
  ultimately show ?thesis unfolding s by cases simp_all
qed

lemma nl_encode_length:
  assumes "nl_ok m"
  shows "length (nl_encode m) = 4 * ((nl_size m + 3) div 4)"
proof -
  have "length (nl_encode m) = nl_size m + (4 - nl_size m mod 4) mod 4"
    using assms by (simp add: nl_encode_def nl_ok_def nl_size_def)
  then show ?thesis by (simp only: pad_to_four)
qed

lemma nl_load_encoded:
  "nl_load (nl_encode m @ rest) = Inr \<lparr>nlmsg_len = of_nat (nl_size m), nlmsg_type = nm_type m\<rparr>"
  using load_u32_at [of "[]" 0 "of_nat (nl_size m)"] load_u16_at [of "le_bytes 4 (of_nat (nl_size m) :: u32)" 4 "nm_type m"]
  by (simp add: nl_load_def nl_encode_def)

lemma nl_loop_message:
  assumes "nl_ok m"
  shows "nl_loop (nl_encode m @ rest) (int (length (nl_encode m) + k)) =
         and_then (nl_loop rest (int k)) (\<lambda>ls. Inr (nl_line (nm_type m) @ ls))"
proof -
  have small: "nl_size m < 2 ^ 31" using assms by (simp add: nl_ok_def)
  then have len: "unat (of_nat (nl_size m) :: u32) = nl_size m" by (simp add: unat_of_nat)
  have len': "uint (of_nat (nl_size m) :: u32) = int (nl_size m)" unfolding uint_nat len ..
  have step: "unat (nlmsg_align (of_nat (nl_size m))) = length (nl_encode m)"
    using small len by (simp add: nlmsg_align_value nl_encode_length [OF assms])
  have "16 \<le> nl_size m" by (simp add: nl_size_def)
  moreover have "nl_size m \<le> length (nl_encode m)"
    using assms nl_encode_length [OF assms] by linarith
  moreover have "nl_encode m \<noteq> []" using \<open>nl_size m \<le> length (nl_encode m)\<close> by (auto simp: nl_size_def)
  ultimately show ?thesis
    by (subst nl_loop.simps) (simp add: nl_load_encoded len len' step Let_def)
qed

interpretation nl: record_stream nl_ok nl_encode "\<lambda>m. nl_line (nm_type m)" "\<lambda>p k. nl_loop p (int k)"
proof unfold_locales
  show "nl_loop p (int 0) = Inr []" for p by (simp add: nl_loop.simps)
  show "nl_ok m \<Longrightarrow> nl_loop (nl_encode m @ rest) (int (length (nl_encode m) + k)) =
      and_then (nl_loop rest (int k)) (\<lambda>ls. Inr (nl_line (nm_type m) @ ls))" for m rest k
    by (rule nl_loop_message)
qed

section \<open>Rounds\<close>

text \<open>A buffer that holds a sequence of netlink messages is decoded message by message: the
  listener prints the line of each link or address message, in order, and nothing for the others
  (messages after \<^verbatim>\<open>NLMSG_DONE\<close> are still handled).\<close>

lemma netlink_round_trip:
  assumes "\<forall>m \<in> set ms. nl_ok m" and "ms \<noteq> []"
  shows "nl_round 1 True (int (length (concat (map nl_encode ms)))) (concat (map nl_encode ms) @ tail) =
           Inr (concat (map (\<lambda>m. nl_line (nm_type m)) ms))"
proof -
  have "length (nl_encode m) \<noteq> 0" for m by (simp add: nl_encode_def)
  then have "length (concat (map nl_encode ms)) \<noteq> 0" using assms(2) by (cases ms) auto
  then have "0 < int (length (concat (map nl_encode ms)))" by simp
  then show ?thesis using nl.loop_records [OF assms(1), of tail] by (auto simp: nl_round_def)
qed

text \<open>Whatever bytes arrive, the listener only reads headers inside the received data: a round
  never reads out of bounds, and its loop ends.\<close>

lemma netlink_round_in_bounds:
  assumes "read_size \<le> int (length buffer)" and "length buffer < 2 ^ 31"
  shows "\<exists>ls. nl_round select_ret is_set read_size buffer = Inr ls"
proof -
  have "left \<le> int (length p) \<Longrightarrow> left < 2 ^ 31 \<Longrightarrow> \<exists>ls. nl_loop p left = Inr ls" for p left
  proof (induction p left rule: nl_loop.induct)
    case (1 p left)
    show ?case
    proof (cases "left < 16")
      case False
      then have "16 \<le> length p" using "1.prems"(1) by linarith
      then obtain h where h: "nl_load p = Inr h"
        using load_inside(1) [of 0 p] load_inside(2) [of 4 p] by (auto simp: nl_load_def)
      let ?len = "unat (nlmsg_len h)" and ?step = "unat (nlmsg_align (nlmsg_len h))"
      show ?thesis
      proof (cases "16 \<le> ?len \<and> int ?len \<le> left")
        case True
        have "int ?len < 2 ^ 31" using True "1.prems"(2) by linarith
        then have "?len < 2 ^ 31" by (metis of_nat_less_iff of_nat_numeral of_nat_power)
        then have "?step = 4 * ((?len + 3) div 4)" by (intro nlmsg_align_value) simp
        then have nz: "?step \<noteq> 0" using True by linarith
        have "\<exists>ls. nl_loop (drop ?step p) (left - int ?step) = Inr ls"
        proof (cases "left - int ?step < 16")
          case True
          then show ?thesis by (simp add: nl_loop.simps)
        next
          case far: False
          then have "left - int ?step \<le> int (length (drop ?step p))" using "1.prems"(1)
            unfolding length_drop by linarith
          moreover have "left - int ?step < 2 ^ 31" using "1.prems"(2) by linarith
          ultimately show ?thesis by (rule "1.IH" [OF False h True refl nz])
        qed
        then show ?thesis using False h True nz by (subst nl_loop.simps) (auto simp: Let_def)
      next
        case stop: False
        then show ?thesis using False h by (subst nl_loop.simps) auto
      qed
    qed (simp add: nl_loop.simps)
  qed
  from this [of read_size buffer] show ?thesis using assms by (auto simp: nl_round_def)
qed

end
