(* ===== verification/C_String.thy ===== *)
theory C_String
  imports Syscalls
begin

text \<open>
  Character buffers of a fixed size, as the samples use them: a call that receives data overwrites
  the front of the buffer, and \<^verbatim>\<open>printf("%s")\<close>, \<^verbatim>\<open>puts\<close> and \<^verbatim>\<open>fputs\<close> print up to the first
  zero byte, reading on behind the buffer when there is none.
\<close>

definition recv_into :: "u8 list \<Rightarrow> u8 list \<Rightarrow> u8 list" where
  "recv_into bs buf = bs @ drop (length bs) buf"

definition print_cstring :: "u8 list \<Rightarrow> cxx_error + u8 list" where
  "print_cstring buf = (if 0 \<in> set buf then Inr (takeWhile (\<lambda>c. c \<noteq> 0) buf) else Inl OutOfBounds)"

text \<open>The C string that starts at the front.\<close>

definition cstr :: "u8 list \<Rightarrow> u8 list" where
  "cstr bs = takeWhile (\<lambda>c. c \<noteq> 0) bs"

definition zeros :: "nat \<Rightarrow> u8 list" where
  "zeros n = replicate n 0"

text \<open>What a call that received \<open>a\<close> leaves in the buffer; a failed call leaves it as it was.\<close>

definition received :: "answer \<Rightarrow> u8 list \<Rightarrow> u8 list" where
  "received a buf = (if ans_ret a < 0 then buf else recv_into (take (nat (ans_ret a)) (ans_bytes a)) buf)"

text \<open>The kernel delivers as many bytes as it says, and no more than there is room for.\<close>

definition fits :: "answer \<Rightarrow> nat \<Rightarrow> bool" where
  "fits a n \<longleftrightarrow> (0 \<le> ans_ret a \<longrightarrow> length (ans_bytes a) = nat (ans_ret a) \<and> length (ans_bytes a) \<le> n)"

definition delivers_bytes :: "u8 list \<Rightarrow> answer" where
  "delivers_bytes bs = \<lparr>ans_ret = int (length bs), ans_errno = 0, ans_out = 0, ans_bytes = bs\<rparr>"

lemma length_recv_into [simp]: "length bs \<le> length buf \<Longrightarrow> length (recv_into bs buf) = length buf"
  by (simp add: recv_into_def)

lemma length_received: "fits a (length buf) \<Longrightarrow> length (received a buf) = length buf"
  by (auto simp: received_def fits_def)

lemma received_delivered [simp]: "received (delivers_bytes bs) buf = recv_into bs buf"
  by (simp add: received_def delivers_bytes_def)

lemma fits_delivered [simp]: "fits (delivers_bytes bs) n \<longleftrightarrow> length bs \<le> n"
  by (simp add: fits_def delivers_bytes_def)

text \<open>A message without zero bytes, received into a cleared buffer with room to spare, is printed as
  it is; received over a longer one it is printed with the older one's tail.\<close>

lemma print_split: "0 \<notin> set xs \<Longrightarrow> print_cstring (xs @ 0 # r) = Inr xs"
  unfolding print_cstring_def by (simp add: takeWhile_tail) (metis takeWhile_eq_all_conv)

lemma print_fresh:
  assumes "0 \<notin> set bs" and "length bs < n"
  shows "print_cstring (recv_into bs (zeros n)) = Inr bs"
proof -
  have "drop (length bs) (zeros n) = 0 # zeros (n - Suc (length bs))"
    using assms(2) by (simp add: zeros_def flip: replicate_Suc)
  then show ?thesis using print_split [OF assms(1)] by (simp add: recv_into_def)
qed

lemma print_over:
  assumes "print_cstring buf = Inr old" and "0 \<notin> set bs" and "length bs \<le> length old"
  shows "print_cstring (recv_into bs buf) = Inr (bs @ drop (length bs) old)"
proof -
  have zero: "0 \<in> set buf" and old: "old = takeWhile (\<lambda>c. c \<noteq> 0) buf"
    using assms(1) by (auto simp: print_cstring_def split: if_splits)
  obtain r where split: "buf = old @ 0 # r"
  proof -
    from zero obtain c r where "dropWhile (\<lambda>c. c \<noteq> 0) buf = c # r" "c = 0"
      using dropWhile_eq_Nil_conv [of "\<lambda>c. c \<noteq> 0" buf] hd_dropWhile [of "\<lambda>c. c \<noteq> 0" buf]
      by (cases "dropWhile (\<lambda>c. c \<noteq> 0) buf") auto
    then have "buf = old @ 0 # r" using takeWhile_dropWhile_id [of "\<lambda>c. c \<noteq> 0" buf] by (simp add: old)
    then show ?thesis by (rule that)
  qed
  have "drop (length bs) buf = drop (length bs) old @ 0 # r" using assms(3) by (simp add: split)
  moreover have "0 \<notin> set (drop (length bs) old)" using old by (auto dest!: in_set_dropD set_takeWhileD)
  ultimately show ?thesis using assms(2) print_split [of "bs @ drop (length bs) old" r]
    by (simp add: recv_into_def)
qed

lemma print_full: "0 \<notin> set bs \<Longrightarrow> length bs = length buf \<Longrightarrow> print_cstring (recv_into bs buf) = Inl OutOfBounds"
  by (simp add: print_cstring_def recv_into_def)

end
