(* ===== verification/Netlink_Listener.thy ===== *)
theory Netlink_Listener
  imports Netlink C_String
begin

text \<open>
  The program of \<^verbatim>\<open>src/main.cpp\<close> around the rounds of \<open>Netlink\<close>: the socket is opened and bound
  without looking at the results, and every turn of the loop waits with \<^verbatim>\<open>select\<close>, receives a
  datagram into the 1048 byte buffer and walks it.  \<^verbatim>\<open>FD_SET\<close> writes behind its bitmap for a
  descriptor that is negative or not below \<^verbatim>\<open>FD_SETSIZE\<close>.  The loop never ends; \<open>nl_main k\<close> is the
  program up to the end of its \<open>k\<close>-th turn.
\<close>

definition nl_buffer_size :: nat where "nl_buffer_size = 1048"
definition FD_SETSIZE :: int where "FD_SETSIZE = 1024"

definition nl_start :: "world \<Rightarrow> int \<times> u8 list \<times> world" where
  "nl_start w =
     (let (s, w1) = invoke SysSocket w;
          (_, w2) = invoke (SysBind (ans_ret s)) w1
      in (ans_ret s, zeros nl_buffer_size, w2))"

definition nl_turn :: "int \<Rightarrow> u8 list \<Rightarrow> world \<Rightarrow> cxx_error + string list \<times> u8 list \<times> world" where
  "nl_turn fd buffer w =
     (if fd < 0 \<or> FD_SETSIZE \<le> fd then Inl OutOfBounds
      else let (s, w1) = invoke (SysSelect (fd + 1) 1) w in
        if ans_ret s \<le> 0 \<or> ans_out s = 0
        then and_then (nl_round (ans_ret s) (ans_out s \<noteq> 0) 0 buffer) (\<lambda>ls. Inr (ls, buffer, w1))
        else let (r, w2) = invoke (SysRecv fd 0) w1; buffer1 = received r buffer in
          and_then (nl_round (ans_ret s) True (ans_ret r) buffer1) (\<lambda>ls. Inr (ls, buffer1, w2)))"

fun nl_turns :: "nat \<Rightarrow> int \<Rightarrow> u8 list \<Rightarrow> world \<Rightarrow> cxx_error + string list \<times> u8 list \<times> world" where
  "nl_turns 0 fd buffer w = Inr ([], buffer, w)"
| "nl_turns (Suc k) fd buffer w =
     and_then (nl_turn fd buffer w) (\<lambda>(ls, buffer1, w1).
     and_then (nl_turns k fd buffer1 w1) (\<lambda>(more, buffer2, w2). Inr (ls @ more, buffer2, w2)))"

definition nl_main :: "nat \<Rightarrow> world \<Rightarrow> cxx_error + string list \<times> u8 list \<times> world" where
  "nl_main k w = (let (fd, buffer, w1) = nl_start w in nl_turns k fd buffer w1)"

text \<open>What the program relies on: no call returns or delivers more than it was given room for.\<close>

definition nl_kernel :: "world \<Rightarrow> bool" where
  "nl_kernel w \<longleftrightarrow> (\<forall>n. ans_ret (w_answers w n) \<le> int nl_buffer_size \<and>
     length (ans_bytes (w_answers w n)) \<le> nl_buffer_size)"





section \<open>Lemmas\<close>

lemma nl_received_length:
  "nl_kernel w \<Longrightarrow> length buffer = nl_buffer_size \<Longrightarrow>
     length (received (w_answers w n) buffer) = nl_buffer_size"
  using length_recv_into [of "take (nat (ans_ret (w_answers w n))) (ans_bytes (w_answers w n))" buffer]
  by (auto simp: nl_kernel_def received_def min_le_iff_disj)

lemma nl_kernel_script:
  "list_all (\<lambda>a. ans_ret a \<le> int nl_buffer_size \<and> length (ans_bytes a) \<le> nl_buffer_size) as \<Longrightarrow>
     nl_kernel (script as)"
  by (simp add: nl_kernel_def script_def list_all_length returns_def)

lemma nl_kernel_invoke [simp]: "nl_kernel (snd (invoke c w)) = nl_kernel w"
  by (simp add: nl_kernel_def)

lemma nl_turn_safe:
  assumes "0 \<le> fd" and "fd < FD_SETSIZE" and "nl_kernel w" and "length buffer = nl_buffer_size"
  shows "\<exists>ls buffer1 w1. nl_turn fd buffer w = Inr (ls, buffer1, w1) \<and> nl_kernel w1 \<and>
           length buffer1 = nl_buffer_size"
proof -
  let ?s = "next_answer w" and ?r = "w_answers w (Suc (length (w_trace w)))"
  have size: "length (received ?r buffer) = nl_buffer_size" using nl_received_length assms(3,4) by blast
  have "ans_ret ?r \<le> int (length (received ?r buffer))" unfolding size using assms(3) by (simp add: nl_kernel_def)
  then obtain ls where "nl_round (ans_ret ?s) True (ans_ret ?r) (received ?r buffer) = Inr ls"
    using netlink_round_in_bounds size by (force simp: nl_buffer_size_def)
  moreover obtain ls' where "nl_round (ans_ret ?s) (ans_out ?s \<noteq> 0) 0 buffer = Inr ls'"
    using netlink_round_in_bounds assms(4) by (force simp: nl_buffer_size_def)
  ultimately show ?thesis using assms size by (simp add: nl_turn_def Let_def split_beta)
qed

lemma nl_turns_safe:
  "0 \<le> fd \<Longrightarrow> fd < FD_SETSIZE \<Longrightarrow> nl_kernel w \<Longrightarrow> length buffer = nl_buffer_size \<Longrightarrow>
     \<exists>ls buffer1 w1. nl_turns k fd buffer w = Inr (ls, buffer1, w1) \<and> length buffer1 = nl_buffer_size"
proof (induction k arbitrary: buffer w)
  case (Suc k)
  from nl_turn_safe [OF Suc.prems] obtain ls b1 w1
    where t: "nl_turn fd buffer w = Inr (ls, b1, w1)" "nl_kernel w1" "length b1 = nl_buffer_size" by blast
  with Suc.IH [of w1 b1] Suc.prems show ?case by (fastforce simp: t(1))
qed simp



section \<open>Properties\<close>


text \<open>C32: The listener is memory safe for ever: whatever \<^verbatim>\<open>select\<close> and \<^verbatim>\<open>recv\<close> return and whatever
  bytes arrive, no turn reads outside the received data, the walk over the messages ends, and the
  buffer keeps its size -- provided the socket could be opened; if it could not, the first
  \<^verbatim>\<open>FD_SET\<close> writes outside its set.\<close>

theorem netlink_listener_safe:
  assumes "nl_kernel w" and "ans_ret (next_answer w) < FD_SETSIZE"
  shows "if 0 \<le> ans_ret (next_answer w)
         then \<exists>ls buffer w'. nl_main k w = Inr (ls, buffer, w') \<and> length buffer = nl_buffer_size
         else nl_main (Suc k) w = Inl OutOfBounds"
proof -
  have "length (zeros nl_buffer_size) = nl_buffer_size" by (simp add: zeros_def)
  then show ?thesis using nl_turns_safe [OF _ assms(2), of _ "zeros nl_buffer_size" k] assms(1)
    by (simp add: nl_main_def nl_start_def Let_def split_beta nl_turn_def)
qed



theorem netlink_listener_safe_witness:
  "\<exists>ls buffer w'. nl_main 9 (script [returns 3, returns 0, gives 1 1, delivers_bytes [255, 255, 255]]) = Inr (ls, buffer, w')"
proof -
  let ?w = "script [returns 3, returns 0, gives 1 1, delivers_bytes [255, 255, 255]]"
  have "nl_kernel ?w"
    by (rule nl_kernel_script) (simp add: returns_def gives_def delivers_bytes_def nl_buffer_size_def)
  moreover have "ans_ret (next_answer ?w) = 3" by (simp add: next_answer_def script_def returns_def)
  ultimately show ?thesis using netlink_listener_safe [of ?w 9] by (auto simp: FD_SETSIZE_def)
qed

end
