(* ===== verification/Inotify.thy ===== *)
theory Inotify
  imports Record_Stream Syscalls
begin

text \<open>
  \<^verbatim>\<open>set/inotify/main.cpp\<close>: the directory watcher.  The inner \<^verbatim>\<open>while\<close> walks the events in
  the buffer from byte \<^verbatim>\<open>i\<close> on, where \<^verbatim>\<open>i\<close> is also the index of the outer loop over the
  epoll events.  Every line printed is a \<open>notice\<close> with the name it shows; a name is printed with
  \<^verbatim>\<open>%s\<close> and ends at the first zero byte of the buffer.
\<close>

unbundle bit_operations_syntax

datatype notice =
    PlainName | DirCreated | FileCreated | DirDeleted | FileDeleted
  | DirModified | FileModified | FileIgnored | FileMovedTo

definition IN_MODIFY :: u32 where "IN_MODIFY = 0x2"
definition IN_CLOSE :: u32 where "IN_CLOSE = 0x18"
definition IN_OPEN :: u32 where "IN_OPEN = 0x20"
definition IN_MOVED_TO :: u32 where "IN_MOVED_TO = 0x80"
definition IN_CREATE :: u32 where "IN_CREATE = 0x100"
definition IN_DELETE :: u32 where "IN_DELETE = 0x200"
definition IN_IGNORED :: u32 where "IN_IGNORED = 0x8000"
definition IN_ISDIR :: u32 where "IN_ISDIR = 0x40000000"

lemmas in_flags = IN_MODIFY_def IN_CLOSE_def IN_OPEN_def IN_MOVED_TO_def IN_CREATE_def
  IN_DELETE_def IN_IGNORED_def IN_ISDIR_def

definition in_set :: "u32 \<Rightarrow> u32 \<Rightarrow> bool" where
  "in_set evmask b \<longleftrightarrow> evmask AND b \<noteq> 0"


definition notices :: "u32 \<Rightarrow> notice list" where
  "notices evmask =
     (if in_set evmask IN_CREATE then (if in_set evmask IN_ISDIR then [DirCreated] else [FileCreated])
      else if in_set evmask IN_DELETE then (if in_set evmask IN_ISDIR then [DirDeleted] else [FileDeleted])
      else if in_set evmask IN_MODIFY then (if in_set evmask IN_ISDIR then [DirModified] else [FileModified])
      else if in_set evmask IN_IGNORED then [FileIgnored]
      else if in_set evmask IN_MOVED_TO then [FileMovedTo]
      else if in_set evmask IN_OPEN then [FileMovedTo]
      else if in_set evmask IN_CLOSE then [FileMovedTo]
      else [])"







text \<open>
  Set-up (lines 27-46).  When the directory cannot be watched the message shows \<^verbatim>\<open>argv[i]\<close>, where
  \<^verbatim>\<open>i\<close> has no value yet: the argument \<open>i\<close> is whatever the variable holds.
\<close>

definition watched_mask :: u32 where
  "watched_mask = IN_MODIFY OR IN_CREATE OR IN_DELETE OR IN_IGNORED OR IN_MOVED_TO OR IN_OPEN OR IN_CLOSE"

definition watch_start :: "int \<Rightarrow> string list \<Rightarrow> world \<Rightarrow> (cxx_error + (int \<times> int) run) \<times> world" where
  "watch_start i argv w =
     (let (ep, w1) = invoke (SysOther ''epoll_create'' [256]) w;
          (f, w2) = invoke (SysOther ''inotify_init'' []) w1 in
      if ans_ret f = -1 then (Inr (Exit 1), w2)
      else let (wd, w3) = invoke (SysOther ''inotify_add_watch'' [ans_ret f, uint watched_mask]) w2 in
        if ans_ret wd = -1
        then (if 0 \<le> i \<and> i < int (length argv) then Inr (Exit 1) else Inl OutOfBounds, w3)
        else let (_, w4) = invoke (SysOther ''epoll_ctl'' [ans_ret ep, ans_ret f]) w3
             in (Inr (Go (ans_ret ep, ans_ret f)), w4))"

section \<open>Events as the kernel writes them\<close>

record inotify_event =
  ie_wd :: u32
  ie_mask :: u32
  ie_cookie :: u32
  ie_name :: "u8 list"
  ie_pad :: nat

definition ie_len :: "inotify_event \<Rightarrow> nat" where
  "ie_len e = length (ie_name e) + ie_pad e"

definition ie_encode :: "inotify_event \<Rightarrow> u8 list" where
  "ie_encode e =
     le_bytes 4 (ie_wd e) @ le_bytes 4 (ie_mask e) @ le_bytes 4 (ie_cookie e) @
     le_bytes 4 (of_nat (ie_len e) :: u32) @ ie_name e @ replicate (ie_pad e) 0"




section \<open>Lemmas\<close>


lemma ie_encode_length [simp]: "length (ie_encode e) = 16 + ie_len e"
  by (simp add: ie_encode_def ie_len_def)


text \<open>How the set-up ends: with the two descriptors only when both calls that are checked succeed;
  a directory that cannot be watched is reported through an argument that need not exist.\<close>

lemma watch_start_outcomes:
  "fst (watch_start i argv w) =
     (if ans_ret (nth_answer w 1) = -1 then Inr (Exit 1)
      else if ans_ret (nth_answer w 2) = -1
        then if 0 \<le> i \<and> i < int (length argv) then Inr (Exit 1) else Inl OutOfBounds
      else Inr (Go (ans_ret (nth_answer w 0), ans_ret (nth_answer w 1))))"
  by (simp add: watch_start_def Let_def split_beta nth_answer_simps eval_nat_numeral)

section \<open>Properties\<close>


text \<open>Opening or closing a file is reported with the line for a moved file, and an event is
  reported with one line only, the first that its mask matches.\<close>

theorem open_and_close_reported_as_moved:
  "notices IN_OPEN = notices IN_MOVED_TO \<and> notices IN_CLOSE = notices IN_MOVED_TO \<and>
   notices IN_MOVED_TO = [FileMovedTo] \<and> length (notices evmask) \<le> 1"
  by (simp add: notices_def in_set_def in_flags)



end
