(* ===== verification/Echo_Server.thy ===== *)
theory Echo_Server
  imports Sockops
begin

text \<open>
  \<^verbatim>\<open>set/echo/echo.server.cpp\<close> (the same file is in \<^verbatim>\<open>set/echo_fd\<close>): the poll loop of the
  echo server.  Its state is the array of poll entries, the listening socket first, and the
  number of connections so far.  \<open>ready\<close> is what \<^verbatim>\<open>poll\<close> reports; the \<^verbatim>\<open>revents\<close>
  member of an entry made for a new connection is not initialised, its value is \<open>junk\<close>.
\<close>

record echo_state =
  client_fds :: "pollfd list"
  echo_count :: nat

definition echo_addr ::
  "(string \<Rightarrow> string \<Rightarrow> int option) \<Rightarrow> (string \<Rightarrow> hostent option) \<Rightarrow> sockaddr_in \<Rightarrow> cxx_error + bool \<times> sockaddr_in" where
  "echo_addr servbyname hostbyname addr = constructor_echo_addr servbyname hostbyname ''echo.server'' addr"

definition create_fifo :: "world \<Rightarrow> int run \<times> world" where
  "create_fifo w =
     (let (a, w1) = invoke SysAccess w;
          (made, w2) = (if ans_ret a \<noteq> 0 then let (b, w2) = invoke SysMkfifo w1 in (ans_ret b = 0, w2)
                        else (True, w1))
      in if \<not> made then (Exit (-1), w2)
         else let (c, w3) = invoke SysOpen w2
              in if ans_ret c = -1 then (Exit (-1), w3) else (Go (ans_ret c), w3))"

text \<open>From the socket to the array of poll entries; \<open>addr_ok\<close> is the result of the address
  look-up.  \<^verbatim>\<open>set/echo\<close> is built with \<^verbatim>\<open>WAIT_WAKEUP\<close> and opens the fifo first,
  \<^verbatim>\<open>set/echo_fd\<close> is built without.\<close>

definition echo_listen :: "bool \<Rightarrow> world \<Rightarrow> echo_state run \<times> world" where
  "echo_listen addr_ok w =
     (let (s, w1) = invoke SysSocket w; sock_fd = ans_ret s in
      if \<not> addr_ok then (Exit (-1), w1)
      else let (b, w2) = invoke (SysBind sock_fd) w1 in
        if ans_ret b \<noteq> 0 then (Exit (-1), w2)
        else let (l, w3) = invoke (SysListen sock_fd 100) w2 in
          if ans_ret l \<noteq> 0 then (Exit (-1), w3)
          else (Go \<lparr>client_fds = [\<lparr>pfd_fd = sock_fd, pfd_events = POLLRDNORM, pfd_revents = 0\<rparr>],
                    echo_count = 0\<rparr>, w3))"

definition echo_start :: "bool \<Rightarrow> world \<Rightarrow> echo_state run \<times> world" where
  "echo_start addr_ok w =
     (let (f, w1) = create_fifo w in
      case f of Exit c \<Rightarrow> (Exit c, w1) | Go _ \<Rightarrow> echo_listen addr_ok w1)"

text \<open>\<^verbatim>\<open>signal_t\<close>: interrupted calls are restarted, except after an alarm; \<open>None\<close> is
  \<^verbatim>\<open>SIG_ERR\<close>, the handler that was installed before is the answer's integer.\<close>

definition SIGALRM :: int where "SIGALRM = 14"
definition SIGCHLD :: int where "SIGCHLD = 17"
definition SA_RESTART :: u32 where "SA_RESTART = 0x10000000"
definition SA_INTERRUPT :: u32 where "SA_INTERRUPT = 0x20000000"

definition signal_flags :: "int \<Rightarrow> u32" where
  "signal_flags s = (if s = SIGALRM then 0 OR SA_INTERRUPT else 0 OR SA_RESTART)"

definition signal_t :: "int \<Rightarrow> world \<Rightarrow> (u32 \<times> int option) \<times> world" where
  "signal_t s w =
     (let (a, w1) = invoke (SysSigaction s) w
      in ((signal_flags s, if ans_ret a \<noteq> 0 then None else Some (ans_out a)), w1))"

text \<open>The handler: \<open>results\<close> are what \<^verbatim>\<open>waitpid\<close> returns; \<^verbatim>\<open>pid\<close> is the outcome of the
  comparison.  The value is what is printed, and the results left.\<close>

fun sigchild_handle :: "int list \<Rightarrow> int list \<times> int list" where
  "sigchild_handle [] = ([], [])"
| "sigchild_handle (r # rs) =
     (let pid = (if r > 0 then 1 else 0) :: int in
      if pid \<noteq> 0 then (let (out, rest) = sigchild_handle rs in (pid # out, rest)) else ([], rs))"

text \<open>One entry of the scan: the answer of \<^verbatim>\<open>read\<close> carries the bytes it put into the buffer.\<close>

definition echo_client :: "pollfd \<Rightarrow> world \<Rightarrow> pollfd \<times> world" where
  "echo_client p w =
     (if pfd_fd p = -1 then (p, w)
      else if has_event (pfd_revents p) (POLLRDNORM OR POLLERR)
        then let (a, w1) = invoke (SysRead (pfd_fd p)) w; n = ans_ret a in
          if 0 < n then (p, snd (invoke (SysWrite (pfd_fd p) (take (nat n) (ans_bytes a))) w1))
          else if n = 0 then (p\<lparr>pfd_fd := -1\<rparr>, snd (invoke (SysClose (pfd_fd p)) w1))
          else (p, w1)
      else (p, w))"

fun echo_scan :: "pollfd list \<Rightarrow> world \<Rightarrow> pollfd list \<times> world" where
  "echo_scan [] w = ([], w)"
| "echo_scan (p # ps) w =
     (let (p', w1) = echo_client p w; (ps', w2) = echo_scan ps w1 in (p' # ps', w2))"

definition echo_accept :: "u16 \<Rightarrow> echo_state \<Rightarrow> world \<Rightarrow> echo_state run \<times> world" where
  "echo_accept junk st w =
     (case client_fds st of
        [] \<Rightarrow> (Go st, w)
      | l # _ \<Rightarrow>
          if has_event (pfd_revents l) POLLRDNORM
          then let (a, w1) = invoke (SysAccept (pfd_fd l)) w in
            if ans_ret a < 0 then (Exit (-1), w1)
            else (Go (st\<lparr>echo_count := echo_count st + 1,
                         client_fds := client_fds st @
                           [\<lparr>pfd_fd = ans_ret a, pfd_events = POLLRDNORM OR POLLERR, pfd_revents = junk\<rparr>]\<rparr>), w1)
          else (Go st, w))"

definition echo_round :: "u16 list \<Rightarrow> u16 \<Rightarrow> echo_state \<Rightarrow> world \<Rightarrow> echo_state run \<times> world" where
  "echo_round ready junk st w =
     (let (a, w1) = invoke (SysPoll (length (client_fds st)) 1000) w; n = ans_ret a in
      if n < 0 then (Exit (-1), w1)
      else let st1 = st\<lparr>client_fds := fill_revents ready (client_fds st)\<rparr> in
        if n = 0 then (Go st1, w1)
        else let (r, w2) = echo_accept junk st1 w1 in
          case r of
            Exit c \<Rightarrow> (Exit c, w2)
          | Go st2 \<Rightarrow>
              (case client_fds st2 of
                 [] \<Rightarrow> (Go st2, w2)
               | l # cs \<Rightarrow> let (cs', w3) = echo_scan cs w2
                          in (Go (st2\<lparr>client_fds := l # cs'\<rparr>), w3)))"

text \<open>The program: what \<^verbatim>\<open>poll\<close> reports and the uninitialised value are given per round.\<close>

fun echo_rounds :: "(u16 list \<times> u16) list \<Rightarrow> echo_state \<Rightarrow> world \<Rightarrow> echo_state run \<times> world" where
  "echo_rounds [] st w = (Go st, w)"
| "echo_rounds ((ready, junk) # envs) st w =
     (let (r, w1) = echo_round ready junk st w in
      case r of Exit c \<Rightarrow> (Exit c, w1) | Go st1 \<Rightarrow> echo_rounds envs st1 w1)"

definition echo_main :: "bool \<Rightarrow> (u16 list \<times> u16) list \<Rightarrow> world \<Rightarrow> echo_state run \<times> world" where
  "echo_main addr_ok envs w =
     (let (_, w1) = signal_t SIGCHLD w; (r, w2) = echo_start addr_ok w1 in
      case r of Exit c \<Rightarrow> (Exit c, w2) | Go st \<Rightarrow> echo_rounds envs st w2)"

text \<open>The copies of \<^verbatim>\<open>signal_t\<close> and \<^verbatim>\<open>sigchild_handle\<close> in \<^verbatim>\<open>set/echo_fd\<close>.\<close>

definition fd_signal_t :: "int \<Rightarrow> world \<Rightarrow> (u32 \<times> int option) \<times> world" where
  "fd_signal_t s w =
     (let flags = (if s = SIGALRM then 0 OR SA_INTERRUPT else 0 OR SA_RESTART);
          (a, w1) = invoke (SysSigaction s) w
      in ((flags, if ans_ret a \<noteq> 0 then None else Some (ans_out a)), w1))"

fun fd_sigchild_handle :: "int list \<Rightarrow> int list \<times> int list" where
  "fd_sigchild_handle [] = ([], [])"
| "fd_sigchild_handle (r # rs) =
     (let pid = (if r > 0 then 1 else 0) :: int in
      if pid \<noteq> 0 then (let (out, rest) = fd_sigchild_handle rs in (pid # out, rest)) else ([], rs))"

definition echo_fd_main :: "bool \<Rightarrow> (u16 list \<times> u16) list \<Rightarrow> world \<Rightarrow> echo_state run \<times> world" where
  "echo_fd_main addr_ok envs w =
     (let (_, w1) = fd_signal_t SIGCHLD w; (r, w2) = echo_listen addr_ok w1 in
      case r of Exit c \<Rightarrow> (Exit c, w2) | Go st \<Rightarrow> echo_rounds envs st w2)"

section \<open>Lemmas\<close>

text \<open>What a server may do on a connection: answer exactly what it has just read, and nothing
  else.  The predicate looks at all calls made after position \<open>n\<close>.\<close>

definition justified :: "nat \<Rightarrow> world \<Rightarrow> nat \<Rightarrow> syscall \<Rightarrow> bool" where
  "justified n w i c \<longleftrightarrow>
     (let prev = w_trace w ! (i - 1); a = w_answers w (i - 1) in
      (\<forall>fd bs. c = SysWrite fd bs \<longrightarrow>
         n < i \<and> prev = SysRead fd \<and> 0 < ans_ret a \<and> bs = take (nat (ans_ret a)) (ans_bytes a)) \<and>
      (\<forall>fd. c = SysClose fd \<longrightarrow> n < i \<and> prev = SysRead fd \<and> ans_ret a = 0))"

definition echoes_from :: "nat \<Rightarrow> world \<Rightarrow> bool" where
  "echoes_from n w \<longleftrightarrow>
     (\<forall>i < length (w_trace w). n \<le> i \<longrightarrow> justified n w i (w_trace w ! i))"

lemma echoes_from_start: "echoes_from (length (w_trace w)) w"
  by (simp add: echoes_from_def)

lemma justified_other [simp]:
  "justified n w i (SysRead fd)" "justified n w i (SysAccept fd)" "justified n w i (SysPoll k ms)"
  by (simp_all add: justified_def)

lemma echoes_from_invoke:
  assumes "echoes_from n w" and "justified n w (length (w_trace w)) c"
  shows "echoes_from n (snd (invoke c w))"
  unfolding echoes_from_def
proof (intro allI impI)
  fix i assume i: "i < length (w_trace (snd (invoke c w)))" "n \<le> i"
  have same: "justified n (snd (invoke c w)) i = justified n w i" if "i \<le> length (w_trace w)" "n < i" for n i
    using that by (auto simp: justified_def Let_def nth_append fun_eq_iff)
  have first: "justified n w' n d \<longleftrightarrow> (\<forall>fd bs. d \<noteq> SysWrite fd bs) \<and> (\<forall>fd. d \<noteq> SysClose fd)" for w' d
    by (auto simp: justified_def Let_def)
  show "justified n (snd (invoke c w)) i (w_trace (snd (invoke c w)) ! i)"
  proof (cases "i < length (w_trace w)")
    case True
    then have "justified n w i (w_trace w ! i)" using assms(1) i(2) by (simp add: echoes_from_def)
    then show ?thesis using same [of i n] first True i(2) by (cases "n = i") (simp_all add: nth_append)
  next
    case False
    then have eq: "i = length (w_trace w)" using i(1) by simp
    then show ?thesis using assms(2) same [of i n] first i(2) by (cases "n = i") (simp_all add: nth_append)
  qed
qed

lemma echo_client_echoes:
  assumes "echoes_from n w" and "n \<le> length (w_trace w)"
  shows "echoes_from n (snd (echo_client p w)) \<and> n \<le> length (w_trace (snd (echo_client p w)))"
proof -
  let ?w1 = "snd (invoke (SysRead (pfd_fd p)) w)"
  have read: "echoes_from n ?w1" using assms(1) by (rule echoes_from_invoke) simp
  have after: "echoes_from n (snd (invoke (SysWrite (pfd_fd p) (take (nat (ans_ret (next_answer w))) (ans_bytes (next_answer w)))) ?w1))"
    if "0 < ans_ret (next_answer w)"
    using that assms(2) by (intro echoes_from_invoke [OF read]) (simp add: justified_def Let_def next_answer_def)
  have closed: "echoes_from n (snd (invoke (SysClose (pfd_fd p)) ?w1))" if "ans_ret (next_answer w) = 0"
    using that assms(2) by (intro echoes_from_invoke [OF read]) (simp add: justified_def Let_def next_answer_def)
  show ?thesis using assms read after closed by (auto simp: echo_client_def Let_def split_beta)
qed

lemma echo_scan_echoes:
  "echoes_from n w \<Longrightarrow> n \<le> length (w_trace w) \<Longrightarrow>
     echoes_from n (snd (echo_scan ps w)) \<and> n \<le> length (w_trace (snd (echo_scan ps w)))"
proof (induction ps arbitrary: w)
  case (Cons p ps)
  then show ?case using echo_client_echoes [OF Cons.prems, of p] by (simp add: Let_def split_beta)
qed simp

lemma echo_client_slot:
  "fst (echo_client p w) = p \<or>
   fst (echo_client p w) = p\<lparr>pfd_fd := -1\<rparr> \<and> has_event (pfd_revents p) (POLLRDNORM OR POLLERR)"
  by (simp add: echo_client_def Let_def split_beta)

lemma echo_scan_slots:
  "list_all2 (\<lambda>p p'. p' = p \<or> p' = p\<lparr>pfd_fd := -1\<rparr> \<and> has_event (pfd_revents p) (POLLRDNORM OR POLLERR))
     ps (fst (echo_scan ps w))"
proof (induction ps arbitrary: w)
  case (Cons p ps)
  then show ?case using echo_client_slot [of p w] by (simp add: Let_def split_beta)
qed simp

lemma echo_accept_echoes:
  "echoes_from n w \<Longrightarrow> n \<le> length (w_trace w) \<Longrightarrow>
     echoes_from n (snd (echo_accept junk st w)) \<and> n \<le> length (w_trace (snd (echo_accept junk st w)))"
proof -
  assume w: "echoes_from n w" "n \<le> length (w_trace w)"
  have "echoes_from n (snd (invoke (SysAccept fd) w))" for fd
    using w(1) by (rule echoes_from_invoke) simp
  then show ?thesis using w by (auto simp: echo_accept_def Let_def split_beta split: list.splits)
qed

section \<open>Properties\<close>

lemma echo_round_echoes_from:
  assumes "echoes_from n w" and "n \<le> length (w_trace w)"
  shows "echoes_from n (snd (echo_round ready junk st w)) \<and> n \<le> length (w_trace (snd (echo_round ready junk st w)))"
proof -
  let ?w1 = "snd (invoke (SysPoll (length (client_fds st)) 1000) w)"
  let ?st1 = "st\<lparr>client_fds := fill_revents ready (client_fds st)\<rparr>"
  have 1: "echoes_from n ?w1" "n \<le> length (w_trace ?w1)"
    using assms by (auto intro: echoes_from_invoke)
  note 2 = echo_accept_echoes [OF 1, of junk ?st1]
  then have 3: "echoes_from n (snd (echo_scan cs (snd (echo_accept junk ?st1 ?w1)))) \<and>
      n \<le> length (w_trace (snd (echo_scan cs (snd (echo_accept junk ?st1 ?w1)))))" for cs
    using echo_scan_echoes by blast
  show ?thesis using 1 2 3
    by (auto simp: echo_round_def Let_def split_beta split: run.splits list.splits)
qed

lemma echo_rounds_echoes:
  "echoes_from n w \<Longrightarrow> n \<le> length (w_trace w) \<Longrightarrow>
     echoes_from n (snd (echo_rounds envs st w)) \<and> n \<le> length (w_trace (snd (echo_rounds envs st w)))"
proof (induction envs arbitrary: st w)
  case (Cons env envs)
  obtain ready junk where env: "env = (ready, junk)" by fastforce
  note r = echo_round_echoes_from [OF Cons.prems, of ready junk st]
  show ?case using r Cons.IH
    by (auto simp: env Let_def split_beta split: run.splits)
qed simp

text \<open>The handler collects every child that has ended, and prints 1 for each of them.\<close>

lemma sigchild_handle_prints:
  "sigchild_handle rs =
     (let k = length (takeWhile (\<lambda>r. 0 < r) rs) in (replicate k 1, drop (Suc k) rs))"
  by (induction rs) (auto simp: Let_def)

text \<open>Setting up makes no writes and closes nothing.\<close>

lemma justified_setup [simp]:
  "justified n w i SysSocket" "justified n w i (SysBind fd)" "justified n w i (SysListen fd b)"
  "justified n w i SysAccess" "justified n w i SysMkfifo" "justified n w i SysOpen" "justified n w i (SysSigaction s)"
  by (simp_all add: justified_def)

lemma start_echoes:
  assumes "echoes_from n w" and "n \<le> length (w_trace w)"
  shows "echoes_from n (snd (echo_listen ok w)) \<and> n \<le> length (w_trace (snd (echo_listen ok w)))"
    and "echoes_from n (snd (echo_start ok w)) \<and> n \<le> length (w_trace (snd (echo_start ok w)))"
proof -
  have listen: "echoes_from n (snd (echo_listen ok w)) \<and> n \<le> length (w_trace (snd (echo_listen ok w)))"
    if "echoes_from n w" "n \<le> length (w_trace w)" for w
    using that by (auto simp: echo_listen_def Let_def split_beta intro!: echoes_from_invoke)
  moreover have "echoes_from n (snd (create_fifo w)) \<and> n \<le> length (w_trace (snd (create_fifo w)))"
    using assms by (auto simp: create_fifo_def Let_def split_beta intro!: echoes_from_invoke)
  ultimately show "echoes_from n (snd (echo_start ok w)) \<and> n \<le> length (w_trace (snd (echo_start ok w)))"
    by (auto simp: echo_start_def Let_def split_beta split: run.splits)
  show "echoes_from n (snd (echo_listen ok w)) \<and> n \<le> length (w_trace (snd (echo_listen ok w)))"
    using listen assms by blast
qed

text \<open>C25: In every run of the server, from its start and for any number of rounds, every write answers
  the read made just before it, on the same connection and with exactly the bytes that read
  delivered, and a connection is closed only right after a read that found the end of its input;
  the same holds of the server built without the fifo.\<close>

theorem echo_server_echoes:
  "echoes_from (length (w_trace w)) (snd (echo_main addr_ok envs w)) \<and>
   echoes_from (length (w_trace w)) (snd (echo_fd_main addr_ok envs w))"
proof -
  let ?n = "length (w_trace w)" and ?w1 = "snd (signal_t SIGCHLD w)"
  have w1: "echoes_from ?n ?w1" "?n \<le> length (w_trace ?w1)"
    using echoes_from_start by (auto simp: signal_t_def Let_def split_beta intro!: echoes_from_invoke)
  have "snd (fd_signal_t SIGCHLD w) = ?w1" by (simp add: fd_signal_t_def signal_t_def Let_def split_beta)
  then show ?thesis using start_echoes [OF w1] echo_rounds_echoes
    by (auto simp: echo_main_def echo_fd_main_def Let_def split_beta split: run.splits)
qed

text \<open>A round keeps the listening entry and the positions of all connections: an entry stays
  as \<^verbatim>\<open>poll\<close> left it or gives up its descriptor after it was reported ready, and a new
  connection is appended, so the array never shrinks and freed entries are never reused.\<close>

theorem echo_round_table:
  assumes "echo_round ready junk st w = (Go st', w')" and "length ready = length (client_fds st)"
    and "client_fds st \<noteq> []"
  shows "length (client_fds st) \<le> length (client_fds st') \<and>
         length (client_fds st') = length (client_fds st) + (echo_count st' - echo_count st) \<and>
         pfd_fd (hd (client_fds st')) = pfd_fd (hd (client_fds st)) \<and>
         (\<forall>i < length (client_fds st). pfd_fd (client_fds st' ! i) \<in> {pfd_fd (client_fds st ! i), -1})"
proof -
  let ?w1 = "snd (invoke (SysPoll (length (client_fds st)) 1000) w)"
  let ?st1 = "st\<lparr>client_fds := fill_revents ready (client_fds st)\<rparr>"
  have fill: "length (fill_revents ready (client_fds st)) = length (client_fds st)"
    "i < length (client_fds st) \<Longrightarrow> pfd_fd (fill_revents ready (client_fds st) ! i) = pfd_fd (client_fds st ! i)" for i
    using assms(2) by (simp_all add: fill_revents_def)
  then have hd: "pfd_fd (hd (fill_revents ready (client_fds st))) = pfd_fd (hd (client_fds st))"
    using assms(3) by (metis hd_conv_nth length_0_conv length_greater_0_conv)
  consider "st' = ?st1" | st2 l cs w2 w3 where "echo_accept junk ?st1 ?w1 = (Go st2, w2)" "client_fds st2 = l # cs"
      "st' = st2\<lparr>client_fds := l # fst (echo_scan cs w3)\<rparr>" | "client_fds st' = []"
    "echo_accept junk ?st1 ?w1 = (Go st', w')"
    using assms(1) by (auto simp: echo_round_def Let_def split_beta split: if_splits run.splits list.splits)
      (metis prod.collapse)+
  then show ?thesis
  proof cases
    case 1
    then show ?thesis using fill hd by auto
  next
    case 3
    then show ?thesis using fill assms(3)
      by (auto simp: echo_accept_def Let_def split_beta split: list.splits if_splits)
  next
    case 2
    have acc: "\<exists>new. client_fds st2 = fill_revents ready (client_fds st) @ new \<and>
        length new = echo_count st2 - echo_count st"
      using 2(1) by (auto simp: echo_accept_def Let_def split_beta split: list.splits if_splits)
    then obtain new where new: "l # cs = fill_revents ready (client_fds st) @ new"
      "length new = echo_count st2 - echo_count st" using 2(2) by auto
    let ?cs' = "fst (echo_scan cs w3)"
    have slots: "list_all2 (\<lambda>p p'. p' = p \<or> p' = p\<lparr>pfd_fd := -1\<rparr>) (l # cs) (l # ?cs')"
      using echo_scan_slots [of cs w3] by (auto elim!: list_all2_mono)
    then have len: "length ?cs' = length cs" by (simp add: list_all2_lengthD)
    have at: "pfd_fd ((l # ?cs') ! i) \<in> {pfd_fd ((l # cs) ! i), -1}" if "i < length (l # cs)" for i
      using list_all2_nthD [OF slots that] by auto
    have old: "pfd_fd ((l # cs) ! i) = pfd_fd (client_fds st ! i)" if "i < length (client_fds st)" for i
      using that fill by (simp add: new(1) nth_append)
    have total: "length (l # cs) = length (client_fds st) + length new" using new(1) fill(1) by simp
    then have kept: "pfd_fd ((l # ?cs') ! i) \<in> {pfd_fd (client_fds st ! i), -1}"
      if "i < length (client_fds st)" for i using at [of i] old [OF that] that by simp
    have "pfd_fd l = pfd_fd (hd (client_fds st))"
      using old [of 0] assms(3) by (simp add: hd_conv_nth)
    then show ?thesis using 2(3) kept len new(2) total by (simp del: nth_Cons_Suc)
  qed
qed

section \<open>Concrete runs\<close>

definition echo_example :: echo_state where
  "echo_example =
     \<lparr>client_fds = [\<lparr>pfd_fd = 3, pfd_events = POLLRDNORM, pfd_revents = 0\<rparr>,
                    \<lparr>pfd_fd = 4, pfd_events = POLLRDNORM, pfd_revents = 0\<rparr>], echo_count = 1\<rparr>"

lemma echo_round_table_witness:
  "pfd_fd (hd (client_fds (echo_example\<lparr>client_fds := fill_revents [0, 0] (client_fds echo_example)\<rparr>))) = 3"
proof -
  have "echo_round [0, 0] 0 echo_example (script []) =
      (Go (echo_example\<lparr>client_fds := fill_revents [0, 0] (client_fds echo_example)\<rparr>),
       snd (invoke (SysPoll 2 1000) (script [])))"
    by (simp add: echo_round_def echo_example_def Let_def split_beta next_answer_def script_def returns_def)
  from echo_round_table [OF this] show ?thesis by (simp add: echo_example_def)
qed

end
