(* ===== verification/Oblivious.thy ===== *)
theory Oblivious
  imports Syscalls
begin

text \<open>
  Programs that cannot tell how many system calls were made before them.  Two worlds have the same
  future when the kernel will give the same answers in both; a program is \<open>oblivious\<close> when in two
  such worlds it computes the same result, makes the same calls and leaves the same future.
\<close>

named_theorems oblivious_intros

definition same_future :: "world \<Rightarrow> world \<Rightarrow> bool" where
  "same_future w v \<longleftrightarrow> (\<forall>k. nth_answer w k = nth_answer v k)"

definition oblivious :: "(world \<Rightarrow> 'a \<times> world) \<Rightarrow> bool" where
  "oblivious f \<longleftrightarrow> (\<forall>w v. same_future w v \<longrightarrow>
     fst (f w) = fst (f v) \<and> same_future (snd (f w)) (snd (f v)) \<and>
     (\<exists>cs. w_trace (snd (f w)) = w_trace w @ cs \<and> w_trace (snd (f v)) = w_trace v @ cs))"

lemma same_future_refl [simp]: "same_future w w"
  by (simp add: same_future_def)

lemma same_future_invoke:
  assumes "same_future w v"
  shows "next_answer w = next_answer v" and "same_future (snd (invoke c w)) (snd (invoke c v))"
  using assms by (simp_all add: same_future_def nth_answer_simps)

lemma oblivious_invoke [oblivious_intros]: "oblivious (invoke c)"
  unfolding oblivious_def using same_future_invoke by (auto simp: prod_eq_iff)

lemma oblivious_return [oblivious_intros]: "oblivious (\<lambda>w. (x, w))"
  by (simp add: oblivious_def)

lemma oblivious_result [oblivious_intros]: "oblivious f \<Longrightarrow> oblivious (\<lambda>w. (x, snd (f w)))"
  by (fastforce simp: oblivious_def)

lemma oblivious_bind [oblivious_intros]:
  assumes "oblivious f" and "\<And>x. oblivious (g x)"
  shows "oblivious (\<lambda>w. case f w of (x, w1) \<Rightarrow> g x w1)"
  unfolding oblivious_def
proof (intro allI impI)
  fix w v
  assume "same_future w v"
  with assms(1) obtain cs where f: "fst (f w) = fst (f v)" "same_future (snd (f w)) (snd (f v))"
      "w_trace (snd (f w)) = w_trace w @ cs" "w_trace (snd (f v)) = w_trace v @ cs"
    by (auto simp: oblivious_def)
  with assms(2) [of "fst (f v)"] obtain ds where
    "fst (g (fst (f v)) (snd (f w))) = fst (g (fst (f v)) (snd (f v)))"
    "same_future (snd (g (fst (f v)) (snd (f w)))) (snd (g (fst (f v)) (snd (f v))))"
    "w_trace (snd (g (fst (f v)) (snd (f w)))) = w_trace (snd (f w)) @ ds"
    "w_trace (snd (g (fst (f v)) (snd (f v)))) = w_trace (snd (f v)) @ ds"
    unfolding oblivious_def by meson
  then show "fst (case f w of (x, w1) \<Rightarrow> g x w1) = fst (case f v of (x, w1) \<Rightarrow> g x w1) \<and>
      same_future (snd (case f w of (x, w1) \<Rightarrow> g x w1)) (snd (case f v of (x, w1) \<Rightarrow> g x w1)) \<and>
      (\<exists>es. w_trace (snd (case f w of (x, w1) \<Rightarrow> g x w1)) = w_trace w @ es \<and>
            w_trace (snd (case f v of (x, w1) \<Rightarrow> g x w1)) = w_trace v @ es)"
    using f by (simp add: split_beta)
qed

lemma oblivious_if [oblivious_intros]:
  "(b \<Longrightarrow> oblivious f) \<Longrightarrow> (\<not> b \<Longrightarrow> oblivious g) \<Longrightarrow> oblivious (\<lambda>w. if b then f w else g w)"
  by (cases b) simp_all

lemma oblivious_run [oblivious_intros]:
  "(\<And>x. r = Go x \<Longrightarrow> oblivious (f x)) \<Longrightarrow> (\<And>c. r = Exit c \<Longrightarrow> oblivious (g c)) \<Longrightarrow>
     oblivious (\<lambda>w. case r of Go x \<Rightarrow> f x w | Exit c \<Rightarrow> g c w)"
  by (cases r) simp_all

lemma oblivious_list [oblivious_intros]:
  "(xs = [] \<Longrightarrow> oblivious f) \<Longrightarrow> (\<And>y ys. xs = y # ys \<Longrightarrow> oblivious (g y ys)) \<Longrightarrow>
     oblivious (\<lambda>w. case xs of [] \<Rightarrow> f w | y # ys \<Rightarrow> g y ys w)"
  by (cases xs) simp_all

text \<open>What an oblivious program does, written with the calls it makes.\<close>

lemma obliviousD:
  assumes "oblivious f" and "same_future w v"
  shows "fst (f w) = fst (f v)" and "calls_since w (snd (f w)) = calls_since v (snd (f v))"
    and "same_future (snd (f w)) (snd (f v))"
  using assms by (fastforce simp: oblivious_def calls_since_def)+

lemma oblivious_trace: "oblivious f \<Longrightarrow> w_trace (snd (f w)) = w_trace w @ calls_since w (snd (f w))"
  unfolding oblivious_def calls_since_def by (metis append_eq_conv_conj same_future_refl)

end
