(* ===== verification/Echo_Builds.thy ===== *)
theory Echo_Builds
  imports Echo_Server Oblivious
begin

text \<open>
  The echo server is in the repository twice, in \<^verbatim>\<open>src/set/echo\<close> and \<^verbatim>\<open>src/set/echo_fd\<close>, with the
  same \<^verbatim>\<open>echo.server.cpp\<close> and different \<^verbatim>\<open>echo.common.h\<close>: the first is built with
  \<^verbatim>\<open>WAIT_WAKEUP\<close>, opens a fifo before it listens, and prints the addresses of the server's name.
  This theory puts the two side by side.
\<close>

section \<open>The two look-ups of the address\<close>

text \<open>What the loop over \<^verbatim>\<open>h_addr_list\<close> of \<^verbatim>\<open>set/echo\<close> prints: each address with its number.\<close>

fun address_lines :: "nat \<Rightarrow> u8 list list \<Rightarrow> cxx_error + (nat \<times> u8 list) list" where
  "address_lines i [] = Inr []"
| "address_lines i (a # as) =
     and_then (read_n a 0 4) (\<lambda>b. and_then (address_lines (i + 1) as) (\<lambda>ls. Inr ((i + 1, b) # ls)))"

definition echo_addr_printing ::
  "(string \<Rightarrow> string \<Rightarrow> int option) \<Rightarrow> (string \<Rightarrow> hostent option) \<Rightarrow> sockaddr_in \<Rightarrow>
   cxx_error + (nat \<times> u8 list) list \<times> bool \<times> sockaddr_in" where
  "echo_addr_printing servbyname hostbyname addr =
     (let printed = (case (servbyname ''echo'' ''tcp'', hostbyname ''echo.server'') of
          (Some port, Some host) \<Rightarrow>
            if h_addrtype host = AF_INET \<and> h_length host = 4 then address_lines 0 (h_addr_list host) else Inr []
        | _ \<Rightarrow> Inr [])
      in and_then printed (\<lambda>ls. and_then (echo_addr servbyname hostbyname addr) (\<lambda>(ok, addr). Inr (ls, ok, addr))))"

text \<open>In \<^verbatim>\<open>set/echo_fd\<close> the body of the loop is commented out.\<close>

definition fd_echo_addr ::
  "(string \<Rightarrow> string \<Rightarrow> int option) \<Rightarrow> (string \<Rightarrow> hostent option) \<Rightarrow> sockaddr_in \<Rightarrow> cxx_error + bool \<times> sockaddr_in" where
  "fd_echo_addr servbyname hostbyname addr =
     (case servbyname ''echo'' ''tcp'' of
        None \<Rightarrow> Inr (False, addr)
      | Some port \<Rightarrow>
          (let addr = addr\<lparr>sin_family := of_int AF_INET, sin_port := of_int port\<rparr> in
           case hostbyname ''echo.server'' of
             None \<Rightarrow> Inr (False, addr)
           | Some host \<Rightarrow>
               if h_addrtype host = AF_INET \<and> h_length host = 4
               then (case h_addr_list host of
                       [] \<Rightarrow> Inr (False, addr)
                     | a # _ \<Rightarrow> and_then (read_n a 0 4) (\<lambda>a4. Inr (True, addr\<lparr>sin_addr := a4\<rparr>)))
               else Inr (True, addr)))"

text \<open>The copy of \<^verbatim>\<open>create_fifo\<close> in \<^verbatim>\<open>set/echo_fd\<close>, which is compiled and not called.\<close>

definition fd_create_fifo :: "world \<Rightarrow> int run \<times> world" where
  "fd_create_fifo w =
     (let (a, w1) = invoke SysAccess w;
          (failed, w2) = (if ans_ret a \<noteq> 0 then let (b, w2) = invoke SysMkfifo w1 in (ans_ret b \<noteq> 0, w2)
                          else (False, w1))
      in if failed then (Exit (-1), w2)
         else let (c, w3) = invoke SysOpen w2
              in if ans_ret c = -1 then (Exit (-1), w3) else (Go (ans_ret c), w3))"

section \<open>Lemmas\<close>



lemma fd_copies:
  "fd_signal_t = signal_t" "fd_sigchild_handle = sigchild_handle" "fd_create_fifo = create_fifo"
  "fd_echo_addr = echo_addr"
proof -
  show "fd_signal_t = signal_t" by (intro ext) (simp add: fd_signal_t_def signal_t_def signal_flags_def Let_def)
  show "fd_sigchild_handle = sigchild_handle"
  proof
    show "fd_sigchild_handle rs = sigchild_handle rs" for rs by (induction rs) simp_all
  qed
  show "fd_create_fifo = create_fifo" by (intro ext) (simp add: fd_create_fifo_def create_fifo_def Let_def split_beta)
  show "fd_echo_addr = echo_addr"
    by (intro ext) (simp add: fd_echo_addr_def echo_addr_def constructor_echo_addr_def)
qed

lemma address_lines_all:
  "\<forall>a \<in> set as. length a = 4 \<Longrightarrow> address_lines i as = Inr (enumerate (Suc i) as)"
  by (induction as arbitrary: i) (simp_all add: read_n_def)











text \<open>Both look up the same address; \<^verbatim>\<open>set/echo\<close> prints every address of the server's name with its number.\<close>

lemma lookups_agree:
  assumes "\<forall>host. hostbyname ''echo.server'' = Some host \<longrightarrow> (\<forall>a \<in> set (h_addr_list host). length a = 4)"
  shows "\<exists>ls. echo_addr_printing servbyname hostbyname addr =
     and_then (fd_echo_addr servbyname hostbyname addr) (\<lambda>(found, addr). Inr (ls, found, addr)) \<and>
     (ls = [] \<or> (\<exists>host. hostbyname ''echo.server'' = Some host \<and> ls = enumerate 1 (h_addr_list host)))"
  using assms by (auto simp: echo_addr_printing_def fd_copies address_lines_all split: option.splits)

section \<open>Properties\<close>


end
