(* ===== verification/Echo_Client.thy ===== *)
theory Echo_Client
  imports Sockops
begin

text \<open>
  \<^verbatim>\<open>set/echo/echo.client.cpp\<close>: the console client of the echo server.  One round of its loop
  waits with \<^verbatim>\<open>select\<close> for a line on standard input and for data on the socket.  What
  \<^verbatim>\<open>select\<close> leaves in the set and what \<^verbatim>\<open>fgets\<close> returns are the fields of \<open>client_env\<close>
  (\<open>None\<close> is the end of the input); the descriptors in the set other than these two play no role.
\<close>

record client_env =
  ce_stdin_ready :: bool
  ce_sock_ready :: bool
  ce_line :: "u8 list option"

record client_state =
  cs_sock :: int
  cs_stand_id_flag :: bool
  cs_stdin_in_set :: bool
  cs_out :: "u8 list"

datatype client_flow = Continue client_state | Reconnect | Leave int

text \<open>From the label \<^verbatim>\<open>reconnect\<close> to the loop; \<open>addr_ok\<close> is the result of the address
  look-up.\<close>

definition client_connect :: "bool \<Rightarrow> world \<Rightarrow> client_state run \<times> world" where
  "client_connect addr_ok w =
     (let (s, w1) = invoke SysSocket w; sock_fd = ans_ret s in
      if sock_fd < 0 then (Exit (-1), w1)
      else let (d, w2) = invoke SysOpen w1;
               (_, w3) = invoke (SysDup (ans_ret d)) w2;
               (_, w4) = invoke (SysSetsockopt sock_fd SOL_SOCKET SO_REUSEADDR) w3;
               (_, w5) = invoke (SysSetsockopt sock_fd SOL_SOCKET SO_REUSEPORT) w4;
               (b, w6) = invoke (SysBind sock_fd) w5
           in if ans_ret b \<noteq> 0 then (Exit (-1), w6)
              else if \<not> addr_ok then (Exit (-1), w6)
              else let (c, w7) = invoke (SysConnect sock_fd) w6 in
                if ans_ret c \<noteq> 0 then (Exit (-1), w7)
                else (Go \<lparr>cs_sock = sock_fd, cs_stand_id_flag = False, cs_stdin_in_set = False, cs_out = []\<rparr>, w7))"

definition client_start :: "bool \<Rightarrow> world \<Rightarrow> client_state run \<times> world" where
  "client_start addr_ok w =
     (let (_, w1) = invoke SysAccess w; (p, w2) = invoke SysOpen w1 in
      if ans_ret p < 0 then (Exit (-1), w2) else client_connect addr_ok w2)"

text \<open>\<^verbatim>\<open>fputs\<close> and \<^verbatim>\<open>strlen\<close> stop at the first zero byte of the buffer.\<close>

definition upto_nul :: "u8 list \<Rightarrow> u8 list" where
  "upto_nul bs = takeWhile (\<lambda>c. c \<noteq> 0) bs"

definition client_receive :: "client_env \<Rightarrow> client_state \<Rightarrow> world \<Rightarrow> client_flow \<times> world" where
  "client_receive env st w =
     (if ce_sock_ready env
      then let (a, w1) = invoke (SysRead (cs_sock st)) w; e = ans_ret a in
        if e = 0 then (Leave 0, snd (invoke (SysClose (cs_sock st)) w1))
        else if e < 0 then (Leave (-1), w1)
        else (Continue (st\<lparr>cs_out := cs_out st @ upto_nul (take (nat e) (ans_bytes a))\<rparr>), w1)
      else (Continue st, w))"

definition client_round :: "client_env \<Rightarrow> client_state \<Rightarrow> world \<Rightarrow> client_flow \<times> world" where
  "client_round env st w =
     (let asked = (\<not> cs_stand_id_flag st \<or> cs_stdin_in_set st);
          (_, w1) = invoke (SysSelect 10 0) w;
          got = (asked \<and> ce_stdin_ready env);
          st1 = st\<lparr>cs_stdin_in_set := got\<rparr>
      in if got
         then case ce_line env of
             None \<Rightarrow> (Continue (st1\<lparr>cs_stand_id_flag := True, cs_stdin_in_set := False\<rparr>),
                      snd (invoke (SysShutdown (cs_sock st) 1) w1))
           | Some line \<Rightarrow>
               if take 1 line = [113] then (Reconnect, snd (invoke (SysClose (cs_sock st)) w1))
               else client_receive env st1 (snd (invoke (SysWrite (cs_sock st) (upto_nul line)) w1))
         else client_receive env st1 w1)"

fun client_rounds :: "client_env list \<Rightarrow> client_state \<Rightarrow> world \<Rightarrow> client_flow \<times> world" where
  "client_rounds [] st w = (Continue st, w)"
| "client_rounds (e # es) st w =
     (case client_round e st w of
        (Continue st1, w1) \<Rightarrow> client_rounds es st1 w1
      | (r, w1) \<Rightarrow> (r, w1))"

definition written :: "syscall list \<Rightarrow> u8 list" where
  "written tr = concat (map (\<lambda>c. case c of SysWrite fd bs \<Rightarrow> bs | _ \<Rightarrow> []) tr)"

lemma written_append [simp]: "written (xs @ ys) = written xs @ written ys"
  by (simp add: written_def)

lemma written_select [simp]: "written (SysSelect n t # tr) = written tr"
  by (simp add: written_def)

lemma client_receive_silent:
  assumes "client_receive env st w = (r, w')"
  shows "extends_world w w' \<and> written (calls_since w w') = [] \<and>
         (\<forall>st'. r = Continue st' \<longrightarrow> cs_stand_id_flag st' = cs_stand_id_flag st \<and>
            cs_stdin_in_set st' = cs_stdin_in_set st)"
  using assms
  by (auto simp: client_receive_def Let_def split_beta written_def split: if_splits)

text \<open>After the end of the input the client has half closed the connection: however the rounds
  go on, it never writes again, and it goes on printing what the server still sends.\<close>

theorem no_write_after_end_of_input:
  assumes "cs_stand_id_flag st" and "\<not> cs_stdin_in_set st"
  shows "extends_world w (snd (client_rounds es st w)) \<and>
         written (calls_since w (snd (client_rounds es st w))) = []"
  using assms
proof (induction es arbitrary: st w)
  case (Cons e es)
  let ?w1 = "snd (invoke (SysSelect 10 0) w)"
  have eq: "client_round e st w = client_receive e (st\<lparr>cs_stdin_in_set := False\<rparr>) ?w1"
    using Cons.prems by (simp add: client_round_def Let_def split_beta)
  obtain r w2 where r: "client_receive e (st\<lparr>cs_stdin_in_set := False\<rparr>) ?w1 = (r, w2)" by fastforce
  note quiet = client_receive_silent [OF r]
  have 1: "extends_world w ?w1" "written (calls_since w ?w1) = []" by (simp_all add: written_def)
  have 2: "extends_world w w2" "written (calls_since w w2) = []"
    using extends_world_trans [OF 1(1)] calls_since_trans [OF 1(1)] quiet 1(2) by auto
  show ?case
  proof (cases r)
    case (Continue st1)
    let ?w3 = "snd (client_rounds es st1 w2)"
    have 3: "extends_world w2 ?w3" "written (calls_since w2 ?w3) = []"
      using Cons.IH [of st1 w2] quiet Cons.prems(1) Continue by simp_all
    have "snd (client_rounds (e # es) st w) = ?w3" using eq r Continue by simp
    then show ?thesis
      using extends_world_trans [OF 2(1) 3(1)] calls_since_trans [OF 2(1) 3(1)] 2(2) 3(2) by simp
  qed (use 2 eq r in simp_all)
qed (simp add: written_def)

end
