(* ===== verification/Echo_Session.thy ===== *)
theory Echo_Session
  imports Echo_Server Echo_Client C_String
begin


section \<open>The server's side\<close>







section \<open>The client's side\<close>








section \<open>Both\<close>



end
