(* ===== verification/Async_Connect.thy ===== *)
theory Async_Connect
  imports Syscalls
begin

text \<open>
  \<^verbatim>\<open>set/poll/main.cpp\<close>: the asynchronous connect with plain return codes.  Every function
  returns the integer the code returns, with the world after its calls.
\<close>

unbundle bit_operations_syntax

definition async_continue :: "world \<Rightarrow> bool" where
  "async_continue w \<longleftrightarrow> w_errno w = EAGAIN \<or> w_errno w = EINTR \<or> w_errno w = EINPROGRESS"

definition fcntl_enable :: "int \<Rightarrow> int \<Rightarrow> world \<Rightarrow> int \<times> world" where
  "fcntl_enable sockfd feature w =
     (let (a, w1) = invoke (SysFcntlGetfl sockfd) w; flags = ans_ret a in
      if flags < 0 then (flags, w1)
      else let (b, w2) = invoke (SysFcntlSetfl sockfd (flags OR feature)) w1; ret = ans_ret b in
        if ret < 0 then (ret, w2) else (0, w2))"

definition async_socket :: "world \<Rightarrow> int \<times> world" where
  "async_socket w =
     (let (a, w1) = invoke SysSocket w; sockfd = ans_ret a in
      if sockfd < 0 then (sockfd, w1)
      else let (ret, w2) = fcntl_enable sockfd O_NONBLOCK w1 in
        if ret < 0 then (ret, snd (invoke (SysClose sockfd) w2)) else (sockfd, w2))"

definition async_connect :: "int \<Rightarrow> world \<Rightarrow> int \<times> world" where
  "async_connect sockfd w =
     (let (a, w1) = invoke (SysConnect sockfd) w; ret = ans_ret a in
      if ret < 0 \<and> \<not> async_continue w1 then (ret, w1) else (0, w1))"

definition async_net :: "world \<Rightarrow> int \<times> world" where
  "async_net w =
     (let (sockfd, w1) = async_socket w in
      if sockfd < 0 then (sockfd, w1)
      else let (ret, w2) = async_connect sockfd w1 in
        if ret < 0 then (ret, snd (invoke (SysClose sockfd) w2)) else (sockfd, w2))"

text \<open>The outcome of \<^verbatim>\<open>connection_refused\<close>: what it prints, and its result.\<close>

definition connection_refused :: "u16 \<Rightarrow> world \<Rightarrow> (int \<times> bool \<times> bool \<times> bool \<times> int) \<times> int \<times> world" where
  "connection_refused revents w =
     (let (sockfd, w1) = async_net w;
          (p, w2) = invoke (SysPoll 1 (- 1)) w1;
          (g, w3) = invoke (SysGetsockopt sockfd) w2
      in ((ans_ret p, has_event revents POLLIN, has_event revents POLLOUT, has_event revents POLLERR, ans_out g), 0, w3))"

section \<open>Lemmas\<close>

lemmas async_defs = async_net_def async_socket_def async_connect_def fcntl_enable_def async_continue_def

text \<open>\<^verbatim>\<open>async_net\<close> either returns a descriptor it has just made, which then has been
  switched to non-blocking mode, told to connect and not been closed, or it returns a negative
  number and has closed the descriptor it made, if it made one.\<close>

theorem async_net_keeps_or_closes:
  assumes "async_net w = (r, w')"
  shows "if r < 0
         then ans_ret (next_answer w) < 0 \<and> calls_since w w' = [SysSocket] \<or>
              (\<exists>tr. calls_since w w' = SysSocket # tr @ [SysClose (ans_ret (next_answer w))])
         else r = ans_ret (next_answer w) \<and>
              calls_since w w' =
                [SysSocket, SysFcntlGetfl r,
                 SysFcntlSetfl r (ans_ret (w_answers w (length (w_trace w) + 1)) OR O_NONBLOCK), SysConnect r]"
  using assms by (auto simp: async_defs Let_def split_beta split: if_splits)

lemma async_net_keeps_or_closes_witness:
  "calls_since (script [returns 5, fails 9, returns 0]) (snd (async_net (script [returns 5, fails 9, returns 0]))) =
     [SysSocket, SysFcntlGetfl 5, SysClose 5]"
proof -
  let ?w = "script [returns 5, fails 9, returns 0]"
  have "fst (async_net ?w) = -1"
    by (simp add: async_defs Let_def split_beta next_answer_def script_def returns_def fails_def)
  then have "async_net ?w = (-1, snd (async_net ?w))" by (metis prod.collapse)
  from async_net_keeps_or_closes [OF this] show ?thesis
    by (simp add: async_defs Let_def split_beta next_answer_def script_def returns_def fails_def)
qed

end
