(* ===== verification/Unix_Socket.thy ===== *)
theory Unix_Socket
  imports Syscalls
begin

text \<open>
  \<^verbatim>\<open>set/unixsocket/main.cpp\<close>: one process accepts connections and hands each descriptor over
  a socket pair to another, which serves it.  The loops of \<^verbatim>\<open>parent_process\<close> and
  \<^verbatim>\<open>child_process\<close> are given by their rounds; \<open>ready\<close> is what \<^verbatim>\<open>poll\<close> reports.
  \<^verbatim>\<open>send_fd\<close> and \<^verbatim>\<open>recv_fd\<close> exit the process when the message is not sent or received
  completely; the descriptor received is the integer result of the answer, -1 also standing for a
  message without control data.
\<close>

unbundle bit_operations_syntax

section \<open>Passing descriptors\<close>

definition send_fd :: "int \<Rightarrow> int \<Rightarrow> world \<Rightarrow> unit run \<times> world" where
  "send_fd sock_fd fd w =
     (let (a, w1) = invoke (SysSendFd sock_fd fd) w
      in if ans_ret a \<noteq> 1 then (Exit 0, w1) else (Go (), w1))"

definition recv_fd :: "int \<Rightarrow> world \<Rightarrow> int run \<times> world" where
  "recv_fd sock_fd w =
     (let (a, w1) = invoke (SysRecvmsg sock_fd) w
      in if ans_ret a \<noteq> 1 then (Exit 0, w1)
         else if ans_out a = -1 then (Exit 0, w1) else (Go (ans_out a), w1))"

section \<open>The accepting process\<close>

record acceptor =
  acc_pollfds :: "pollfd list"
  async_fd :: int

definition acceptor_new :: "int \<Rightarrow> int \<Rightarrow> acceptor" where
  "acceptor_new sock_fd fd =
     \<lparr>acc_pollfds = [\<lparr>pfd_fd = sock_fd, pfd_events = POLLIN, pfd_revents = 0\<rparr>,
                     \<lparr>pfd_fd = fd, pfd_events = POLLIN, pfd_revents = 0\<rparr>], async_fd = -1\<rparr>"

text \<open>Lines 14-35: errors of \<^verbatim>\<open>socket\<close> and \<^verbatim>\<open>bind\<close> are only printed, so the calls that follow are made
  with whatever the first returned.\<close>

definition parent_start :: "int \<Rightarrow> world \<Rightarrow> acceptor \<times> world" where
  "parent_start fd w =
     (let (s, w1) = invoke SysSocket w; sock_fd = ans_ret s;
          (_, w2) = invoke (SysBind sock_fd) w1;
          (_, w3) = invoke (SysListen sock_fd 30) w2
      in (acceptor_new sock_fd fd, w3))"

definition accept_turn :: "acceptor \<Rightarrow> world \<Rightarrow> acceptor \<times> world" where
  "accept_turn st w =
     (if has_event (pfd_revents (acc_pollfds st ! 0)) POLLIN
      then let (a, w1) = invoke (SysAccept (pfd_fd (acc_pollfds st ! 0))) w
           in (st\<lparr>async_fd := ans_ret a,
                  acc_pollfds := (acc_pollfds st)[1 := (acc_pollfds st ! 1)\<lparr>pfd_events := POLLOUT OR POLLIN\<rparr>]\<rparr>, w1)
      else (st, w))"

definition hand_over_turn :: "acceptor \<Rightarrow> world \<Rightarrow> acceptor run \<times> world" where
  "hand_over_turn st w =
     (if has_event (pfd_revents (acc_pollfds st ! 1)) POLLOUT
      then if async_fd st \<noteq> -1
           then let (r, w1) = send_fd (pfd_fd (acc_pollfds st ! 1)) (async_fd st) w in
             case r of
               Exit c \<Rightarrow> (Exit c, w1)
             | Go _ \<Rightarrow> (Go (st\<lparr>async_fd := -1,
                              acc_pollfds := (acc_pollfds st)[1 := (acc_pollfds st ! 1)\<lparr>pfd_events := POLLIN\<rparr>]\<rparr>), w1)
           else (Go (st\<lparr>async_fd := -1\<rparr>), w)
      else (Go st, w))"

definition acceptor_round :: "u16 list \<Rightarrow> acceptor \<Rightarrow> world \<Rightarrow> acceptor run \<times> world" where
  "acceptor_round ready st w =
     (let (a, w1) = invoke (SysPoll (length (acc_pollfds st)) (- 1)) w in
      if ans_ret a < 0 then (Go st, w1)
      else let (st1, w2) = accept_turn (st\<lparr>acc_pollfds := fill_revents ready (acc_pollfds st)\<rparr>) w1
           in hand_over_turn st1 w2)"

section \<open>The serving process\<close>

text \<open>One entry of the scan: the entry, whether it counted against \<^verbatim>\<open>answer_num\<close>, and the world.
  \<open>response\<close> is the constant page.\<close>

definition serve_input :: "pollfd \<Rightarrow> world \<Rightarrow> pollfd \<times> bool \<times> world" where
  "serve_input p w =
     (let (a, w1) = invoke (SysRead (pfd_fd p)) w; n = ans_ret a in
      if n < 0 \<and> w_errno w1 \<noteq> EINTR \<or> n = 0
      then (p\<lparr>pfd_fd := -1, pfd_revents := 0\<rparr>, True, snd (invoke (SysClose (pfd_fd p)) w1))
      else (p\<lparr>pfd_events := POLLOUT\<rparr>, False, w1))"

definition serve_entry :: "u8 list \<Rightarrow> pollfd \<Rightarrow> world \<Rightarrow> pollfd \<times> bool \<times> world" where
  "serve_entry response p w =
     (if pfd_fd p \<noteq> -1 \<and> has_event (pfd_revents p) (POLLIN OR POLLOUT)
      then let (p1, gone, w1) = (if has_event (pfd_revents p) POLLIN then serve_input p w else (p, False, w)) in
        if gone then (p1, False, w1)
        else if has_event (pfd_revents p1) POLLOUT
          then let (_, w2) = invoke (SysWrite (pfd_fd p1) response) w1;
                   (_, w3) = invoke (SysClose (pfd_fd p1)) w2
               in (p1\<lparr>pfd_fd := -1\<rparr>, True, w3)
          else (p1, True, w1)
      else (p, False, w))"

fun serve_scan :: "u8 list \<Rightarrow> int \<Rightarrow> pollfd list \<Rightarrow> world \<Rightarrow> pollfd list \<times> world" where
  "serve_scan response num [] w = ([], w)"
| "serve_scan response num (p # ps) w =
     (if num = 0 then (p # ps, w)
      else let (p1, counted, w1) = serve_entry response p w;
               (ps1, w2) = serve_scan response (if counted then num - 1 else num) ps w1
           in (p1 # ps1, w2))"

definition serve_round :: "u8 list \<Rightarrow> u16 list \<Rightarrow> pollfd list \<Rightarrow> world \<Rightarrow> pollfd list run \<times> world" where
  "serve_round response ready fds w =
     (let (a, w1) = invoke (SysPoll (length fds) (- 1)) w; num = ans_ret a;
          fds1 = (if num < 0 then fds else fill_revents ready fds) in
      case fds1 of
        [] \<Rightarrow> (Go [], w1)
      | c # cs \<Rightarrow>
          if has_event (pfd_revents c) POLLIN
          then let (r, w2) = recv_fd (pfd_fd c) w1 in
            case r of
              Exit e \<Rightarrow> (Exit e, w2)
            | Go fd \<Rightarrow> let (cs1, w3) = serve_scan response (num - 1)
                                      (cs @ [\<lparr>pfd_fd = fd, pfd_events = POLLIN, pfd_revents = 0\<rparr>]) w2
                      in (Go (c # cs1), w3)
          else let (cs1, w3) = serve_scan response num cs w1 in (Go (c # cs1), w3))"

section \<open>The two processes\<close>

text \<open>\<^verbatim>\<open>child_process\<close> starts with the pair's end alone.  \<open>unix_main\<close> is \<^verbatim>\<open>main\<close> up to the loops: \<open>fd0\<close> and
  \<open>fd1\<close> are what \<^verbatim>\<open>socketpair\<close> wrote, and the answer of \<^verbatim>\<open>fork\<close> says which process goes on; a failed
  \<^verbatim>\<open>fork\<close> is not told from the serving side.\<close>

definition child_start :: "int \<Rightarrow> pollfd list" where
  "child_start fd = [\<lparr>pfd_fd = fd, pfd_events = POLLIN, pfd_revents = 0\<rparr>]"

datatype unix_side = Accepting acceptor | Serving "pollfd list"

definition unix_main :: "int \<Rightarrow> int \<Rightarrow> world \<Rightarrow> unix_side \<times> world" where
  "unix_main fd0 fd1 w =
     (let (_, w1) = invoke (SysOther ''socketpair'' []) w;
          (pid, w2) = invoke SysFork w1 in
      if ans_ret pid = 0
      then let (_, w3) = invoke (SysClose fd1) w2; (st, w4) = parent_start fd0 w3 in (Accepting st, w4)
      else let (_, w3) = invoke (SysClose fd0) w2 in (Serving (child_start fd1), w3))"

section \<open>Lemmas\<close>

text \<open>Each process keeps one end of the pair, polls it and closes the other.\<close>

lemma unix_main_ends:
  "(case fst (unix_main fd0 fd1 w) of
      Accepting st \<Rightarrow> ans_ret (nth_answer w 1) = 0 \<and> map pfd_fd (acc_pollfds st) = [ans_ret (nth_answer w 3), fd0] \<and>
        async_fd st = -1
    | Serving fds \<Rightarrow> ans_ret (nth_answer w 1) \<noteq> 0 \<and> map pfd_fd fds = [fd1]) \<and>
   (\<forall>fd. SysClose fd \<in> set (calls_since w (snd (unix_main fd0 fd1 w))) \<longleftrightarrow>
      fd = (case fst (unix_main fd0 fd1 w) of Accepting _ \<Rightarrow> fd1 | Serving _ \<Rightarrow> fd0))"
  by (auto simp: unix_main_def parent_start_def acceptor_new_def child_start_def Let_def split_beta
      nth_answer_simps eval_nat_numeral)

lemma flag_facts [simp]:
  "has_event (POLLOUT OR POLLIN) POLLOUT" "\<not> has_event POLLIN POLLOUT"
  "\<not> has_event 0 e"
  by (simp_all add: has_event_def poll_flags)

lemma has_either: "has_event r (a OR b) \<longleftrightarrow> has_event r a \<or> has_event r b"
  by (auto simp: has_event_def bit.conj_disj_distrib or_eq_0_iff)

text \<open>What one entry of the scan does to a descriptor: nothing, read it, or finish with it; the
  descriptor of an entry is closed exactly when the entry gives it up.\<close>

lemma serve_entry_closes:
  "extends_world w (snd (snd (serve_entry response p w))) \<and>
   (SysClose fd \<in> set (calls_since w (snd (snd (serve_entry response p w)))) \<longleftrightarrow>
      fd = pfd_fd p \<and> pfd_fd p \<noteq> -1 \<and> pfd_fd (fst (serve_entry response p w)) = -1) \<and>
   (pfd_fd (fst (serve_entry response p w)) \<in> {pfd_fd p, -1})"
  by (auto simp: serve_entry_def serve_input_def Let_def split_beta split: if_splits)

lemma serve_scan_closes:
  "extends_world w (snd (serve_scan response num ps w)) \<and>
   length (fst (serve_scan response num ps w)) = length ps \<and>
   (SysClose fd \<in> set (calls_since w (snd (serve_scan response num ps w))) \<longleftrightarrow>
      (\<exists>i < length ps. pfd_fd (ps ! i) = fd \<and> fd \<noteq> -1 \<and> pfd_fd (fst (serve_scan response num ps w) ! i) = -1)) \<and>
   (\<forall>i < length ps. pfd_fd (fst (serve_scan response num ps w) ! i) \<in> {pfd_fd (ps ! i), -1})"
proof (induction ps arbitrary: num w)
  case (Cons p ps)
  show ?case
  proof (cases "num = 0")
    case False
    obtain p1 counted w1 where e: "serve_entry response p w = (p1, counted, w1)" by (metis prod_cases3)
    let ?num = "if counted then num - 1 else num"
    obtain ps1 w2 where s: "serve_scan response ?num ps w1 = (ps1, w2)" by fastforce
    have step: "extends_world w w1" "SysClose fd \<in> set (calls_since w w1) \<longleftrightarrow> fd = pfd_fd p \<and> pfd_fd p \<noteq> -1 \<and> pfd_fd p1 = -1"
      "pfd_fd p1 \<in> {pfd_fd p, -1}" using serve_entry_closes [of w response p fd] e by simp_all
    have rest: "extends_world w1 w2" "length ps1 = length ps"
      "SysClose fd \<in> set (calls_since w1 w2) \<longleftrightarrow> (\<exists>i < length ps. pfd_fd (ps ! i) = fd \<and> fd \<noteq> -1 \<and> pfd_fd (ps1 ! i) = -1)"
      "\<forall>i < length ps. pfd_fd (ps1 ! i) \<in> {pfd_fd (ps ! i), -1}"
      using Cons.IH [where num = ?num and w = w1] s by simp_all
    have ext: "extends_world w w2" "calls_since w w2 = calls_since w w1 @ calls_since w1 w2"
      using extends_world_trans calls_since_trans step(1) rest(1) by blast+
    have "serve_scan response num (p # ps) w = (p1 # ps1, w2)" using False e s by simp
    moreover have "SysClose fd \<in> set (calls_since w w2) \<longleftrightarrow>
        pfd_fd p = fd \<and> fd \<noteq> -1 \<and> pfd_fd p1 = -1 \<or>
        (\<exists>i < length ps. pfd_fd (ps ! i) = fd \<and> fd \<noteq> -1 \<and> pfd_fd (ps1 ! i) = -1)"
      unfolding ext(2) set_append Un_iff step(2) rest(3) by (cases "fd = pfd_fd p") auto
    ultimately show ?thesis using step(3) rest(2,4) ext(1) by (simp add: Ex_less_Suc2 All_less_Suc2)
  qed auto
qed simp

section \<open>Properties\<close>

text \<open>A connection accepted in one round is handed to the serving process in the next round in
  which the socket pair is writable: the descriptor is sent exactly then, the slot for it is free
  again, and the pair is only polled for writing while a descriptor waits.\<close>

theorem accepted_connection_handed_over:
  assumes "acc_pollfds st = [l, c]" and "async_fd st = -1" and "0 \<le> f"
    and "w_answers w (length (w_trace w)) = returns 1"
    and "w_answers w (length (w_trace w) + 1) = returns f"
    and "w_answers w (length (w_trace w) + 2) = returns 1"
    and "w_answers w (length (w_trace w) + 3) = returns 1"
  shows "\<exists>st1 w1. acceptor_round [POLLIN, 0] st w = (Go st1, w1) \<and> async_fd st1 = f \<and>
           calls_since w w1 = [SysPoll 2 (- 1), SysAccept (pfd_fd l)] \<and>
           has_event (pfd_events (acc_pollfds st1 ! 1)) POLLOUT \<and>
           (\<exists>st2 w2. acceptor_round [0, POLLOUT] st1 w1 = (Go st2, w2) \<and> async_fd st2 = -1 \<and>
              calls_since w1 w2 = [SysPoll 2 (- 1), SysSendFd (pfd_fd c) f] \<and>
              \<not> has_event (pfd_events (acc_pollfds st2 ! 1)) POLLOUT)"
proof -
  have flags: "has_event POLLIN POLLIN" "has_event POLLOUT POLLOUT" by (simp_all add: has_event_def poll_flags)
  have two: "acceptor_round [0, POLLOUT] s v =
      (Go (s\<lparr>async_fd := -1, acc_pollfds := [a\<lparr>pfd_revents := 0\<rparr>, b\<lparr>pfd_revents := POLLOUT, pfd_events := POLLIN\<rparr>]\<rparr>),
       snd (invoke (SysSendFd (pfd_fd b) (async_fd s)) (snd (invoke (SysPoll 2 (- 1)) v))))"
    if "acc_pollfds s = [a, b]" "async_fd s \<noteq> -1" "next_answer v = returns 1"
      "w_answers v (Suc (length (w_trace v))) = returns 1" for s v a b
    using that flags
    by (simp add: acceptor_round_def accept_turn_def hand_over_turn_def send_fd_def Let_def split_beta
        fill_revents_def returns_def)
  let ?w1 = "snd (invoke (SysAccept (pfd_fd l)) (snd (invoke (SysPoll 2 (- 1)) w)))"
  let ?st1 = "st\<lparr>async_fd := f, acc_pollfds := [l\<lparr>pfd_revents := POLLIN\<rparr>, c\<lparr>pfd_revents := 0, pfd_events := POLLOUT OR POLLIN\<rparr>]\<rparr>"
  have one: "acceptor_round [POLLIN, 0] st w = (Go ?st1, ?w1)"
    using assms flags
    by (simp add: acceptor_round_def accept_turn_def hand_over_turn_def Let_def split_beta
        fill_revents_def returns_def next_answer_def)
  have "acceptor_round [0, POLLOUT] ?st1 ?w1 =
      (Go (?st1\<lparr>async_fd := -1, acc_pollfds := [l\<lparr>pfd_revents := 0\<rparr>, c\<lparr>pfd_revents := POLLOUT, pfd_events := POLLIN\<rparr>]\<rparr>),
       snd (invoke (SysSendFd (pfd_fd c) f) (snd (invoke (SysPoll 2 (- 1)) ?w1))))"
    using two [of ?st1 "l\<lparr>pfd_revents := POLLIN\<rparr>" "c\<lparr>pfd_revents := 0, pfd_events := POLLOUT OR POLLIN\<rparr>" ?w1] assms
    by (simp add: next_answer_def numeral_3_eq_3)
  then show ?thesis using one by simp
qed

text \<open>A connection that arrives while another still waits to be handed over replaces it: the
  earlier descriptor is neither sent nor closed.\<close>

theorem second_accept_drops_first:
  assumes "acc_pollfds st = [l, c]" and "async_fd st = f" and "f \<noteq> g" and "0 \<le> g"
    and "w_answers w (length (w_trace w)) = returns 1"
    and "w_answers w (length (w_trace w) + 1) = returns g"
  shows "\<exists>st1 w1. acceptor_round [POLLIN, 0] st w = (Go st1, w1) \<and> async_fd st1 = g \<and>
           (\<forall>s. SysSendFd s f \<notin> set (calls_since w w1)) \<and> SysClose f \<notin> set (calls_since w w1)"
proof -
  have flags: "has_event POLLIN POLLIN" by (simp add: has_event_def poll_flags)
  show ?thesis using assms flags
    by (simp add: acceptor_round_def accept_turn_def hand_over_turn_def Let_def split_beta
        fill_revents_def returns_def next_answer_def)
qed

text \<open>The scan of the serving process closes a descriptor exactly when it frees its entry; an
  entry keeps its descriptor or is freed, and no call is made on a freed entry.\<close>

theorem serve_scan_frees_closed:
  "length (fst (serve_scan response num ps w)) = length ps \<and>
   (\<forall>fd. SysClose fd \<in> set (calls_since w (snd (serve_scan response num ps w))) \<longleftrightarrow>
      (\<exists>i < length ps. pfd_fd (ps ! i) = fd \<and> fd \<noteq> -1 \<and> pfd_fd (fst (serve_scan response num ps w) ! i) = -1)) \<and>
   (\<forall>i < length ps. pfd_fd (fst (serve_scan response num ps w) ! i) = pfd_fd (ps ! i) \<or>
      pfd_fd (fst (serve_scan response num ps w) ! i) = -1)"
  using serve_scan_closes [of w response num ps] by blast

definition acc_example :: acceptor where
  "acc_example = acceptor_new 3 4"

lemma accepted_connection_handed_over_witness:
  "\<exists>st1 w1. acceptor_round [POLLIN, 0] acc_example (script [returns 1, returns 9, returns 1, returns 1]) = (Go st1, w1) \<and>
     async_fd st1 = 9"
  using accepted_connection_handed_over [of acc_example _ _ 9 "script [returns 1, returns 9, returns 1, returns 1]"]
  by (auto simp: acc_example_def acceptor_new_def script_def)

lemma second_accept_drops_first_witness:
  "\<exists>st1 w1. acceptor_round [POLLIN, 0] (acc_example\<lparr>async_fd := 8\<rparr>) (script [returns 1, returns 9]) = (Go st1, w1) \<and>
     async_fd st1 = 9 \<and> SysClose 8 \<notin> set (calls_since (script [returns 1, returns 9]) w1)"
  using second_accept_drops_first [of "acc_example\<lparr>async_fd := 8\<rparr>" _ _ 8 9 "script [returns 1, returns 9]"]
  by (auto simp: acc_example_def acceptor_new_def script_def)

definition one_client :: "pollfd list" where
  "one_client = [\<lparr>pfd_fd = 5, pfd_events = POLLIN, pfd_revents = POLLIN\<rparr>]"

lemma serve_scan_frees_closed_witness:
  "SysClose 5 \<in> set (calls_since (script [returns 0]) (snd (serve_scan [1] 1 one_client (script [returns 0]))))"
proof -
  have "pfd_fd (fst (serve_scan [1] 1 one_client (script [returns 0])) ! 0) = -1"
    by (simp add: one_client_def serve_entry_def serve_input_def has_either Let_def split_beta
        next_answer_def script_def returns_def) (simp add: has_event_def poll_flags)
  moreover have "pfd_fd (one_client ! 0) = 5" "length one_client = 1" by (simp_all add: one_client_def)
  ultimately show ?thesis using serve_scan_frees_closed [of "[1]" 1 one_client "script [returns 0]"] by auto
qed

end
