(* ===== verification/Descriptor_Passing.thy ===== *)
theory Descriptor_Passing
  imports Unix_Socket "HOL-Library.Sublist"
begin

text \<open>
  The two processes of \<^verbatim>\<open>set/unixsocket/main.cpp\<close> over any number of turns of their loops.  What
  \<^verbatim>\<open>poll\<close> reports is given per turn: a pair for the two entries of the accepting process, a function
  from positions for the growing array of the serving process.
\<close>

fun acceptor_rounds :: "(u16 \<times> u16) list \<Rightarrow> acceptor \<Rightarrow> world \<Rightarrow> acceptor run \<times> world" where
  "acceptor_rounds [] st w = (Go st, w)"
| "acceptor_rounds ((l, c) # rs) st w =
     (case acceptor_round [l, c] st w of
        (Exit e, w1) \<Rightarrow> (Exit e, w1)
      | (Go st1, w1) \<Rightarrow> acceptor_rounds rs st1 w1)"

definition parent_process :: "int \<Rightarrow> (u16 \<times> u16) list \<Rightarrow> world \<Rightarrow> acceptor run \<times> world" where
  "parent_process fd rs w = (let (st, w1) = parent_start fd w in acceptor_rounds rs st w1)"

fun serve_rounds :: "u8 list \<Rightarrow> (nat \<Rightarrow> u16) list \<Rightarrow> pollfd list \<Rightarrow> world \<Rightarrow> pollfd list run \<times> world" where
  "serve_rounds response [] fds w = (Go fds, w)"
| "serve_rounds response (r # rs) fds w =
     (case serve_round response (map r [0..<length fds]) fds w of
        (Exit e, w1) \<Rightarrow> (Exit e, w1)
      | (Go fds1, w1) \<Rightarrow> serve_rounds response rs fds1 w1)"

definition child_process :: "u8 list \<Rightarrow> int \<Rightarrow> (nat \<Rightarrow> u16) list \<Rightarrow> world \<Rightarrow> pollfd list run \<times> world" where
  "child_process response fd rs w = serve_rounds response rs (child_start fd) w"

section \<open>What a trace accepts, sends, receives and uses\<close>

text \<open>The calls are read with the answers they got: \<open>n\<close> is the position of the first call.\<close>

fun accepted :: "(nat \<Rightarrow> answer) \<Rightarrow> nat \<Rightarrow> syscall list \<Rightarrow> int list" where
  "accepted ans n [] = []"
| "accepted ans n (c # cs) =
     (case c of SysAccept _ \<Rightarrow> (if ans_ret (ans n) = -1 then [] else [ans_ret (ans n)]) | _ \<Rightarrow> []) @
     accepted ans (Suc n) cs"

fun sends :: "syscall list \<Rightarrow> (int \<times> int) list" where
  "sends [] = []"
| "sends (c # cs) = (case c of SysSendFd s f \<Rightarrow> [(s, f)] | _ \<Rightarrow> []) @ sends cs"

fun received_fds :: "(nat \<Rightarrow> answer) \<Rightarrow> nat \<Rightarrow> syscall list \<Rightarrow> int list" where
  "received_fds ans n [] = []"
| "received_fds ans n (c # cs) =
     (case c of SysRecvmsg _ \<Rightarrow> [ans_out (ans n)] | _ \<Rightarrow> []) @ received_fds ans (Suc n) cs"

fun used_fds :: "syscall list \<Rightarrow> int list" where
  "used_fds [] = []"
| "used_fds (c # cs) =
     (case c of SysRead f \<Rightarrow> [f] | SysWrite f _ \<Rightarrow> [f] | SysClose f \<Rightarrow> [f] | _ \<Rightarrow> []) @ used_fds cs"

lemma trace_appends [simp]:
  "accepted ans n (xs @ ys) = accepted ans n xs @ accepted ans (n + length xs) ys"
  "sends (xs @ ys) = sends xs @ sends ys"
  "received_fds ans n (xs @ ys) = received_fds ans n xs @ received_fds ans (n + length xs) ys"
  "used_fds (xs @ ys) = used_fds xs @ used_fds ys"
  by (induction xs arbitrary: n) simp_all

lemma extends_world_length: "extends_world w w' \<Longrightarrow> length (w_trace w') = length (w_trace w) + length (calls_since w w')"
  by (auto simp: extends_world_def calls_since_def)

lemma extends_world_answers: "extends_world w w' \<Longrightarrow> w_answers w' = w_answers w"
  by (simp add: extends_world_def)

section \<open>The accepting process\<close>

definition waiting :: "acceptor run \<Rightarrow> int list" where
  "waiting r = (case r of Exit _ \<Rightarrow> [] | Go st \<Rightarrow> if async_fd st = -1 then [] else [async_fd st])"

definition acc_fds :: "int \<Rightarrow> acceptor run \<Rightarrow> bool" where
  "acc_fds fd r \<longleftrightarrow> (case r of Exit _ \<Rightarrow> True | Go st \<Rightarrow> (\<exists>l c. acc_pollfds st = [l, c] \<and> pfd_fd c = fd))"

lemma acceptor_round_order:
  assumes "acc_fds fd (Go st)"
  shows "extends_world w (snd (acceptor_round [a, b] st w))"
    and "acc_fds fd (fst (acceptor_round [a, b] st w))"
    and "set (map fst (sends (calls_since w (snd (acceptor_round [a, b] st w))))) \<subseteq> {fd}"
    and "used_fds (calls_since w (snd (acceptor_round [a, b] st w))) = []"
    and "subseq (map snd (sends (calls_since w (snd (acceptor_round [a, b] st w)))) @ waiting (fst (acceptor_round [a, b] st w)))
           (waiting (Go st) @ accepted (w_answers w) (length (w_trace w)) (calls_since w (snd (acceptor_round [a, b] st w))))"
proof -
  obtain l c where st: "acc_pollfds st = [l, c]" "pfd_fd c = fd" using assms by (auto simp: acc_fds_def)
  note round = acceptor_round_def accept_turn_def hand_over_turn_def send_fd_def fill_revents_def Let_def split_beta
  show "extends_world w (snd (acceptor_round [a, b] st w))"
    using st by (auto simp: round)
  show "acc_fds fd (fst (acceptor_round [a, b] st w))"
    using st by (auto simp: round acc_fds_def)
  show "set (map fst (sends (calls_since w (snd (acceptor_round [a, b] st w))))) \<subseteq> {fd}"
    using st by (auto simp: round)
  show "used_fds (calls_since w (snd (acceptor_round [a, b] st w))) = []"
    using st by (auto simp: round)
  show "subseq (map snd (sends (calls_since w (snd (acceptor_round [a, b] st w)))) @ waiting (fst (acceptor_round [a, b] st w)))
      (waiting (Go st) @ accepted (w_answers w) (length (w_trace w)) (calls_since w (snd (acceptor_round [a, b] st w))))"
    using st by (auto simp: round waiting_def)
qed

lemma acceptor_rounds_order:
  assumes "acc_fds fd (Go st)"
  shows "extends_world w (snd (acceptor_rounds rs st w)) \<and>
    set (map fst (sends (calls_since w (snd (acceptor_rounds rs st w))))) \<subseteq> {fd} \<and>
    used_fds (calls_since w (snd (acceptor_rounds rs st w))) = [] \<and>
    subseq (map snd (sends (calls_since w (snd (acceptor_rounds rs st w)))) @ waiting (fst (acceptor_rounds rs st w)))
      (waiting (Go st) @ accepted (w_answers w) (length (w_trace w)) (calls_since w (snd (acceptor_rounds rs st w))))"
  using assms
proof (induction rs arbitrary: st w)
  case Nil
  then show ?case by simp
next
  case (Cons r rs)
  obtain a b where r: "r = (a, b)" by fastforce
  obtain q w1 where round: "acceptor_round [a, b] st w = (q, w1)" by fastforce
  note one = acceptor_round_order [OF Cons.prems, where w = w and a = a and b = b, unfolded round fst_conv snd_conv]
  show ?case
  proof (cases q)
    case (Exit e)
    then show ?thesis using one r round by simp
  next
    case (Go st1)
    obtain q2 w2 where rest: "acceptor_rounds rs st1 w1 = (q2, w2)" by fastforce
    have ih: "extends_world w1 w2" "set (map fst (sends (calls_since w1 w2))) \<subseteq> {fd}" "used_fds (calls_since w1 w2) = []"
      "subseq (map snd (sends (calls_since w1 w2)) @ waiting q2)
         (waiting (Go st1) @ accepted (w_answers w) (length (w_trace w1)) (calls_since w1 w2))"
      using Cons.IH [of st1 w1] one(1,2) Go rest by (simp_all add: extends_world_answers [OF one(1)])
    have "subseq (map snd (sends (calls_since w w1)) @ map snd (sends (calls_since w1 w2)) @ waiting q2)
        (map snd (sends (calls_since w w1)) @ waiting (Go st1) @
         accepted (w_answers w) (length (w_trace w1)) (calls_since w1 w2))"
      using list_emb_append_mono [OF subseq_order.refl ih(4)] .
    also have "subseq \<dots> ((waiting (Go st) @ accepted (w_answers w) (length (w_trace w)) (calls_since w w1)) @
         accepted (w_answers w) (length (w_trace w1)) (calls_since w1 w2))"
      using list_emb_append_mono [OF one(5) [unfolded Go] subseq_order.refl] by simp
    finally show ?thesis
      using one ih r round Go rest extends_world_trans [OF one(1) ih(1)]
      by (simp add: calls_since_trans [OF one(1) ih(1)] extends_world_length [OF one(1)])
  qed
qed

section \<open>The serving process\<close>

definition entries :: "pollfd list \<Rightarrow> int set" where
  "entries fds = pfd_fd ` set fds - {-1}"

lemma serve_entry_uses:
  "extends_world w (snd (snd (serve_entry response p w))) \<and>
   set (used_fds (calls_since w (snd (snd (serve_entry response p w))))) \<subseteq> entries [p] \<and>
   received_fds ans n (calls_since w (snd (snd (serve_entry response p w)))) = [] \<and>
   entries [fst (serve_entry response p w)] \<subseteq> entries [p]"
  by (auto simp: serve_entry_def serve_input_def entries_def Let_def split_beta split: if_splits)

lemma entries_Cons: "entries (p # ps) = entries [p] \<union> entries ps"
  by (auto simp: entries_def)

lemma serve_scan_uses:
  "extends_world w (snd (serve_scan response num ps w)) \<and>
   set (used_fds (calls_since w (snd (serve_scan response num ps w)))) \<subseteq> entries ps \<and>
   (\<forall>n. received_fds ans n (calls_since w (snd (serve_scan response num ps w))) = []) \<and>
   entries (fst (serve_scan response num ps w)) \<subseteq> entries ps"
proof (induction ps arbitrary: num w)
  case (Cons p ps)
  show ?case
  proof (cases "num = 0")
    case False
    obtain p1 counted w1 where e: "serve_entry response p w = (p1, counted, w1)" by (metis prod_cases3)
    let ?num = "if counted then num - 1 else num"
    obtain ps1 w2 where s: "serve_scan response ?num ps w1 = (ps1, w2)" by fastforce
    have one: "extends_world w w1" "set (used_fds (calls_since w w1)) \<subseteq> entries [p]"
      "\<And>n. received_fds ans n (calls_since w w1) = []" "entries [p1] \<subseteq> entries [p]"
      using serve_entry_uses [of w response p ans] e by simp_all
    have ih: "extends_world w1 w2" "set (used_fds (calls_since w1 w2)) \<subseteq> entries ps"
      "\<And>n. received_fds ans n (calls_since w1 w2) = []" "entries ps1 \<subseteq> entries ps"
      using Cons.IH [where num = ?num and w = w1] s by simp_all
    have "serve_scan response num (p # ps) w = (p1 # ps1, w2)" using False e s by simp
    then show ?thesis
      using one ih extends_world_trans [OF one(1) ih(1)]
      by (auto simp: calls_since_trans [OF one(1) ih(1)] entries_Cons [of p ps] entries_Cons [of p1 ps1])
  qed simp
qed simp

lemma filled_entries:
  assumes "length ready = Suc (length cs)"
  shows "\<exists>c' cs'. fill_revents ready (c # cs) = c' # cs' \<and> entries cs' = entries cs"
proof -
  obtain e es where r: "ready = e # es" "length es = length cs" using assms by (cases ready) auto
  have "pfd_fd ` set (fill_revents es cs) = pfd_fd ` set cs"
    using r(2) by (induction cs es rule: list_induct2') (auto simp: fill_revents_def)
  then show ?thesis unfolding r(1) by (simp add: fill_revents_def entries_def)
qed

text \<open>A round: what is used was in the array or has just been received; the descriptors in the array
  behind the first entry afterwards come from the same two.\<close>

lemma serve_round_uses:
  assumes "serve_round response ready (c # cs) w = (q, w1)" and "length ready = Suc (length cs)"
    and "received_fds (w_answers w) (length (w_trace w)) (calls_since w w1) = got"
  shows "extends_world w w1 \<and> set (used_fds (calls_since w w1)) \<subseteq> entries cs \<union> (set got - {-1}) \<and>
    (case q of Exit _ \<Rightarrow> True | Go fds \<Rightarrow> \<exists>c' cs'. fds = c' # cs' \<and> entries cs' \<subseteq> entries cs \<union> (set got - {-1}))"
proof -
  let ?w0 = "snd (invoke (SysPoll (Suc (length cs)) (- 1)) w)" and ?num = "ans_ret (next_answer w)"
  obtain c1 cs1 where fds1: "(if ?num < 0 then c # cs else fill_revents ready (c # cs)) = c1 # cs1"
      and e1: "entries cs1 = entries cs"
    using filled_entries [OF assms(2), of c] by (cases "?num < 0") auto
  show ?thesis
  proof (cases "has_event (pfd_revents c1) POLLIN")
    case False
    obtain cs2 w2 where s: "serve_scan response ?num cs1 ?w0 = (cs2, w2)" by fastforce
    have "q = Go (c1 # cs2)" "w1 = w2"
      using assms(1) False fds1 s by (simp_all add: serve_round_def Let_def split_beta)
    moreover have "extends_world ?w0 w2" "set (used_fds (calls_since ?w0 w2)) \<subseteq> entries cs1" "entries cs2 \<subseteq> entries cs1"
      using serve_scan_uses [of ?w0 response ?num cs1] s by simp_all
    moreover from this(1) have "extends_world w w2" by (rule extends_world_trans [rotated]) simp
    moreover have "calls_since w w2 = SysPoll (Suc (length cs)) (- 1) # calls_since ?w0 w2"
      using calls_since_trans [of w ?w0 w2] \<open>extends_world ?w0 w2\<close> by simp
    ultimately show ?thesis using e1 by auto
  next
    case True
    let ?a = "next_answer ?w0" and ?v = "snd (invoke (SysRecvmsg (pfd_fd c1)) ?w0)"
    have recv: "recv_fd (pfd_fd c1) ?w0 = (if ans_ret ?a \<noteq> 1 \<or> ans_out ?a = -1 then Exit 0 else Go (ans_out ?a), ?v)"
      by (simp add: recv_fd_def split_beta)
    show ?thesis
    proof (cases "ans_ret ?a \<noteq> 1 \<or> ans_out ?a = -1")
      case True
      then have "recv_fd (pfd_fd c1) ?w0 = (Exit 0, ?v)" unfolding recv by simp
      then have "q = Exit 0" "w1 = ?v"
        using assms(1) fds1 \<open>has_event (pfd_revents c1) POLLIN\<close>
        by (simp_all add: serve_round_def Let_def split_beta)
      then show ?thesis by simp
    next
      case False
      let ?new = "\<lparr>pfd_fd = ans_out ?a, pfd_events = POLLIN, pfd_revents = 0\<rparr>"
      obtain cs2 w2 where s: "serve_scan response (?num - 1) (cs1 @ [?new]) ?v = (cs2, w2)" by fastforce
      have "recv_fd (pfd_fd c1) ?w0 = (Go (ans_out ?a), ?v)" using False unfolding recv by simp
      then have q: "q = Go (c1 # cs2)" "w1 = w2"
        using assms(1) fds1 \<open>has_event (pfd_revents c1) POLLIN\<close> s
        by (simp_all del: next_answer_invoke add: serve_round_def Let_def split_beta)
      have scan: "extends_world ?v w2" "set (used_fds (calls_since ?v w2)) \<subseteq> entries (cs1 @ [?new])"
        "entries cs2 \<subseteq> entries (cs1 @ [?new])"
        using serve_scan_uses [of ?v response "?num - 1" "cs1 @ [?new]"] s by simp_all
      have calls: "calls_since w w2 = [SysPoll (Suc (length cs)) (- 1), SysRecvmsg (pfd_fd c1)] @ calls_since ?v w2"
        using calls_since_trans [of w ?v w2] scan(1) by simp
      have "ans_out ?a \<in> set got" using assms(3) unfolding q(2) calls by (auto simp: next_answer_def)
      moreover have "entries (cs1 @ [?new]) \<subseteq> entries cs \<union> ({ans_out ?a} - {-1})" using e1 by (auto simp: entries_def)
      moreover have "extends_world w w2" using scan(1) by (rule extends_world_trans [rotated]) simp
      ultimately show ?thesis using scan(2,3) by (simp add: q calls) blast
    qed
  qed
qed

lemma serve_rounds_use:
  "extends_world w (snd (serve_rounds response rs (c # cs) w)) \<and>
   set (used_fds (calls_since w (snd (serve_rounds response rs (c # cs) w)))) \<subseteq>
     entries cs \<union> (set (received_fds (w_answers w) (length (w_trace w)) (calls_since w (snd (serve_rounds response rs (c # cs) w)))) - {-1})"
proof (induction rs arbitrary: c cs w)
  case (Cons r rs)
  obtain q w1 where round: "serve_round response (map r [0..<length (c # cs)]) (c # cs) w = (q, w1)" by fastforce
  note one = serve_round_uses [OF round _ refl]
  have ext: "extends_world w w1" using one by simp
  show ?case
  proof (cases q)
    case (Exit e)
    then show ?thesis using one round by simp
  next
    case (Go fds)
    with one obtain c' cs' where fds: "fds = c' # cs'"
      "entries cs' \<subseteq> entries cs \<union> (set (received_fds (w_answers w) (length (w_trace w)) (calls_since w w1)) - {-1})" by auto
    obtain q2 w2 where rest: "serve_rounds response rs (c' # cs') w1 = (q2, w2)" by fastforce
    have run: "serve_rounds response (r # rs) (c # cs) w = (q2, w2)" using round Go fds(1) rest by simp
    have ih: "extends_world w1 w2" "set (used_fds (calls_since w1 w2)) \<subseteq>
        entries cs' \<union> (set (received_fds (w_answers w) (length (w_trace w1)) (calls_since w1 w2)) - {-1})"
      using Cons.IH [of w1 c' cs'] rest by (simp_all add: extends_world_answers [OF ext])
    show ?thesis
      unfolding run snd_conv calls_since_trans [OF ext ih(1)]
      using one ih fds(2) extends_world_trans [OF ext ih(1)] extends_world_length [OF ext] by auto
  qed
qed simp

section \<open>Properties\<close>

text \<open>C35: The accepting process over any number of turns and whatever the kernel answers: the
  descriptors it hands over are descriptors it accepted, in the order of their arrival and each at
  most once; they go to its end of the socket pair only, and it reads, writes and closes nothing.
  (A subsequence, not all: a connection accepted before the one before was sent replaces it.)\<close>

theorem parent_hands_over_in_order:
  "let calls = calls_since w (snd (parent_process fd rs w)) in
     subseq (map snd (sends calls)) (accepted (w_answers w) (length (w_trace w)) calls) \<and>
     set (map fst (sends calls)) \<subseteq> {fd} \<and> used_fds calls = []"
proof -
  obtain st w1 where start: "parent_start fd w = (st, w1)" by fastforce
  then have st: "acc_fds fd (Go st)" "waiting (Go st) = []" and ext: "extends_world w w1"
    and calls: "sends (calls_since w w1) = []" "used_fds (calls_since w w1) = []"
      "accepted (w_answers w) (length (w_trace w)) (calls_since w w1) = []"
    by (auto simp: parent_start_def acceptor_new_def acc_fds_def waiting_def Let_def split_beta)
  obtain q w2 where run: "acceptor_rounds rs st w1 = (q, w2)" by fastforce
  have rounds: "extends_world w1 w2" "set (map fst (sends (calls_since w1 w2))) \<subseteq> {fd}" "used_fds (calls_since w1 w2) = []"
    "subseq (map snd (sends (calls_since w1 w2)) @ waiting q) (accepted (w_answers w) (length (w_trace w1)) (calls_since w1 w2))"
    using acceptor_rounds_order [OF st(1), of w1 rs] run st(2) by (simp_all add: extends_world_answers [OF ext])
  have "subseq (map snd (sends (calls_since w1 w2))) (accepted (w_answers w) (length (w_trace w1)) (calls_since w1 w2))"
    by (rule subseq_order.trans [OF _ rounds(4)]) (simp add: subseq_rev_drop_many)
  then show ?thesis
    using rounds(2,3) calls extends_world_length [OF ext]
    by (simp add: parent_process_def start run calls_since_trans [OF ext rounds(1)])
qed

text \<open>C34: The serving process over any number of turns and whatever the kernel answers reads, writes
  and closes only descriptors that were passed to it, and never the \<open>-1\<close> of a freed entry.\<close>

theorem child_uses_only_received:
  "let calls = calls_since w (snd (child_process response fd rs w)) in
     set (used_fds calls) \<subseteq> set (received_fds (w_answers w) (length (w_trace w)) calls) - {-1}"
  using serve_rounds_use [of w response rs _ "[]"] by (simp add: child_process_def child_start_def entries_def)

end
