(* ===== verification/Time_Service.thy ===== *)
theory Time_Service
  imports Syscalls
begin

text \<open>
  \<^verbatim>\<open>set/time\<close>: the daytime server and its client.  A round of the server accepts a connection
  and forks; the child sends the time and then goes back to accepting like its parent, since nothing
  ends it.  Which side of the fork a round describes is an argument.
\<close>

definition sizeof_buff :: nat where "sizeof_buff = 256"

text \<open>The buffer after \<^verbatim>\<open>snprintf(buff, sizeof(buff), "%.24s\r\n", ctime(&ticks))\<close>: the
  line, the terminating zero, and what was there before.\<close>

definition time_line :: "u8 list \<Rightarrow> u8 list" where
  "time_line ctime = take 24 ctime @ [13, 10]"

definition time_fill :: "u8 list \<Rightarrow> u8 list \<Rightarrow> u8 list" where
  "time_fill ctime buff = time_line ctime @ [0] @ drop (length (time_line ctime) + 1) buff"

definition time_child :: "int \<Rightarrow> u8 list \<Rightarrow> u8 list \<Rightarrow> world \<Rightarrow> cxx_error + u8 list \<times> world" where
  "time_child cd ctime buff w =
     (let buff1 = time_fill ctime buff;
          (a, w1) = invoke (SysWrite cd buff1) w
      in and_then (assert_that (ans_ret a = int sizeof_buff)) (\<lambda>_.
         Inr (buff1, snd (invoke (SysShutdown cd 2) w1))))"

datatype fork_side = ParentSide | ChildSide "u8 list"

definition time_round :: "int \<Rightarrow> fork_side \<Rightarrow> u8 list \<Rightarrow> world \<Rightarrow> cxx_error + u8 list \<times> world" where
  "time_round fd side buff w =
     (let (a, w1) = invoke (SysAccept fd) w in
      if ans_ret a < 0 then Inr (buff, w1)
      else let (_, w2) = invoke SysFork w1 in
        case side of
          ChildSide ctime \<Rightarrow> time_child (ans_ret a) ctime buff w2
        | ParentSide \<Rightarrow> Inr (buff, w2))"

text \<open>Set-up: errors of \<^verbatim>\<open>setsockopt\<close> and \<^verbatim>\<open>bind\<close> are only printed.\<close>

definition time_start :: "world \<Rightarrow> int option run \<times> world" where
  "time_start w =
     (let (s, w1) = invoke SysSocket w; fd = ans_ret s in
      if fd < 0 then (Exit (-1), w1)
      else let (_, w2) = invoke (SysSetsockopt fd 1 15) w1;
               (_, w3) = invoke (SysSetsockopt fd 1 2) w2;
               (_, w4) = invoke (SysBind fd) w3;
               (l, w5) = invoke (SysListen fd 1) w4
           in if ans_ret l < 0 then (Go None, w5) else (Go (Some fd), w5))"

text \<open>The client: one turn of its read loop; the flag says whether it goes on.\<close>

definition time_client_turn :: "int \<Rightarrow> u8 list \<Rightarrow> world \<Rightarrow> cxx_error + bool \<times> u8 list \<times> u8 list \<times> world" where
  "time_client_turn fd buf w =
     (let (a, w1) = invoke (SysRead fd) w; rs = ans_ret a in
      if rs = 0 then Inr (False, [], buf, snd (invoke (SysClose fd) w1))
      else if rs = -1 then Inr (False, [], buf, w1)
      else let buf1 = take (nat rs) (ans_bytes a) @ drop (nat rs) buf in
        if 0 \<in> set buf1 then Inr (True, takeWhile (\<lambda>c. c \<noteq> 0) buf1, buf1, w1) else Inl OutOfBounds)"

text \<open>The client before its loop (lines 10-29): too few arguments are reported but not refused, and
  the missing ones are null pointers that \<^verbatim>\<open>atoi\<close> and \<^verbatim>\<open>inet_addr\<close> read.  \<open>argc\<close> counts the program's
  name; the result is the connected descriptor, if any.\<close>

definition time_client_start :: "nat \<Rightarrow> world \<Rightarrow> cxx_error + int option \<times> world" where
  "time_client_start argc w =
     (let (s, w1) = invoke SysSocket w; fd = ans_ret s in
      if fd < 0 then Inr (None, w1)
      else if argc < 3 then Inl NullDereference
      else let (c, w2) = invoke (SysConnect fd) w1 in
        if ans_ret c < 0 then Inr (None, w2) else Inr (Some fd, w2))"

partial_function (option) time_client_loop ::
  "int \<Rightarrow> u8 list \<Rightarrow> u8 list list \<Rightarrow> world \<Rightarrow> (cxx_error + u8 list list \<times> world) option" where
  "time_client_loop fd buf out w =
     (case time_client_turn fd buf w of
        Inl e \<Rightarrow> Some (Inl e)
      | Inr (again, line, buf1, w1) \<Rightarrow>
          if again then time_client_loop fd buf1 (out @ [line]) w1 else Some (Inr (out, w1)))"

definition time_client :: "nat \<Rightarrow> world \<Rightarrow> (cxx_error + u8 list list \<times> world) option" where
  "time_client argc w =
     (case time_client_start argc w of
        Inl e \<Rightarrow> Some (Inl e)
      | Inr (None, w1) \<Rightarrow> Some (Inr ([], w1))
      | Inr (Some fd, w1) \<Rightarrow> time_client_loop fd (replicate sizeof_buff 0) [] w1)"

section \<open>Lemmas\<close>

lemma time_fill_length:
  "24 \<le> length ctime \<Longrightarrow> length buff = sizeof_buff \<Longrightarrow> length (time_fill ctime buff) = sizeof_buff"
  by (simp add: time_fill_def time_line_def sizeof_buff_def)

text \<open>The child sends the whole buffer: the line, its terminator and 229 bytes of padding; a client
  that reads it in one piece prints exactly the line, whatever its own buffer held.\<close>

theorem time_reaches_client:
  assumes "24 \<le> length ctime" and "length buff = sizeof_buff" and "0 \<notin> set (take 24 ctime)"
    and "length buf = sizeof_buff"
    and "next_answer w = \<lparr>ans_ret = int sizeof_buff, ans_errno = 0, ans_out = 0, ans_bytes = time_fill ctime buff\<rparr>"
  shows "\<exists>w'. time_client_turn fd buf w = Inr (True, time_line ctime, time_fill ctime buff, w')"
proof -
  have len: "length (time_fill ctime buff) = 256"
    using time_fill_length [OF assms(1,2)] by (simp add: sizeof_buff_def)
  have "takeWhile (\<lambda>c. c \<noteq> 0) (time_fill ctime buff) = time_line ctime"
    using assms(3) by (simp add: time_fill_def time_line_def takeWhile_append)
  moreover have "0 \<in> set (time_fill ctime buff)" by (simp add: time_fill_def)
  ultimately show ?thesis using assms(4,5) len
    by (simp add: time_client_turn_def Let_def split_beta sizeof_buff_def)
qed

text \<open>A whole run of the client: it connects, receives the server's 256 bytes and the end of the
  stream, prints the line once, closes its socket and returns; without both arguments it dereferences
  a null pointer as soon as it has a socket.\<close>

theorem time_client_run:
  assumes "24 \<le> length ctime" and "length buff = sizeof_buff" and "0 \<notin> set (take 24 ctime)" and "0 \<le> fd"
  shows "\<exists>w'. time_client 3 (script [returns fd, returns 0, \<lparr>ans_ret = int sizeof_buff, ans_errno = 0, ans_out = 0,
             ans_bytes = time_fill ctime buff\<rparr>, returns 0]) = Some (Inr ([time_line ctime], w')) \<and>
           w_trace w' = [SysSocket, SysConnect fd, SysRead fd, SysRead fd, SysClose fd]"
    and "argc < 3 \<Longrightarrow> 0 \<le> ans_ret (next_answer w) \<Longrightarrow> time_client argc w = Some (Inl NullDereference)"
proof -
  let ?line = "\<lparr>ans_ret = int sizeof_buff, ans_errno = 0, ans_out = 0, ans_bytes = time_fill ctime buff\<rparr>"
  let ?w = "script [returns fd, returns 0, ?line, returns 0]"
  let ?w2 = "snd (invoke (SysConnect fd) (snd (invoke SysSocket ?w)))"
  have start: "time_client_start 3 ?w = Inr (Some fd, ?w2)"
    using assms(4) by (simp add: time_client_start_def Let_def split_beta nth_answer_simps nth_answer_script returns_def)
  have len: "length (time_fill ctime buff) = sizeof_buff" using assms(1,2) by (rule time_fill_length)
  have zero: "0 \<in> set (time_fill ctime buff)" by (simp add: time_fill_def)
  have line: "takeWhile (\<lambda>c. c \<noteq> 0) (time_fill ctime buff) = time_line ctime"
    using assms(3) by (simp add: time_fill_def time_line_def takeWhile_append)
  have two: "nth_answer ?w2 0 = ?line" by (simp add: nth_answer_simps nth_answer_script eval_nat_numeral)
  let ?w3 = "snd (invoke (SysRead fd) ?w2)"
  have turn: "time_client_turn fd (replicate sizeof_buff 0) ?w2 = Inr (True, time_line ctime, time_fill ctime buff, ?w3)"
    using len zero line two by (simp add: time_client_turn_def Let_def split_beta nth_answer_simps(1) sizeof_buff_def)
  have "nth_answer ?w3 0 = returns 0" by (simp add: nth_answer_simps nth_answer_script eval_nat_numeral)
  then have stop: "time_client_turn fd (time_fill ctime buff) ?w3 =
      Inr (False, [], time_fill ctime buff, snd (invoke (SysClose fd) (snd (invoke (SysRead fd) ?w3))))"
    by (simp add: time_client_turn_def Let_def split_beta nth_answer_simps(1) returns_def)
  show "\<exists>w'. time_client 3 ?w = Some (Inr ([time_line ctime], w')) \<and>
      w_trace w' = [SysSocket, SysConnect fd, SysRead fd, SysRead fd, SysClose fd]"
    by (simp add: time_client_def start time_client_loop.simps [of fd "replicate sizeof_buff 0"] turn
        time_client_loop.simps [of fd "time_fill ctime buff"] stop) (simp add: script_def)
  show "argc < 3 \<Longrightarrow> 0 \<le> ans_ret (next_answer w) \<Longrightarrow> time_client argc w = Some (Inl NullDereference)"
    by (simp add: time_client_def time_client_start_def Let_def split_beta)
qed

end
