(* ===== verification/Time_Processes.thy ===== *)
theory Time_Processes
  imports Time_Service
begin

text \<open>
  The processes of the daytime server of \<^verbatim>\<open>src/set/time/server.cpp\<close>.  A round of one process
  forks: the parent goes on with its own answers from the kernel, the child starts with a copy of
  the parent's past and answers of its own.  A process is what \<open>time_round\<close> works on.
\<close>

record time_process =
  tp_buff :: "u8 list"
  tp_world :: world

text \<open>A connection: which process accepts it, what \<^verbatim>\<open>ctime\<close> says and what the child's calls return.\<close>

record time_event =
  te_process :: nat
  te_ctime :: "u8 list"
  te_child :: "nat \<Rightarrow> answer"

definition child_world :: "(nat \<Rightarrow> answer) \<Rightarrow> world \<Rightarrow> world" where
  "child_world as w =
     w\<lparr>w_answers := (\<lambda>k. if k \<le> length (w_trace w) then w_answers w k else as (k - length (w_trace w)))\<rparr>"

definition resume :: "(cxx_error + u8 list \<times> world) \<Rightarrow> time_process list" where
  "resume r = (case r of Inl e \<Rightarrow> [] | Inr (b, w) \<Rightarrow> [\<lparr>tp_buff = b, tp_world = w\<rparr>])"

text \<open>
  One turn of the loop of one process, on both sides of the fork; a child that fails its assertion
  is gone.  Without a connection or when \<^verbatim>\<open>fork\<close> fails there is no child.
\<close>

definition time_serve :: "int \<Rightarrow> time_event \<Rightarrow> time_process list \<Rightarrow> time_process list" where
  "time_serve fd e ps =
     (let p = ps ! te_process e; w = tp_world p;
          parent = resume (time_round fd ParentSide (tp_buff p) w);
          child = resume (time_round fd (ChildSide (te_ctime e)) (tp_buff p) (child_world (te_child e) w));
          forked = 0 \<le> ans_ret (nth_answer w 0) \<and> 0 \<le> ans_ret (nth_answer w 1)
      in take (te_process e) ps @ parent @ drop (Suc (te_process e)) ps @ (if forked then child else []))"

fun time_run :: "int \<Rightarrow> time_event list \<Rightarrow> time_process list \<Rightarrow> time_process list" where
  "time_run fd [] ps = ps"
| "time_run fd (e # es) ps = time_run fd es (time_serve fd e ps)"

text \<open>The event is a connection that is served: all calls succeed and the whole buffer is written.\<close>

definition served :: "time_event \<Rightarrow> time_process list \<Rightarrow> bool" where
  "served e ps \<longleftrightarrow> te_process e < length ps \<and>
     0 \<le> ans_ret (nth_answer (tp_world (ps ! te_process e)) 0) \<and>
     0 \<le> ans_ret (nth_answer (tp_world (ps ! te_process e)) 1) \<and>
     ans_ret (te_child e 2) = int sizeof_buff"

fun all_served :: "int \<Rightarrow> time_event list \<Rightarrow> time_process list \<Rightarrow> bool" where
  "all_served fd [] ps \<longleftrightarrow> True"
| "all_served fd (e # es) ps \<longleftrightarrow> served e ps \<and> all_served fd es (time_serve fd e ps)"

section \<open>What a round does\<close>

definition closes_nothing :: "world \<Rightarrow> bool" where
  "closes_nothing w \<longleftrightarrow> (\<forall>d. SysClose d \<notin> set (w_trace w))"

lemma round_parent:
  "\<exists>w'. time_round fd ParentSide buff w = Inr (buff, w') \<and>
     w_trace w' = w_trace w @ (if ans_ret (nth_answer w 0) < 0 then [SysAccept fd] else [SysAccept fd, SysFork])"
  by (simp add: time_round_def Let_def split_beta nth_answer_simps)

lemma child_answers:
  "nth_answer (child_world as w) 0 = nth_answer w 0" "nth_answer (child_world as w) (Suc k) = as (Suc k)"
  "w_trace (child_world as w) = w_trace w"
  by (simp_all add: nth_answer_def child_world_def)

lemma round_child_closes_nothing:
  assumes "closes_nothing w" and "time_round fd (ChildSide ctime) buff w = Inr (b, w')"
  shows "closes_nothing w'"
  using assms
  by (auto simp: time_round_def time_child_def Let_def split_beta and_then_Inr_iff closes_nothing_def split: if_splits)

lemma round_child_served:
  assumes "0 \<le> ans_ret (nth_answer w 0)" and "ans_ret (as 2) = int sizeof_buff"
  shows "\<exists>b w'. time_round fd (ChildSide ctime) buff (child_world as w) = Inr (b, w') \<and>
     w_trace w' = w_trace w @ [SysAccept fd, SysFork,
       SysWrite (ans_ret (nth_answer w 0)) (time_fill ctime buff), SysShutdown (ans_ret (nth_answer w 0)) 2]"
proof -
  have "time_round fd (ChildSide ctime) buff (child_world as w) =
      time_child (ans_ret (nth_answer w 0)) ctime buff
        (snd (invoke SysFork (snd (invoke (SysAccept fd) (child_world as w)))))"
    using assms(1) by (simp add: time_round_def Let_def split_beta nth_answer_simps child_answers)
  then show ?thesis
    using assms(2) by (simp add: time_child_def Let_def split_beta nth_answer_simps child_answers
        assert_that_def numeral_2_eq_2)
qed

lemma time_serve_closes_nothing:
  assumes "\<forall>p \<in> set ps. closes_nothing (tp_world p)" and "te_process e < length ps"
  shows "\<forall>p \<in> set (time_serve fd e ps). closes_nothing (tp_world p)"
proof -
  let ?p = "ps ! te_process e"
  have p: "closes_nothing (tp_world ?p)" using assms by simp
  obtain w' where w': "time_round fd ParentSide (tp_buff ?p) (tp_world ?p) = Inr (tp_buff ?p, w')" "closes_nothing w'"
    using round_parent [of fd "tp_buff ?p" "tp_world ?p"] p by (auto simp: closes_nothing_def)
  have "closes_nothing (child_world (te_child e) (tp_world ?p))"
    using p by (simp add: closes_nothing_def child_answers)
  note child = round_child_closes_nothing [OF this, of fd "te_ctime e" "tp_buff ?p"]
  have "\<forall>q \<in> set (resume (time_round fd (ChildSide (te_ctime e)) (tp_buff ?p) (child_world (te_child e) (tp_world ?p)))).
      closes_nothing (tp_world q)"
    using child by (cases "time_round fd (ChildSide (te_ctime e)) (tp_buff ?p) (child_world (te_child e) (tp_world ?p))")
      (auto simp: resume_def)
  moreover have "\<forall>q \<in> set (resume (time_round fd ParentSide (tp_buff ?p) (tp_world ?p))). closes_nothing (tp_world q)"
    using w' by (simp add: resume_def)
  ultimately show ?thesis
    using assms(1) by (auto simp: time_serve_def Let_def dest: in_set_takeD in_set_dropD)
qed

lemma time_serve_count:
  assumes "served e ps"
  shows "length (time_serve fd e ps) = Suc (length ps)"
proof -
  let ?p = "ps ! te_process e"
  have s: "te_process e < length ps" "0 \<le> ans_ret (nth_answer (tp_world ?p) 0)"
    "0 \<le> ans_ret (nth_answer (tp_world ?p) 1)" "ans_ret (te_child e 2) = int sizeof_buff"
    using assms by (simp_all add: served_def)
  obtain w1 where w1: "time_round fd ParentSide (tp_buff ?p) (tp_world ?p) = Inr (tp_buff ?p, w1)"
    using round_parent by blast
  obtain b w2 where w2: "time_round fd (ChildSide (te_ctime e)) (tp_buff ?p)
      (child_world (te_child e) (tp_world ?p)) = Inr (b, w2)"
    using round_child_served [where as = "te_child e", OF s(2,4)] by blast
  show ?thesis using s by (simp add: time_serve_def Let_def resume_def w1 w2)
qed

section \<open>Properties\<close>

text \<open>
  C37: every connection the server answers leaves one more process in the accept loop: after
  \<open>n\<close> connections, whichever processes accepted them, there are \<open>n\<close> more
  processes than before, and none of them ever closes a connection it accepted or inherited.
\<close>

theorem processes_multiply:
  assumes "all_served fd es ps" and "\<forall>p \<in> set ps. closes_nothing (tp_world p)"
  shows "length (time_run fd es ps) = length ps + length es \<and>
    (\<forall>p \<in> set (time_run fd es ps). closes_nothing (tp_world p))"
  using assms
proof (induction es arbitrary: ps)
  case (Cons e es)
  have e: "served e ps" "all_served fd es (time_serve fd e ps)" using Cons.prems(1) by simp_all
  have "te_process e < length ps" using e(1) by (simp add: served_def)
  from Cons.IH [OF e(2) time_serve_closes_nothing [OF Cons.prems(2) this]] time_serve_count [OF e(1), of fd]
  show ?case by simp
qed simp

text \<open>Two connections to a fresh server, the second accepted by the child of the first.\<close>

definition example_child :: "nat \<Rightarrow> answer" where
  "example_child k = returns (if k = 2 then 256 else 4)"

definition example_times :: "time_event list" where
  "example_times = [\<lparr>te_process = 0, te_ctime = [], te_child = example_child\<rparr>,
                    \<lparr>te_process = 1, te_ctime = [], te_child = example_child\<rparr>]"

definition example_daemon :: time_process where
  "example_daemon = \<lparr>tp_buff = [], tp_world = \<lparr>w_answers = (\<lambda>_. returns 4), w_trace = [], w_errno = 0\<rparr>\<rparr>"

theorem processes_multiply_witness:
  "length (time_run 3 example_times [example_daemon]) = 3"
proof -
  have "all_served 3 example_times [example_daemon]"
    by (simp add: example_times_def example_daemon_def served_def time_serve_def resume_def time_round_def
        time_child_def Let_def split_beta nth_answer_def next_answer_def child_world_def example_child_def returns_def
        assert_that_def sizeof_buff_def)
  from processes_multiply [OF this] show ?thesis
    by (simp add: example_times_def example_daemon_def closes_nothing_def)
qed

end
