(* ===== verification/Flag_Wait.thy ===== *)
theory Flag_Wait
  imports Prelude
begin

text \<open>
  The hand-shake of the two-thread samples (\<^verbatim>\<open>tcp_rest\<close>, \<^verbatim>\<open>api\<close>, \<^verbatim>\<open>sigurg\<close>): the server
  thread sets up its socket, stores an atomic flag and notifies a condition variable; client threads
  lock the mutex and wait on the variable until the flag is set.  A step is one access to the flag,
  the mutex or the variable.  \<^verbatim>\<open>wait(lk, pred)\<close> is the loop of the standard: test the predicate
  with the mutex held, and when it is false unlock and block in one step.  How the server publishes
  the flag is an argument: the sources store it without the mutex (\<open>pub_locked\<close> is false) and
  notify one or all.
\<close>

datatype client_pc = CLock | CTest | CPark | CBlocked | CWoken | CPassed | CGone
datatype server_pc = SSetup | SLock | SStore | SUnlock | SNotify | SDone
datatype owner = Server | Client nat

record publish =
  pub_locked :: bool
  pub_all :: bool

record handshake =
  h_flag :: bool
  h_owner :: "owner option"
  h_server :: server_pc
  h_clients :: "client_pc list"

definition handshake_new :: "nat \<Rightarrow> handshake" where
  "handshake_new n = \<lparr>h_flag = False, h_owner = None, h_server = SSetup, h_clients = replicate n CLock\<rparr>"

fun wake :: "client_pc \<Rightarrow> client_pc" where
  "wake CBlocked = CWoken"
| "wake c = c"

text \<open>The server; \<open>j\<close> is the client a single notification picks.\<close>

fun publish_step :: "publish \<Rightarrow> nat \<Rightarrow> handshake \<Rightarrow> handshake option" where
  "publish_step p j s =
     (case h_server s of
        SSetup \<Rightarrow> Some (s\<lparr>h_server := (if pub_locked p then SLock else SStore)\<rparr>)
      | SLock \<Rightarrow> if h_owner s = None then Some (s\<lparr>h_owner := Some Server, h_server := SStore\<rparr>) else None
      | SStore \<Rightarrow> Some (s\<lparr>h_flag := True, h_server := (if pub_locked p then SUnlock else SNotify)\<rparr>)
      | SUnlock \<Rightarrow> Some (s\<lparr>h_owner := None, h_server := SNotify\<rparr>)
      | SNotify \<Rightarrow>
          if pub_all p then Some (s\<lparr>h_clients := map wake (h_clients s), h_server := SDone\<rparr>)
          else if CBlocked \<notin> set (h_clients s) then Some (s\<lparr>h_server := SDone\<rparr>)
          else if j < length (h_clients s) \<and> h_clients s ! j = CBlocked
          then Some (s\<lparr>h_clients := (h_clients s)[j := CWoken], h_server := SDone\<rparr>)
          else None
      | SDone \<Rightarrow> None)"

fun wait_step :: "nat \<Rightarrow> handshake \<Rightarrow> handshake option" where
  "wait_step i s =
     (if i < length (h_clients s) then
        case h_clients s ! i of
          CLock \<Rightarrow>
            if h_owner s = None
            then Some (s\<lparr>h_owner := Some (Client i), h_clients := (h_clients s)[i := CTest]\<rparr>) else None
        | CTest \<Rightarrow> Some (s\<lparr>h_clients := (h_clients s)[i := (if h_flag s then CPassed else CPark)]\<rparr>)
        | CPark \<Rightarrow> Some (s\<lparr>h_owner := None, h_clients := (h_clients s)[i := CBlocked]\<rparr>)
        | CBlocked \<Rightarrow> None
        | CWoken \<Rightarrow>
            if h_owner s = None
            then Some (s\<lparr>h_owner := Some (Client i), h_clients := (h_clients s)[i := CTest]\<rparr>) else None
        | CPassed \<Rightarrow> Some (s\<lparr>h_owner := None, h_clients := (h_clients s)[i := CGone]\<rparr>)
        | CGone \<Rightarrow> None
      else None)"

inductive hs_step :: "publish \<Rightarrow> handshake \<Rightarrow> handshake \<Rightarrow> bool" for p where
  server: "publish_step p j s = Some s' \<Longrightarrow> hs_step p s s'"
| client: "wait_step i s = Some s' \<Longrightarrow> hs_step p s s'"

text \<open>The standard also allows a wait to end without a notification.\<close>

inductive hs_any_step :: "publish \<Rightarrow> handshake \<Rightarrow> handshake \<Rightarrow> bool" for p where
  proper: "hs_step p s s' \<Longrightarrow> hs_any_step p s s'"
| spurious: "i < length (h_clients s) \<Longrightarrow> h_clients s ! i = CBlocked \<Longrightarrow>
    hs_any_step p s (s\<lparr>h_clients := (h_clients s)[i := CWoken]\<rparr>)"

section \<open>Invariants\<close>

fun holds_mutex :: "client_pc \<Rightarrow> bool" where
  "holds_mutex CTest = True"
| "holds_mutex CPark = True"
| "holds_mutex CPassed = True"
| "holds_mutex _ = False"

fun published :: "server_pc \<Rightarrow> bool" where
  "published SSetup = False"
| "published SLock = False"
| "published SStore = False"
| "published _ = True"

definition owner_ok :: "handshake \<Rightarrow> bool" where
  "owner_ok s \<longleftrightarrow>
     (\<forall>i < length (h_clients s). holds_mutex (h_clients s ! i) \<longleftrightarrow> h_owner s = Some (Client i)) \<and>
     (\<forall>i. h_owner s = Some (Client i) \<longrightarrow> i < length (h_clients s))"

definition server_ok :: "publish \<Rightarrow> handshake \<Rightarrow> bool" where
  "server_ok p s \<longleftrightarrow>
     (h_owner s = Some Server \<longleftrightarrow> pub_locked p \<and> h_server s \<in> {SStore, SUnlock}) \<and>
     (h_server s \<in> {SLock, SUnlock} \<longrightarrow> pub_locked p)"

definition flag_ok :: "handshake \<Rightarrow> bool" where
  "flag_ok s \<longleftrightarrow> (h_flag s \<longleftrightarrow> published (h_server s)) \<and>
     (\<not> h_flag s \<longrightarrow> CPassed \<notin> set (h_clients s) \<and> CGone \<notin> set (h_clients s))"

lemma client_wake_simps [simp]: "holds_mutex (wake c) = holds_mutex c" "CPassed = wake c \<longleftrightarrow> c = CPassed" "CGone = wake c \<longleftrightarrow> c = CGone"
    "CBlocked \<noteq> wake c" "CPark = wake c \<longleftrightarrow> c = CPark"
  by (cases c; simp)+

text \<open>One client moves: its new state holds the mutex exactly when it is the new owner.\<close>

lemma owner_ok_move:
  assumes "owner_ok s" and "i < length (h_clients s)"
    and "holds_mutex c \<longleftrightarrow> o' = Some (Client i)"
    and "\<And>k. k \<noteq> i \<Longrightarrow> o' = Some (Client k) \<longleftrightarrow> h_owner s = Some (Client k)"
  shows "owner_ok (s\<lparr>h_owner := o', h_clients := (h_clients s)[i := c]\<rparr>)"
  using assms by (auto simp: owner_ok_def nth_list_update)

lemma owner_ok_stay:
  assumes "owner_ok s" and "i < length (h_clients s)" and "holds_mutex c \<longleftrightarrow> holds_mutex (h_clients s ! i)"
  shows "owner_ok (s\<lparr>h_clients := (h_clients s)[i := c]\<rparr>)"
  using assms by (simp add: owner_ok_def nth_list_update)

lemma owner_known:
  "owner_ok s \<Longrightarrow> i < length (h_clients s) \<Longrightarrow> holds_mutex (h_clients s ! i) \<Longrightarrow> h_owner s = Some (Client i)"
  by (simp add: owner_ok_def)

lemma publish_owner_ok:
  assumes "owner_ok s" and "server_ok p s" and "publish_step p j s = Some s'"
  shows "owner_ok s'"
proof (cases "h_server s = SNotify \<and> \<not> pub_all p \<and> CBlocked \<in> set (h_clients s)")
  case True
  then have "owner_ok (s\<lparr>h_clients := (h_clients s)[j := CWoken]\<rparr>)"
    using assms by (intro owner_ok_stay) (auto split: if_splits)
  then show ?thesis using True assms(3) by (auto simp: owner_ok_def split: if_splits)
next
  case False
  then show ?thesis using assms
    by (cases "h_server s") (auto simp: owner_ok_def server_ok_def split: if_splits)
qed

lemma wait_owner_ok:
  assumes "owner_ok s" and "wait_step i s = Some s'"
  shows "owner_ok s'"
proof -
  have i: "i < length (h_clients s)" using assms(2) by (simp split: if_splits)
  note move = owner_ok_move [OF assms(1) i] and stay = owner_ok_stay [OF assms(1) i]
  note owner = owner_known [OF assms(1) i]
  show ?thesis
  proof (cases "h_clients s ! i")
    case CTest
    then show ?thesis using assms(2) stay [of "if h_flag s then CPassed else CPark"] by (simp split: if_splits)
  qed (use assms(2) i owner move [of _ "Some (Client i)"] move [of _ None] in \<open>auto split: if_splits\<close>)
qed

lemma publish_server_ok: "server_ok p s \<Longrightarrow> publish_step p j s = Some s' \<Longrightarrow> server_ok p s'"
  by (cases "h_server s") (auto simp: server_ok_def split: if_splits)

lemma wait_server_ok:
  assumes "server_ok p s" and "owner_ok s" and "wait_step i s = Some s'"
  shows "server_ok p s'"
proof -
  have i: "i < length (h_clients s)" using assms(3) by (simp split: if_splits)
  then show ?thesis using assms owner_known [OF assms(2) i]
    by (cases "h_clients s ! i") (auto simp: server_ok_def split: if_splits)
qed

lemma notin_update: "c \<notin> set cs \<Longrightarrow> d \<noteq> c \<Longrightarrow> c \<notin> set (cs[i := d])"
  using set_update_subset_insert [of cs i d] by auto

lemma publish_flag_ok: "flag_ok s \<Longrightarrow> publish_step p j s = Some s' \<Longrightarrow> flag_ok s'"
  by (cases "h_server s") (auto simp: flag_ok_def notin_update split: if_splits)

lemma wait_flag_ok:
  assumes "flag_ok s" and "wait_step i s = Some s'"
  shows "flag_ok s'"
proof -
  have mem: "h_clients s ! i \<in> set (h_clients s)" using assms(2) by (simp split: if_splits)
  show ?thesis
    by (cases "h_clients s ! i") (use mem assms in \<open>auto simp: flag_ok_def notin_update split: if_splits\<close>)
qed

definition woken_ok :: "handshake \<Rightarrow> bool" where
  "woken_ok s \<longleftrightarrow> (CWoken \<in> set (h_clients s) \<longrightarrow> h_flag s)"

lemma publish_woken_ok: "flag_ok s \<Longrightarrow> publish_step p j s = Some s' \<Longrightarrow> woken_ok s \<Longrightarrow> woken_ok s'"
  by (cases "h_server s") (auto simp: woken_ok_def flag_ok_def split: if_splits)

lemma wait_woken_ok: "wait_step i s = Some s' \<Longrightarrow> woken_ok s \<Longrightarrow> woken_ok s'"
  using notin_update [of CWoken "h_clients s"]
  by (cases "h_clients s ! i") (auto simp: woken_ok_def split: if_splits)

definition hs_inv :: "publish \<Rightarrow> nat \<Rightarrow> handshake \<Rightarrow> bool" where
  "hs_inv p n s \<longleftrightarrow> owner_ok s \<and> server_ok p s \<and> flag_ok s \<and> length (h_clients s) = n"

lemma handshake_new_inv: "hs_inv p n (handshake_new n)"
  by (auto simp: hs_inv_def owner_ok_def server_ok_def flag_ok_def handshake_new_def)

lemma step_length:
  "publish_step p j s = Some s' \<Longrightarrow> length (h_clients s') = length (h_clients s)"
  "wait_step i s = Some s' \<Longrightarrow> length (h_clients s') = length (h_clients s)"
  by (cases "h_server s"; auto split: if_splits)
    (cases "h_clients s ! i"; auto split: if_splits)

lemma hs_step_inv: "hs_step p s s' \<Longrightarrow> hs_inv p n s \<Longrightarrow> hs_inv p n s'"
proof (induction rule: hs_step.induct)
  case (server j s s')
  then show ?case unfolding hs_inv_def
    using publish_owner_ok publish_server_ok publish_flag_ok step_length(1) by metis
next
  case (client i s s')
  then show ?case unfolding hs_inv_def
    using wait_owner_ok wait_server_ok wait_flag_ok step_length(2) by metis
qed

lemma hs_any_step_inv: "hs_any_step p s s' \<Longrightarrow> hs_inv p n s \<Longrightarrow> hs_inv p n s'"
proof (induction rule: hs_any_step.induct)
  case (spurious i s)
  then show ?case
    using owner_ok_stay [of s i CWoken]
    by (auto simp: hs_inv_def server_ok_def flag_ok_def dest!: set_update_subset_insert [THEN subsetD])
qed (rule hs_step_inv)

section \<open>When nothing moves any more\<close>

definition quiescent :: "publish \<Rightarrow> handshake \<Rightarrow> bool" where
  "quiescent p s \<longleftrightarrow> (\<forall>s'. \<not> hs_step p s s')"

lemma mutex_holder_moves:
  assumes "i < length (h_clients s)" and "holds_mutex (h_clients s ! i)"
  shows "\<exists>s'. hs_step p s s'"
proof -
  have "\<exists>s'. wait_step i s = Some s'" using assms by (cases "h_clients s ! i") auto
  then show ?thesis using hs_step.client by blast
qed

lemma quiescent_free:
  assumes "hs_inv p n s" and "quiescent p s" and "h_owner s \<noteq> Some Server"
  shows "h_owner s = None"
proof (rule ccontr)
  assume "h_owner s \<noteq> None"
  then obtain i where "h_owner s = Some (Client i)" using assms(3) by (metis option.exhaust owner.exhaust)
  then have "i < length (h_clients s)" "holds_mutex (h_clients s ! i)"
    using assms(1) by (auto simp: hs_inv_def owner_ok_def)
  then show False using mutex_holder_moves assms(2) by (auto simp: quiescent_def)
qed

lemma quiescent_iff:
  assumes "hs_inv p n s" and "quiescent p s"
  shows "h_server s = SDone" and "set (h_clients s) \<subseteq> {CBlocked, CGone}"
proof -
  have stuck: "publish_step p j s = None" "wait_step i s = None" for i j
    using assms(2) hs_step.intros unfolding quiescent_def by (metis option.exhaust)+
  have unowned: "h_owner s = None" if "h_owner s \<noteq> Some Server"
    using quiescent_free [OF assms that] .
  show at_end: "h_server s = SDone"
  proof (rule ccontr)
    assume nd: "h_server s \<noteq> SDone"
    have "h_server s = SLock \<Longrightarrow> h_owner s = None"
      using unowned assms(1) by (auto simp: hs_inv_def server_ok_def)
    moreover have "\<exists>j < length (h_clients s). h_clients s ! j = CBlocked" if "CBlocked \<in> set (h_clients s)"
      using that by (simp add: in_set_conv_nth)
    ultimately have "\<exists>j. publish_step p j s \<noteq> None" using nd by (cases "h_server s") auto
    then show False using stuck(1) by simp
  qed
  have free: "h_owner s = None" using at_end unowned assms(1) by (auto simp: hs_inv_def server_ok_def)
  have "h_clients s ! i \<in> {CBlocked, CGone}" if "i < length (h_clients s)" for i
    using stuck(2) [of i] that free by (cases "h_clients s ! i") auto
  then show "set (h_clients s) \<subseteq> {CBlocked, CGone}" by (metis in_set_conv_nth subsetI)
qed


section \<open>Runs end\<close>

fun server_rank :: "server_pc \<Rightarrow> nat" where
  "server_rank SSetup = 5"
| "server_rank SLock = 4"
| "server_rank SStore = 3"
| "server_rank SUnlock = 2"
| "server_rank SNotify = 1"
| "server_rank SDone = 0"

fun client_rank :: "bool \<Rightarrow> client_pc \<Rightarrow> nat" where
  "client_rank flag CLock = 7"
| "client_rank flag CTest = (if flag then 2 else 6)"
| "client_rank flag CPark = 5"
| "client_rank flag CBlocked = 4"
| "client_rank flag CWoken = 3"
| "client_rank flag CPassed = 1"
| "client_rank flag CGone = 0"

definition hs_measure :: "handshake \<Rightarrow> nat" where
  "hs_measure s = server_rank (h_server s) + sum_list (map (client_rank (h_flag s)) (h_clients s))"

lemma client_rank_less:
  "i < length cs \<Longrightarrow> client_rank f c < client_rank f (cs ! i) \<Longrightarrow>
     sum_list (map (client_rank f) (cs[i := c])) < sum_list (map (client_rank f) cs)"
  by (induction cs arbitrary: i) (auto simp: nth_Cons' list_update_def split: nat.split)

lemma client_rank_mono: "client_rank True c \<le> client_rank f c" "client_rank f (wake c) \<le> client_rank f c"
  by (cases c; simp)+

lemma publish_measure:
  assumes "publish_step p j s = Some s'"
  shows "hs_measure s' < hs_measure s"
proof -
  have flag: "sum_list (map (client_rank True) (h_clients s)) \<le> sum_list (map (client_rank (h_flag s)) (h_clients s))"
    by (intro sum_list_mono client_rank_mono)
  have all: "sum_list (map (client_rank (h_flag s) \<circ> wake) (h_clients s)) \<le> sum_list (map (client_rank (h_flag s)) (h_clients s))"
    by (intro sum_list_mono) (simp add: client_rank_mono)
  show ?thesis using assms flag all client_rank_less [of j "h_clients s" "h_flag s" CWoken]
    by (cases "h_server s") (auto simp: hs_measure_def less_imp_le split: if_splits)
qed

lemma wait_measure:
  assumes "woken_ok s" and "wait_step i s = Some s'"
  shows "hs_measure s' < hs_measure s"
proof -
  have i: "i < length (h_clients s)" using assms(2) by (simp split: if_splits)
  have "h_flag s" if "h_clients s ! i = CWoken" using that assms(1) i nth_mem by (fastforce simp: woken_ok_def)
  then have "\<exists>c. client_rank (h_flag s) c < client_rank (h_flag s) (h_clients s ! i) \<and>
      h_flag s' = h_flag s \<and> h_server s' = h_server s \<and> h_clients s' = (h_clients s)[i := c]"
    using assms(2) i by (cases "h_clients s ! i") (force split: if_splits)+
  then obtain c where "client_rank (h_flag s) c < client_rank (h_flag s) (h_clients s ! i)"
      "h_flag s' = h_flag s" "h_server s' = h_server s" "h_clients s' = (h_clients s)[i := c]" by blast
  then show ?thesis using client_rank_less [OF i] by (simp add: hs_measure_def)
qed

lemma hs_step_measure: "hs_step p s s' \<Longrightarrow> woken_ok s \<Longrightarrow> hs_measure s' < hs_measure s"
  by (erule hs_step.cases) (auto simp del: publish_step.simps wait_step.simps intro: publish_measure wait_measure)

lemma hs_step_woken: "hs_step p s s' \<Longrightarrow> hs_inv p n s \<Longrightarrow> woken_ok s \<Longrightarrow> woken_ok s'"
  by (erule hs_step.cases)
    (auto simp del: publish_step.simps wait_step.simps simp: hs_inv_def intro: publish_woken_ok wait_woken_ok)

abbreviation hs_reaches :: "publish \<Rightarrow> nat \<Rightarrow> handshake \<Rightarrow> bool" where
  "hs_reaches p n \<equiv> (hs_step p)\<^sup>*\<^sup>* (handshake_new n)"

lemma hs_reaches_inv: "hs_reaches p n s \<Longrightarrow> hs_inv p n s \<and> woken_ok s"
proof (induction rule: rtranclp_induct)
  case base
  show ?case by (simp add: handshake_new_inv) (auto simp: woken_ok_def handshake_new_def)
qed (auto intro: hs_step_inv hs_step_woken)

lemma hs_run_bound:
  assumes "(hs_step p ^^ k) (handshake_new n) s"
  shows "hs_measure s + k \<le> hs_measure (handshake_new n)"
  using assms
proof (induction k arbitrary: s)
  case (Suc k)
  then obtain t where t: "(hs_step p ^^ k) (handshake_new n) t" "hs_step p t s" by auto
  then have "hs_measure s < hs_measure t"
    using hs_reaches_inv hs_step_measure relpowp_imp_rtranclp by metis
  then show ?case using Suc.IH [OF t(1)] by simp
qed simp

lemma run_to_quiescence:
  "hs_inv p n s \<Longrightarrow> woken_ok s \<Longrightarrow> \<exists>s'. (hs_step p)\<^sup>*\<^sup>* s s' \<and> quiescent p s'"
proof (induction "hs_measure s" arbitrary: s rule: less_induct)
  case less
  show ?case
  proof (cases "quiescent p s")
    case False
    then obtain t where t: "hs_step p s t" by (auto simp: quiescent_def)
    then show ?thesis
      using less.hyps [OF hs_step_measure [OF t less.prems(2)]] less.prems hs_step_inv hs_step_woken
      by (meson converse_rtranclp_into_rtranclp)
  qed blast
qed


section \<open>A wake-up can be lost\<close>

text \<open>With the mutex held for the store no client can be between its test and its wait when the
  flag is set, and the notification comes after it.\<close>

definition parked_ok :: "publish \<Rightarrow> handshake \<Rightarrow> bool" where
  "parked_ok p s \<longleftrightarrow> (pub_locked p \<longrightarrow>
     (h_flag s \<longrightarrow> CPark \<notin> set (h_clients s)) \<and> (h_server s = SDone \<longrightarrow> CBlocked \<notin> set (h_clients s)))"

lemma no_park_while_server_owns:
  "owner_ok s \<Longrightarrow> h_owner s = Some Server \<Longrightarrow> CPark \<notin> set (h_clients s)"
  by (auto simp: owner_ok_def in_set_conv_nth)

lemma single_update: "length cs \<le> 1 \<Longrightarrow> j < length cs \<Longrightarrow> set (cs[j := c]) = {c}"
  by (cases cs) auto

lemma publish_parked_ok:
  assumes "parked_ok p s" and "hs_inv p n s" and "pub_all p \<or> n \<le> 1" and "publish_step p j s = Some s'"
  shows "parked_ok p s'"
proof (cases "h_server s")
  case SStore
  then have "CPark \<notin> set (h_clients s)" if "pub_locked p"
    using that assms(2) no_park_while_server_owns [of s] by (simp add: hs_inv_def server_ok_def)
  then show ?thesis using SStore assms(4) by (auto simp: parked_ok_def)
next
  case SNotify
  have flag: "h_flag s" using SNotify assms(2) by (simp add: hs_inv_def flag_ok_def)
  consider "pub_all p" | "\<not> pub_all p" "CBlocked \<notin> set (h_clients s)"
    | "\<not> pub_all p" "s' = s\<lparr>h_clients := (h_clients s)[j := CWoken], h_server := SDone\<rparr>" "j < length (h_clients s)"
    using SNotify assms(4) by (auto split: if_splits)
  then show ?thesis
  proof cases
    case 3
    then have "set (h_clients s') = {CWoken}"
      using assms(2,3) single_update [of "h_clients s" j CWoken] by (simp add: hs_inv_def)
    then show ?thesis by (simp add: parked_ok_def)
  qed (use SNotify assms(1,4) flag in \<open>auto simp: parked_ok_def\<close>)
qed (use assms(1,4) in \<open>auto simp: parked_ok_def split: if_splits\<close>)

lemma wait_parked_ok:
  assumes "parked_ok p s" and "hs_inv p n s" and "wait_step i s = Some s'"
  shows "parked_ok p s'"
proof -
  have i: "i < length (h_clients s)" using assms(3) by (simp split: if_splits)
  have "h_flag s" if "h_server s = SDone" using assms(2) that by (simp add: hs_inv_def flag_ok_def)
  moreover have "CPark \<in> set (h_clients s)" if "h_clients s ! i = CPark" using i that nth_mem by metis
  ultimately show ?thesis using assms(1,3) i
    by (cases "h_clients s ! i")
      (auto simp: parked_ok_def split: if_splits dest!: set_update_subset_insert [THEN subsetD])
qed

lemma hs_reaches_parked:
  assumes "pub_all p \<or> n \<le> 1" and "hs_reaches p n s"
  shows "parked_ok p s"
  using assms(2)
proof (induction rule: rtranclp_induct)
  case base
  show ?case by (simp add: parked_ok_def handshake_new_def)
next
  case (step s s')
  have "hs_inv p n s" using hs_reaches_inv [OF step.hyps(1)] by simp
  with step show ?case
    by (auto elim!: hs_step.cases simp del: publish_step.simps wait_step.simps
        intro: publish_parked_ok [OF _ _ assms(1)] wait_parked_ok)
qed

text \<open>The lost wake-up: the first client has tested the flag, the server stores and notifies, then
  the client blocks.\<close>

lemma blocked_forever:
  assumes "hs_step p s s'" and "h_server s = SDone" and "h_clients s ! i = CBlocked"
  shows "h_server s' = SDone \<and> h_clients s' ! i = CBlocked"
  using assms(1)
proof cases
  case (client k)
  then show ?thesis using assms(2,3)
    by (cases "k = i"; cases "h_clients s ! k") (auto split: if_splits)
qed (use assms in simp)

lemma blocked_forever_run:
  "(hs_step p)\<^sup>*\<^sup>* s s' \<Longrightarrow> h_server s = SDone \<Longrightarrow> h_clients s ! i = CBlocked \<Longrightarrow>
     h_server s' = SDone \<and> h_clients s' ! i = CBlocked"
  by (induction rule: rtranclp_induct) (auto dest: blocked_forever)

lemma lost_wakeup_run:
  assumes "\<not> pub_locked p" and "0 < n"
  shows "\<exists>s. hs_reaches p n s \<and> h_server s = SDone \<and> h_clients s ! 0 = CBlocked"
proof -
  let ?s = "\<lambda>f ow sv c. \<lparr>h_flag = f, h_owner = ow, h_server = sv, h_clients = (replicate n CLock)[0 := c]\<rparr>"
  note into = rtranclp.rtrancl_into_rtrancl [of "hs_step p" "handshake_new n"]
  note client = hs_step.client [where i = 0] and server = hs_step.server [where j = 0]
  have cs: "map wake ((replicate n CLock)[0 := CPark]) = (replicate n CLock)[0 := CPark]"
      "CBlocked \<notin> set ((replicate n CLock)[0 := CPark])"
    by (auto simp: map_update dest!: set_update_subset_insert [THEN subsetD])
  have "hs_reaches p n (?s False (Some (Client 0)) SSetup CTest)"
    using assms by (intro r_into_rtranclp client) (simp add: handshake_new_def)
  then have "hs_reaches p n (?s False (Some (Client 0)) SSetup CPark)"
    by (rule into) (rule client, use assms in simp)
  then have "hs_reaches p n (?s False (Some (Client 0)) SStore CPark)"
    by (rule into) (rule server, use assms in simp)
  then have "hs_reaches p n (?s True (Some (Client 0)) SNotify CPark)"
    by (rule into) (rule server, use assms in simp)
  then have "hs_reaches p n (?s True (Some (Client 0)) SDone CPark)"
    by (rule into) (rule server, use assms cs in simp)
  then have "hs_reaches p n (?s True None SDone CBlocked)"
    by (rule into) (rule client, use assms in simp)
  then show ?thesis using assms(2)
    by (intro exI [of _ "?s True None SDone CBlocked"]) simp
qed


section \<open>The programs\<close>

text \<open>\<^verbatim>\<open>tcp_rest\<close> and \<^verbatim>\<open>sigurg\<close> have one client and notify one, \<^verbatim>\<open>api\<close> has four clients and
  notifies all; all three store the flag without the mutex.\<close>

definition tcp_publish :: publish where
  "tcp_publish = \<lparr>pub_locked = False, pub_all = False\<rparr>"

definition urg_publish :: publish where
  "urg_publish = \<lparr>pub_locked = False, pub_all = False\<rparr>"

definition api_publish :: publish where
  "api_publish = \<lparr>pub_locked = False, pub_all = True\<rparr>"

text \<open>No client goes on before the server has finished its set-up (so none connects before
  \<^verbatim>\<open>listen\<close> was called), in every interleaving, spurious wake-ups included.\<close>

theorem clients_wait_for_setup:
  assumes "(hs_any_step p)\<^sup>*\<^sup>* (handshake_new n) s" and "c \<in> set (h_clients s)" and "c \<in> {CPassed, CGone}"
  shows "published (h_server s)"
proof -
  have "hs_inv p n s" using assms(1)
    by (induction rule: rtranclp_induct) (auto intro: handshake_new_inv hs_any_step_inv)
  then show ?thesis using assms(2,3) by (auto simp: hs_inv_def flag_ok_def)
qed

text \<open>C21: The hand-shake always comes to an end, after at most \<open>7 n + 5\<close> steps; and since the flag is
  stored without the mutex, it can end with the server gone on and a client blocked for good, which
  would be impossible had the server held the mutex: the client tested the flag, the server stored
  and notified, and the client blocked after that.\<close>

theorem handshake_ends:
  assumes "pub_all p \<or> n \<le> 1" and "0 < n"
  shows "(\<forall>k s. (hs_step p ^^ k) (handshake_new n) s \<longrightarrow> k \<le> 7 * n + 5) \<and>
         ((\<exists>s. hs_reaches p n s \<and> quiescent p s \<and> CBlocked \<in> set (h_clients s)) \<longleftrightarrow> \<not> pub_locked p)"
proof (intro conjI allI impI iffI)
  fix k s assume "(hs_step p ^^ k) (handshake_new n) s"
  from hs_run_bound [OF this] show "k \<le> 7 * n + 5"
    by (simp add: hs_measure_def handshake_new_def sum_list_replicate)
next
  assume "\<exists>s. hs_reaches p n s \<and> quiescent p s \<and> CBlocked \<in> set (h_clients s)"
  then obtain s where s: "hs_reaches p n s" "quiescent p s" "CBlocked \<in> set (h_clients s)" by blast
  then have "h_server s = SDone" using quiescent_iff hs_reaches_inv by blast
  then show "\<not> pub_locked p" using hs_reaches_parked [OF assms(1) s(1)] s(3) by (auto simp: parked_ok_def)
next
  assume "\<not> pub_locked p"
  from lost_wakeup_run [OF this assms(2)] obtain s where
    s: "hs_reaches p n s" "h_server s = SDone" "h_clients s ! 0 = CBlocked" by blast
  obtain s' where s': "(hs_step p)\<^sup>*\<^sup>* s s'" "quiescent p s'"
    using run_to_quiescence hs_reaches_inv [OF s(1)] by blast
  have "hs_reaches p n s'" using s(1) s'(1) by (rule rtranclp_trans)
  moreover from this have "length (h_clients s') = n" using hs_reaches_inv by (auto simp: hs_inv_def)
  ultimately show "\<exists>s. hs_reaches p n s \<and> quiescent p s \<and> CBlocked \<in> set (h_clients s)"
    using blocked_forever_run [OF s'(1) s(2,3)] s'(2) assms(2) nth_mem by metis
qed

lemma handshake_ends_witness:
  "(\<exists>s. hs_reaches tcp_publish 1 s \<and> quiescent tcp_publish s \<and> CBlocked \<in> set (h_clients s)) \<and>
   (\<exists>s. hs_reaches api_publish 4 s \<and> quiescent api_publish s \<and> CBlocked \<in> set (h_clients s)) \<and>
   (\<nexists>s. hs_reaches \<lparr>pub_locked = True, pub_all = True\<rparr> 4 s \<and> quiescent \<lparr>pub_locked = True, pub_all = True\<rparr> s \<and>
        CBlocked \<in> set (h_clients s))"
  using handshake_ends [of tcp_publish 1] handshake_ends [of api_publish 4]
    handshake_ends [of "\<lparr>pub_locked = True, pub_all = True\<rparr>" 4]
  by (simp add: tcp_publish_def api_publish_def)

lemma clients_wait_for_setup_witness:
  "\<exists>s. (hs_any_step urg_publish)\<^sup>*\<^sup>* (handshake_new 1) s \<and> h_clients s = [CPassed] \<and> published (h_server s)"
proof -
  let ?s = "\<lambda>f ow sv c. \<lparr>h_flag = f, h_owner = ow, h_server = sv, h_clients = [c]\<rparr>"
  note into = rtranclp.rtrancl_into_rtrancl [of "hs_any_step urg_publish" "handshake_new 1"]
  note client = hs_any_step.proper [OF hs_step.client [where i = 0]]
    and server = hs_any_step.proper [OF hs_step.server [where j = 0]]
  have "(hs_any_step urg_publish)\<^sup>*\<^sup>* (handshake_new 1) (?s False None SStore CLock)"
    by (intro r_into_rtranclp server) (simp add: handshake_new_def urg_publish_def)
  then have "(hs_any_step urg_publish)\<^sup>*\<^sup>* (handshake_new 1) (?s True None SNotify CLock)"
    by (rule into) (rule server, simp add: urg_publish_def)
  then have "(hs_any_step urg_publish)\<^sup>*\<^sup>* (handshake_new 1) (?s True (Some (Client 0)) SNotify CTest)"
    by (rule into) (rule client, simp)
  then have run: "(hs_any_step urg_publish)\<^sup>*\<^sup>* (handshake_new 1) (?s True (Some (Client 0)) SNotify CPassed)"
    by (rule into) (rule client, simp)
  from clients_wait_for_setup [OF run, of CPassed] run show ?thesis
    by (intro exI [of _ "?s True (Some (Client 0)) SNotify CPassed"]) simp
qed

end
