(* ===== verification/Demo_Threads.thy ===== *)
theory Demo_Threads
  imports C_String Flag_Wait Sockops
begin

text \<open>
  The bodies of the threads of \<^verbatim>\<open>set/tcp_rest\<close>, \<^verbatim>\<open>set/api\<close> and \<^verbatim>\<open>set/sigurg\<close> as traces of system
  calls.  The waits on the condition variable are the hand-shake of \<open>Flag_Wait\<close>; they make no
  call that is recorded here.  The programs only print what fails and go on, so most results are
  not looked at.
\<close>

definition MSG_OOB :: int where "MSG_OOB = 1"
definition SIGURG :: int where "SIGURG = 23"
definition sizeof_text :: nat where "sizeof_text = 1024"

section \<open>tcp_rest\<close>

text \<open>\<^verbatim>\<open>main.cpp\<close>: connects also when there is no socket.\<close>

definition reset_probe :: "world \<Rightarrow> int \<times> world" where
  "reset_probe w =
     (let (s, w1) = invoke SysSocket w;
          (_, w2) = invoke (SysConnect (ans_ret s)) w1
      in (0, w2))"

definition tcp_open :: "world \<Rightarrow> int \<times> world" where
  "tcp_open w =
     (let (s, w1) = invoke SysSocket w;
          (_, w2) = invoke (SysSetsockopt (ans_ret s) IPPROTO_TCP TCP_NODELAY) w1
      in (ans_ret s, w2))"

text \<open>One \<^verbatim>\<open>write\<close> of the zeroed buffer; when it fails the descriptor is closed and the client
  returns, otherwise it goes on with \<open>k\<close>.\<close>

definition write_or_close :: "int \<Rightarrow> (world \<Rightarrow> world) \<Rightarrow> world \<Rightarrow> world" where
  "write_or_close fd k w =
     (let (a, w1) = invoke (SysWrite fd (zeros sizeof_text)) w in
      if ans_ret a < 0 then snd (invoke (SysClose fd) w1) else k w1)"

definition tcp2_client :: "world \<Rightarrow> world" where
  "tcp2_client w =
     (let (fd, w1) = tcp_open w;
          (c, w2) = invoke (SysConnect fd) w1
      in if ans_ret c < 0 then w2
         else write_or_close fd (write_or_close fd (\<lambda>w3. w3)) w2)"

definition tcp3_client :: "world \<Rightarrow> world" where
  "tcp3_client w =
     (let (fd, w1) = tcp_open w;
          (c, w2) = invoke (SysConnect fd) w1
      in if ans_ret c < 0 then w2
         else write_or_close fd (write_or_close fd (write_or_close fd
                (\<lambda>w3. snd (invoke (SysClose fd) w3)))) w2)"

definition tcp_server_start :: "world \<Rightarrow> int \<times> world" where
  "tcp_server_start w =
     (let (fd, w1) = tcp_open w;
          (_, w2) = invoke (SysBind fd) w1;
          (_, w3) = invoke (SysListen fd 100) w2
      in (fd, w3))"

definition tcp2_server_start :: "world \<Rightarrow> int \<times> world" where
  "tcp2_server_start w =
     (let (fd, w1) = tcp_open w;
          (_, w2) = invoke (SysBind fd) w1;
          (_, w3) = invoke (SysListen fd 100) w2
      in (fd, w3))"

text \<open>Both programs block \<^verbatim>\<open>SIGPIPE\<close> before they start their threads, so that a write to a closed
  connection is an error and not the end of the process.\<close>

definition SIG_SETMASK :: int where "SIG_SETMASK = 2"
definition SIGPIPE :: int where "SIGPIPE = 13"

definition tcp2_main :: "world \<Rightarrow> world" where
  "tcp2_main w = snd (invoke (SysOther ''sigprocmask'' [SIG_SETMASK, SIGPIPE]) w)"

definition tcp3_main :: "world \<Rightarrow> world" where
  "tcp3_main w = snd (invoke (SysOther ''sigprocmask'' [SIG_SETMASK, SIGPIPE]) w)"

definition tcp2_server_turn :: "int \<Rightarrow> world \<Rightarrow> world" where
  "tcp2_server_turn fd w =
     (let (a, w1) = invoke (SysAccept fd) w in snd (invoke (SysClose (ans_ret a)) w1))"

definition tcp3_server_turn :: "int \<Rightarrow> world \<Rightarrow> world" where
  "tcp3_server_turn fd w =
     (let (a, w1) = invoke (SysAccept fd) w;
          (_, w2) = invoke (SysRead (ans_ret a)) w1
      in snd (invoke (SysClose (ans_ret a)) w2))"

section \<open>api and sigurg\<close>

text \<open>The clients: bind, wait, connect, send four bytes as urgent data.  The two programs have the
  same code from the connect on.\<close>

definition urgent_text :: "u8 list" where
  "urgent_text = [49, 50, 51, 52]"

definition connect_and_send :: "int \<Rightarrow> world \<Rightarrow> world" where
  "connect_and_send fd w =
     (let (c, w1) = invoke (SysConnect fd) w in
      if ans_ret c \<noteq> -1
      then let (_, w2) = invoke (SysSend fd urgent_text MSG_OOB) w1 in snd (invoke (SysClose fd) w2)
      else w1)"

definition api_client :: "world \<Rightarrow> world" where
  "api_client w =
     (let (s, w1) = invoke SysSocket w;
          (_, w2) = invoke (SysBind (ans_ret s)) w1
      in connect_and_send (ans_ret s) w2)"

definition api1_client :: "world \<Rightarrow> world" where
  "api1_client w =
     (let (s, w1) = invoke SysSocket w;
          (_, w2) = invoke (SysBind (ans_ret s)) w1
      in connect_and_send (ans_ret s) w2)"

text \<open>The arguments of the client threads \<^verbatim>\<open>api/main.cpp\<close> starts: the address to connect to and the
  local one.\<close>

definition api_main :: "(string \<times> string option) list" where
  "api_main = [(''127.0.0.1'', Some ''172.16.5.4''), (''172.16.5.4'', Some ''127.0.0.1''),
               (''127.0.0.1'', None), (''172.16.5.4'', None)]"

definition urg_client :: "world \<Rightarrow> world" where
  "urg_client w =
     (let (s, w1) = invoke SysSocket w;
          (_, w2) = invoke (SysBind (ans_ret s)) w1
      in connect_and_send (ans_ret s) w2)"

text \<open>The servers' set-up; \<^verbatim>\<open>api/main1.cpp\<close> has the call of \<^verbatim>\<open>listen\<close> commented out.\<close>

definition reuse_open :: "world \<Rightarrow> int \<times> world" where
  "reuse_open w =
     (let (s, w1) = invoke SysSocket w;
          (_, w2) = invoke (SysSetsockopt (ans_ret s) SOL_SOCKET SO_REUSEADDR) w1;
          (_, w3) = invoke (SysSetsockopt (ans_ret s) SOL_SOCKET SO_REUSEPORT) w2
      in (ans_ret s, w3))"

definition api_server_start :: "world \<Rightarrow> int \<times> world" where
  "api_server_start w =
     (let (fd, w1) = reuse_open w;
          (_, w2) = invoke (SysBind fd) w1;
          (_, w3) = invoke (SysListen fd 100) w2
      in (fd, w3))"

definition api1_server_start :: "world \<Rightarrow> int \<times> world" where
  "api1_server_start w =
     (let (fd, w1) = reuse_open w; (_, w2) = invoke (SysBind fd) w1 in (fd, w2))"

definition urg_server_start :: "world \<Rightarrow> int \<times> world" where
  "urg_server_start w =
     (let (s, w1) = invoke SysSocket w;
          (_, w2) = invoke (SysBind (ans_ret s)) w1;
          (_, w3) = invoke (SysListen (ans_ret s) 100) w2
      in (ans_ret s, w3))"

text \<open>The family in the cleared address after \<^verbatim>\<open>getsockname\<close> or \<^verbatim>\<open>getpeername\<close>.\<close>

definition named_family :: "answer \<Rightarrow> int" where
  "named_family a = (if ans_ret a < 0 then 0 else ans_out a)"

definition api_server_turn :: "int \<Rightarrow> world \<Rightarrow> (cxx_error + unit) \<times> world" where
  "api_server_turn fd w =
     (let (c, w1) = invoke (SysAccept fd) w; connectfd = ans_ret c;
          (_, w2) = invoke (SysRecv connectfd 0) w1;
          (s, w3) = invoke (SysGetsockname connectfd) w2
      in if named_family s \<noteq> AF_INET then (Inl AssertionFailed, w3)
         else let (p, w4) = invoke (SysGetpeername connectfd) w3 in
           if named_family p \<noteq> AF_INET then (Inl AssertionFailed, w4)
           else (Inr (), snd (invoke (SysClose connectfd) w4)))"

partial_function (option) api_server_loop :: "int \<Rightarrow> world \<Rightarrow> (cxx_error \<times> world) option" where
  "api_server_loop fd w =
     (case api_server_turn fd w of
        (Inl e, w1) \<Rightarrow> Some (e, w1)
      | (Inr _, w1) \<Rightarrow> api_server_loop fd w1)"

text \<open>\<^verbatim>\<open>api/main1.cpp\<close> has the same server without the call of \<^verbatim>\<open>listen\<close>, and its \<^verbatim>\<open>main\<close> only waits for it.\<close>

definition api1_main :: "world \<Rightarrow> (cxx_error \<times> world) option" where
  "api1_main w = (let (fd, w1) = api1_server_start w in api_server_loop fd w1)"

text \<open>\<^verbatim>\<open>sigurg\<close>: the same buffer receives the normal and then the urgent data and is printed after
  each.\<close>

definition addsig :: "int \<Rightarrow> world \<Rightarrow> world" where
  "addsig sig w = snd (invoke (SysSigaction sig) w)"

definition urg_server_turn :: "int \<Rightarrow> world \<Rightarrow> cxx_error + u8 list \<times> u8 list \<times> world" where
  "urg_server_turn fd w =
     (let (c, w1) = invoke (SysAccept fd) w; connectfd = ans_ret c;
          w2 = addsig SIGURG w1;
          (_, w3) = invoke (SysSetown connectfd) w2;
          (r, w4) = invoke (SysRecv connectfd 0) w3;
          buf = received r (zeros sizeof_text)
      in and_then (print_cstring buf) (\<lambda>first.
         let (u, w5) = invoke (SysRecv connectfd MSG_OOB) w4 in
         and_then (print_cstring (received u buf)) (\<lambda>second.
         Inr (first, second, snd (invoke (SysClose connectfd) w5)))))"


section \<open>What is closed\<close>

lemmas trace_simps = split_beta Let_def nth_answer_simps eval_nat_numeral

lemma write_or_close_trace:
  assumes "extends_world w w1"
  shows "calls_since w (write_or_close fd k w1) =
    (if ans_ret (nth_answer w1 0) < 0
     then calls_since w w1 @ [SysWrite fd (zeros sizeof_text), SysClose fd]
     else calls_since w (k (snd (invoke (SysWrite fd (zeros sizeof_text)) w1))))"
  using assms by (simp add: write_or_close_def trace_simps)

text \<open>The client of \<^verbatim>\<open>tcp_rest/main3.cpp\<close>: when it could connect it closes its descriptor exactly
  once and as the last thing it does, whichever write fails; when it could not connect it never
  closes it.\<close>

theorem tcp3_client_closes:
  "let fd = ans_ret (nth_answer w 0); calls = calls_since w (tcp3_client w) in
     if ans_ret (nth_answer w 2) < 0 then SysClose fd \<notin> set calls
     else last calls = SysClose fd \<and> count_list calls (SysClose fd) = 1"
  by (simp add: tcp3_client_def tcp_open_def write_or_close_trace trace_simps)

text \<open>The client of \<^verbatim>\<open>main2.cpp\<close> closes only after a failed write.\<close>

theorem tcp2_client_leaks:
  "SysClose (ans_ret (nth_answer w 0)) \<in> set (calls_since w (tcp2_client w)) \<longleftrightarrow>
     0 \<le> ans_ret (nth_answer w 2) \<and> (ans_ret (nth_answer w 3) < 0 \<or> ans_ret (nth_answer w 4) < 0)"
  by (auto simp: tcp2_client_def tcp_open_def write_or_close_trace trace_simps)

text \<open>The servers close whatever \<^verbatim>\<open>accept\<close> returned, \<open>-1\<close> included.\<close>

lemma tcp_server_turns:
  "calls_since w (tcp2_server_turn fd w) = [SysAccept fd, SysClose (ans_ret (nth_answer w 0))]"
  "calls_since w (tcp3_server_turn fd w) =
     [SysAccept fd, SysRead (ans_ret (nth_answer w 0)), SysClose (ans_ret (nth_answer w 0))]"
  by (simp_all add: tcp2_server_turn_def tcp3_server_turn_def trace_simps)

text \<open>The threads start with \<^verbatim>\<open>SIGPIPE\<close> blocked, and both servers set up the same listener.\<close>

lemma tcp_set_up:
  "calls_since w (snd (tcp2_server_start (tcp2_main w))) =
     (let fd = ans_ret (nth_answer w 1) in
      [SysOther ''sigprocmask'' [SIG_SETMASK, SIGPIPE], SysSocket, SysSetsockopt fd IPPROTO_TCP TCP_NODELAY,
       SysBind fd, SysListen fd 100])"
  "tcp2_server_start w = tcp_server_start w" "tcp3_main w = tcp2_main w"
  by (simp_all add: tcp2_main_def tcp3_main_def tcp2_server_start_def tcp_server_start_def tcp_open_def trace_simps)

lemma urgent_clients_trace:
  "calls_since w (api_client w) =
     (let fd = ans_ret (nth_answer w 0) in
      [SysSocket, SysBind fd, SysConnect fd] @
      (if ans_ret (nth_answer w 2) = -1 then [] else [SysSend fd urgent_text MSG_OOB, SysClose fd]))"
  "urg_client w = api_client w" "api1_client w = api_client w"
  by (simp_all add: api_client_def urg_client_def api1_client_def connect_and_send_def trace_simps)

section \<open>The server of api\<close>

lemma api_turn_outcome:
  "fst (api_server_turn fd w) =
     (if named_family (nth_answer w 2) = AF_INET \<and> named_family (nth_answer w 3) = AF_INET
      then Inr () else Inl AssertionFailed)"
  "fst (api_server_turn fd w) = Inr () \<Longrightarrow>
     calls_since w (snd (api_server_turn fd w)) =
       (let c = ans_ret (nth_answer w 0) in
        [SysAccept fd, SysRecv c 0, SysGetsockname c, SysGetpeername c, SysClose c])"
  by (auto simp: api_server_turn_def trace_simps split: if_splits)

text \<open>Without \<^verbatim>\<open>listen\<close> the first \<^verbatim>\<open>accept\<close> fails, and so does \<^verbatim>\<open>getsockname\<close> on its result: the server
  stops in its first turn with the descriptor open.\<close>

lemma api1_main_dies:
  assumes "ans_ret (nth_answer w 6) < 0"
  shows "\<exists>w'. api1_main w = Some (AssertionFailed, w')"
proof -
  obtain fd w1 where st: "api1_server_start w = (fd, w1)" by fastforce
  then have "nth_answer w1 2 = nth_answer w 6"
    by (auto simp: api1_server_start_def reuse_open_def trace_simps)
  then have "fst (api_server_turn fd w1) = Inl AssertionFailed"
    using assms by (simp add: api_turn_outcome(1) named_family_def AF_INET_def)
  then show ?thesis
    by (cases "api_server_turn fd w1") (simp add: api1_main_def st api_server_loop.simps [of fd w1])
qed

fun api_turns :: "nat \<Rightarrow> int \<Rightarrow> world \<Rightarrow> world" where
  "api_turns 0 fd w = w"
| "api_turns (Suc n) fd w = api_turns n fd (snd (api_server_turn fd w))"

definition api_turn_fails :: "int \<Rightarrow> nat \<Rightarrow> world \<Rightarrow> bool" where
  "api_turn_fails fd n w \<longleftrightarrow> ans_ret (nth_answer (api_turns n fd w) 2) < 0"

text \<open>One connection of which \<^verbatim>\<open>getsockname\<close> cannot tell the address, as is the case for the
  descriptor \<open>-1\<close> that a failed \<^verbatim>\<open>accept\<close> leaves, ends the server with a failed assertion: its loop
  returns, in the turn of the first such connection or before.\<close>

theorem api_server_dies:
  assumes "api_turn_fails fd n w"
  shows "\<exists>w'. api_server_loop fd w = Some (AssertionFailed, w')"
  using assms
proof (induction n arbitrary: w)
  case 0
  then have "fst (api_server_turn fd w) = Inl AssertionFailed"
    by (simp add: api_turn_outcome(1) api_turn_fails_def named_family_def AF_INET_def)
  then show ?case by (cases "api_server_turn fd w") (simp add: api_server_loop.simps [of fd w])
next
  case (Suc n)
  obtain r w1 where turn: "api_server_turn fd w = (r, w1)" by fastforce
  then have "r = Inr () \<or> r = Inl AssertionFailed" using api_turn_outcome(1) [of fd w] by (auto split: if_splits)
  then show ?case
  proof
    assume "r = Inr ()"
    then show ?thesis
      using turn Suc.IH [of w1] Suc.prems by (simp add: api_server_loop.simps [of fd w] api_turn_fails_def)
  qed (use turn in \<open>simp add: api_server_loop.simps [of fd w]\<close>)
qed

text \<open>Without \<^verbatim>\<open>listen\<close> (\<^verbatim>\<open>api/main1.cpp\<close>) already the first \<^verbatim>\<open>accept\<close> fails.\<close>

lemma api_server_dies_witness:
  "\<exists>w'. api_server_loop 3 (script [fails 22, fails 9, fails 9]) = Some (AssertionFailed, w')"
  by (rule api_server_dies [where n = 0]) (simp add: api_turn_fails_def nth_answer_script fails_def)

section \<open>Urgent data\<close>

text \<open>The server prints the normal data, and then the urgent byte followed by the rest of the
  normal data, since the buffer is not cleared in between; when there is no urgent data it prints
  the normal data twice.\<close>

theorem urgent_byte_over_normal_data:
  assumes "nth_answer w 3 = delivers_bytes (m # ms)" and "0 \<notin> set (m # ms)" and "Suc (length ms) < sizeof_text"
    and "nth_answer w 4 = delivers_bytes [b] \<and> b \<noteq> 0 \<or> ans_ret (nth_answer w 4) < 0 \<and> b = m"
  shows "\<exists>w'. urg_server_turn fd w = Inr (m # ms, b # ms, w') \<and>
           last (calls_since w w') = SysClose (ans_ret (nth_answer w 0))"
proof -
  let ?buf = "recv_into (m # ms) (zeros sizeof_text)"
  have first: "print_cstring ?buf = Inr (m # ms)" using assms(2,3) by (intro print_fresh) simp_all
  have second: "print_cstring (received (nth_answer w 4) ?buf) = Inr (b # ms)"
    using assms(4)
  proof
    assume "nth_answer w 4 = delivers_bytes [b] \<and> b \<noteq> 0"
    then show ?thesis using print_over [OF first, of "[b]"] by simp
  qed (use first in \<open>simp add: received_def\<close>)
  then show ?thesis using first assms(1)
    by (simp add: urg_server_turn_def addsig_def trace_simps)
qed

text \<open>The client sends \<^verbatim>\<open>1234\<close> as urgent data: \<^verbatim>\<open>123\<close> arrives as normal data and \<^verbatim>\<open>4\<close> is urgent.\<close>

lemma urgent_byte_over_normal_data_witness:
  "\<exists>w'. urg_server_turn 3 (script [returns 4, returns 0, returns 0, delivers_bytes (butlast urgent_text),
             delivers_bytes [last urgent_text]]) = Inr ([49, 50, 51], [52, 50, 51], w')"
proof -
  let ?w = "script [returns 4, returns 0, returns 0, delivers_bytes (butlast urgent_text), delivers_bytes [last urgent_text]]"
  have "\<exists>w'. urg_server_turn 3 ?w = Inr (49 # [50, 51], 52 # [50, 51], w') \<and>
      last (calls_since ?w w') = SysClose (ans_ret (nth_answer ?w 0))"
    by (rule urgent_byte_over_normal_data) (simp_all add: nth_answer_script urgent_text_def sizeof_text_def)
  then show ?thesis by auto
qed

end
