(* ===== verification/Rest_Session.thy ===== *)
theory Rest_Session
  imports Flag_Wait
begin





section \<open>The threads\<close>






section \<open>Order of events\<close>





















section \<open>Runs end\<close>























section \<open>Properties\<close>





end
