(* ===== verification/Sample_Programs.thy ===== *)
theory Sample_Programs
  imports C_String Sockops
begin

text \<open>
  The samples without threads: \<^verbatim>\<open>set/abstractunix\<close> (a service on an abstract socket and its
  client), \<^verbatim>\<open>set/muticast\<close> (a multicast sender and receiver), \<^verbatim>\<open>set/sample\<close> (socket options and
  name look-ups) and \<^verbatim>\<open>set/macro\<close> (names of functions).
\<close>

section \<open>abstractunix\<close>

definition MAX_CONNECT_NUM :: int where "MAX_CONNECT_NUM = 10"
definition BUFFER_SIZE :: nat where "BUFFER_SIZE = 1024"

definition service_start :: "world \<Rightarrow> int run \<times> world" where
  "service_start w =
     (let (s, w1) = invoke SysSocket w; fd = ans_ret s in
      if fd < 0 then (Exit (-1), w1)
      else let (b, w2) = invoke (SysBind fd) w1 in
        if ans_ret b < 0 then (Exit (-1), w2)
        else let (l, w3) = invoke (SysListen fd MAX_CONNECT_NUM) w2 in
          if ans_ret l < 0 then (Exit (-1), w3) else (Go fd, w3))"

text \<open>One turn of the loop: whether it reports a connection.\<close>

definition service_turn :: "int \<Rightarrow> world \<Rightarrow> bool \<times> world" where
  "service_turn fd w =
     (let (a, w1) = invoke (SysAccept fd) w; new_fd = ans_ret a in
      if new_fd < 0 \<and> w_errno w1 = EAGAIN then (False, w1) else (new_fd > 0, w1))"

fun service_turns :: "nat \<Rightarrow> int \<Rightarrow> world \<Rightarrow> nat \<times> world" where
  "service_turns 0 fd w = (0, w)"
| "service_turns (Suc n) fd w =
     (let (ok, w1) = service_turn fd w; (k, w2) = service_turns n fd w1
      in ((if ok then Suc k else k), w2))"

definition abstract_client_start :: "world \<Rightarrow> int run \<times> world" where
  "abstract_client_start w =
     (let (s, w1) = invoke SysSocket w; sock_fd = ans_ret s in
      if sock_fd < 0 then (Exit (-1), w1)
      else let (b, w2) = invoke (SysBind sock_fd) w1 in
        if ans_ret b < 0 then (Exit (-1), w2)
        else let (c, w3) = invoke (SysConnect sock_fd) w2 in
          if ans_ret c < 0 then (Exit (-1), w3) else (Go sock_fd, w3))"

definition abstract_client_turn :: "int \<Rightarrow> world \<Rightarrow> world" where
  "abstract_client_turn sock_fd w =
     snd (invoke (SysSend sock_fd ([1, 2, 3] @ zeros (BUFFER_SIZE - 3)) 0) w)"

section \<open>muticast\<close>

definition IPPROTO_IP :: int where "IPPROTO_IP = 0"
definition IP_ADD_MEMBERSHIP :: int where "IP_ADD_MEMBERSHIP = 35"
definition sizeof_datagram :: nat where "sizeof_datagram = 1024"

definition muticast_client_start :: "world \<Rightarrow> int run \<times> world" where
  "muticast_client_start w =
     (let (s, w1) = invoke SysSocket w; sockfd = ans_ret s in
      if sockfd = -1 then (Exit (-1), w1)
      else let (o1, w2) = invoke (SysSetsockopt sockfd IPPROTO_IP IP_ADD_MEMBERSHIP) w1 in
        if ans_ret o1 = -1 then (Exit (-1), w2)
        else let (b, w3) = invoke (SysBind sockfd) w2 in
          if ans_ret b = -1 then (Exit (-1), w3) else (Go sockfd, w3))"

text \<open>The receive loop on the buffer \<open>buf\<close>: the lines it prints, in order.\<close>

partial_function (option) muticast_client_loop ::
  "int \<Rightarrow> u8 list \<Rightarrow> u8 list list \<Rightarrow> world \<Rightarrow> (cxx_error + u8 list list \<times> world) option" where
  "muticast_client_loop sockfd buf out w =
     (let (a, w1) = invoke (SysRecvfrom sockfd) w in
      if ans_ret a = -1 then Some (Inr (out, snd (invoke (SysClose sockfd) w1)))
      else let buf1 = received a buf in
        case print_cstring buf1 of
          Inl e \<Rightarrow> Some (Inl e)
        | Inr line \<Rightarrow> muticast_client_loop sockfd buf1 (out @ [line]) w1)"

definition muticast_client :: "world \<Rightarrow> (cxx_error + int \<times> u8 list list) option" where
  "muticast_client w =
     (case muticast_client_start w of
        (Exit e, _) \<Rightarrow> Some (Inr (e, []))
      | (Go fd, w1) \<Rightarrow>
          map_option (\<lambda>r. case r of Inl e \<Rightarrow> Inl e | Inr (out, _) \<Rightarrow> Inr (0, out))
            (muticast_client_loop fd (zeros sizeof_datagram) [] w1))"

partial_function (option) muticast_server_loop :: "int \<Rightarrow> world \<Rightarrow> world option" where
  "muticast_server_loop sockfd w =
     (let (a, w1) = invoke (SysSendto sockfd (zeros sizeof_datagram)) w in
      if ans_ret a = -1 then Some (snd (invoke (SysClose sockfd) w1))
      else muticast_server_loop sockfd w1)"

definition muticast_server :: "world \<Rightarrow> (int \<times> world) option" where
  "muticast_server w =
     (let (s, w1) = invoke SysSocket w; sockfd = ans_ret s in
      if sockfd = -1 then Some (-1, w1)
      else map_option (\<lambda>w2. (0, w2)) (muticast_server_loop sockfd w1))"

section \<open>sample\<close>

text \<open>The five options in the order they are asked for; a variable keeps its zero when the call
  fails.\<close>

definition sample_option :: "int \<Rightarrow> world \<Rightarrow> int \<times> world" where
  "sample_option so w =
     (let (a, w1) = invoke (SysGetsockopt so) w in (if ans_ret a < 0 then 0 else ans_out a, w1))"

definition sample_options :: "world \<Rightarrow> int list \<times> world" where
  "sample_options w =
     (let (s, w0) = invoke SysSocket w; so = ans_ret s;
          (max_seg_size, w1) = sample_option so w0;
          (recv_buf_size, w2) = sample_option so w1;
          (send_buf_size, w3) = sample_option so w2;
          (recv_lowat, w4) = sample_option so w3;
          (send_lowat, w5) = sample_option so w4
      in ([max_seg_size, recv_buf_size, send_buf_size, recv_lowat, send_lowat], w5))"

record host_info =
  hi_aliases :: "string list"
  hi_addrtype :: int
  hi_addrs :: "u32 list"

datatype sample_line = Alias nat string | AddressType bool | Address nat u32 | AddressError

definition numbered :: "(nat \<Rightarrow> 'a \<Rightarrow> 'b) \<Rightarrow> 'a list \<Rightarrow> 'b list" where
  "numbered f xs = map2 f [1..<Suc (length xs)] xs"

definition sample_host :: "host_info option \<Rightarrow> sample_line list" where
  "sample_host h =
     (case h of
        None \<Rightarrow> [AddressError]
      | Some info \<Rightarrow> numbered Alias (hi_aliases info) @ [AddressType (hi_addrtype info = AF_INET)] @
                     numbered Address (hi_addrs info))"

text \<open>An entry of the list of \<^verbatim>\<open>getaddrinfo\<close>: the family, the bytes of the socket address and the
  canonical name, which only the first entry has.  \<^verbatim>\<open>inet_ntop\<close> reads four or sixteen bytes and
  knows no other family.  The walk ends at the first entry without a text.\<close>

definition AF_INET6 :: int where "AF_INET6 = 10"

record addr_entry =
  ae_family :: int
  ae_addr :: "u8 list"
  ae_canonname :: "string option"

definition inet_ntop :: "int \<Rightarrow> u8 list \<Rightarrow> u8 list option" where
  "inet_ntop family bs =
     (if family = AF_INET then Some (take 4 bs)
      else if family = AF_INET6 then Some (take 16 bs) else None)"

datatype walk_line = EntryType bool | EntryAddress "u8 list" | EntryName "string option" | NtopError

fun sample_walk :: "addr_entry list \<Rightarrow> walk_line list" where
  "sample_walk [] = []"
| "sample_walk (rp # rps) =
     EntryType (ae_family rp = AF_INET) #
     (case inet_ntop (ae_family rp) (ae_addr rp) of
        None \<Rightarrow> [NtopError]
      | Some t \<Rightarrow> EntryAddress t # EntryName (ae_canonname rp) # sample_walk rps)"

text \<open>
  The look-up before the walk: \<open>Inl e\<close> is an error of \<^verbatim>\<open>getaddrinfo\<close>, which is printed; the
  flag says whether the list is freed.
\<close>

definition sample_lookup :: "int + addr_entry list \<Rightarrow> (int + walk_line list) \<times> bool" where
  "sample_lookup r = (case r of Inl e \<Rightarrow> (Inl e, False) | Inr es \<Rightarrow> (Inr (sample_walk es), True))"

section \<open>algor\<close>

text \<open>\<^verbatim>\<open>example::add\<close>: a sum outside the range of \<^verbatim>\<open>int\<close> has no defined value.\<close>

definition add :: "int \<Rightarrow> int \<Rightarrow> int option" where
  "add a b = (let s = a + b in if - (2 ^ 31) \<le> s \<and> s < 2 ^ 31 then Some s else None)"

lemma add_test: "add 1 1 = Some 2"
  by (simp add: add_def)

lemma add_defined_iff:
  assumes "- (2 ^ 31) \<le> a" and "a < 2 ^ 31" and "- (2 ^ 31) \<le> b" and "b < 2 ^ 31"
  shows "add a b = Some (sint (word_of_int a + word_of_int b :: u32)) \<longleftrightarrow> - (2 ^ 31) \<le> a + b \<and> a + b < 2 ^ 31"
proof -
  have "sint (word_of_int a + word_of_int b :: u32) = signed_take_bit 31 (a + b)"
    by (simp add: sint_uint uint_word_of_int_eq signed_take_bit_take_bit flip: of_int_add)
  then show ?thesis by (auto simp: add_def Let_def signed_take_bit_int_eq_self)
qed

text \<open>\<^verbatim>\<open>struct sockaddr_in\<close> in memory: the family in host order, port and address in network order.\<close>

definition sockaddr_in_bytes :: "u8 \<Rightarrow> u8 \<Rightarrow> u8 list \<Rightarrow> u8 list" where
  "sockaddr_in_bytes port_hi port_lo ip = [2, 0, port_hi, port_lo] @ ip @ zeros 8"

section \<open>What the programs do\<close>

lemma service_turn_eq:
  "service_turn fd w = (0 < ans_ret (next_answer w), snd (invoke (SysAccept fd) w))"
  by (auto simp: service_turn_def split_beta Let_def)

text \<open>The service accepts for ever and keeps every descriptor it gets.\<close>

theorem service_never_closes:
  "calls_since w (snd (service_turns n fd w)) = replicate n (SysAccept fd)"
  "fst (service_turns n fd w) = card {k. k < n \<and> 0 < ans_ret (nth_answer w k)}"
proof -
  have "extends_world w (snd (service_turns n fd w)) \<and>
      calls_since w (snd (service_turns n fd w)) = replicate n (SysAccept fd)" for w
  proof (induction n arbitrary: w)
    case (Suc n)
    let ?w1 = "snd (invoke (SysAccept fd) w)"
    have "extends_world w ?w1" "calls_since w ?w1 = [SysAccept fd]" by simp_all
    then show ?case
      using Suc.IH [of ?w1] extends_world_trans [of w ?w1 "snd (service_turns n fd ?w1)"]
        calls_since_trans [of w ?w1 "snd (service_turns n fd ?w1)"]
      by (simp add: service_turn_eq split_beta Let_def)
  qed simp
  then show "calls_since w (snd (service_turns n fd w)) = replicate n (SysAccept fd)" ..
  show "fst (service_turns n fd w) = card {k. k < n \<and> 0 < ans_ret (nth_answer w k)}"
  proof (induction n arbitrary: w)
    case (Suc n)
    have "{k. k < Suc n \<and> 0 < ans_ret (nth_answer w k)} =
        (if 0 < ans_ret (nth_answer w 0) then {0} else {}) \<union> Suc ` {k. k < n \<and> 0 < ans_ret (nth_answer w (Suc k))}"
      by (auto simp: less_Suc_eq_0_disj)
    then show ?case
      by (simp add: service_turn_eq split_beta Let_def Suc.IH nth_answer_simps card_image card_insert_if)
  qed simp
qed

section \<open>The multicast receiver\<close>

text \<open>The buffer is never cleared: it holds a text and zeros behind it, and a datagram replaces the
  front of the text.\<close>

definition overlay :: "u8 list \<Rightarrow> u8 list \<Rightarrow> u8 list" where
  "overlay old msg = msg @ drop (length msg) old"

fun overlays :: "u8 list \<Rightarrow> u8 list list \<Rightarrow> u8 list list" where
  "overlays old [] = []"
| "overlays old (m # ms) = overlay old m # overlays (overlay old m) ms"

definition shows_text :: "u8 list \<Rightarrow> u8 list \<Rightarrow> bool" where
  "shows_text old buf \<longleftrightarrow> buf = old @ zeros (sizeof_datagram - length old) \<and>
     length old < sizeof_datagram \<and> 0 \<notin> set old"

lemma shows_text_overlay:
  assumes "shows_text old buf" and "0 \<notin> set m" and "length m < sizeof_datagram"
  shows "shows_text (overlay old m) (recv_into m buf)" and "print_cstring (recv_into m buf) = Inr (overlay old m)"
proof -
  have len: "length (overlay old m) = max (length m) (length old)" by (auto simp: overlay_def)
  have "0 \<notin> set (overlay old m)" using assms(1,2) by (auto simp: overlay_def shows_text_def dest: in_set_dropD)
  moreover have "recv_into m buf = overlay old m @ zeros (sizeof_datagram - length (overlay old m))"
    using assms(1) by (auto simp: shows_text_def recv_into_def overlay_def zeros_def max_def)
  ultimately show shown: "shows_text (overlay old m) (recv_into m buf)"
    using assms(1,3) len by (auto simp: shows_text_def)
  then obtain k where "recv_into m buf = overlay old m @ 0 # zeros k"
    unfolding shows_text_def zeros_def by (metis Suc_diff_Suc replicate_Suc)
  then show "print_cstring (recv_into m buf) = Inr (overlay old m)"
    using shown print_split [of "overlay old m" "zeros k"] unfolding shows_text_def by metis
qed

lemma muticast_loop_overlays:
  assumes "shows_text old buf" and "\<forall>m \<in> set ms. 0 \<notin> set m \<and> length m < sizeof_datagram"
    and "\<forall>k < length ms. nth_answer w k = delivers_bytes (ms ! k)"
    and "ans_ret (nth_answer w (length ms)) = -1"
  shows "\<exists>w'. muticast_client_loop fd buf out w = Some (Inr (out @ overlays old ms, w'))"
  using assms
proof (induction ms arbitrary: old buf out w)
  case Nil
  then show ?case
    by (simp add: muticast_client_loop.simps [of fd buf out w] split_beta Let_def nth_answer_simps)
next
  case (Cons m ms)
  let ?w1 = "snd (invoke (SysRecvfrom fd) w)"
  have m: "0 \<notin> set m" "length m < sizeof_datagram" and a: "nth_answer w 0 = delivers_bytes m"
    using Cons.prems(2,3) by auto
  note shown = shows_text_overlay [OF Cons.prems(1) m]
  have "\<forall>k < length ms. nth_answer ?w1 k = delivers_bytes (ms ! k)" "ans_ret (nth_answer ?w1 (length ms)) = -1"
    using Cons.prems(3,4) by (auto simp: nth_answer_simps)
  then have "\<exists>w'. muticast_client_loop fd (recv_into m buf) (out @ [overlay old m]) ?w1 =
      Some (Inr ((out @ [overlay old m]) @ overlays (overlay old m) ms, w'))"
    using Cons.prems(2) by (intro Cons.IH [OF shown(1)]) auto
  moreover have "ans_ret (delivers_bytes m) \<noteq> -1" by (simp add: delivers_bytes_def)
  ultimately show ?case using shown(2) a
    by (simp add: muticast_client_loop.simps [of fd buf out w] split_beta Let_def nth_answer_simps)
qed

text \<open>The multicast receiver prints, for every datagram, the datagram and behind it the part of the
  older texts it did not overwrite; it prints the datagrams as they came when none is shorter than
  the one before.\<close>

theorem muticast_client_prints:
  assumes "0 \<le> ans_ret (nth_answer w 0)" "0 \<le> ans_ret (nth_answer w 1)" "0 \<le> ans_ret (nth_answer w 2)"
    and "\<forall>m \<in> set ms. 0 \<notin> set m \<and> length m < sizeof_datagram"
    and "\<forall>k < length ms. nth_answer w (k + 3) = delivers_bytes (ms ! k)"
    and "ans_ret (nth_answer w (length ms + 3)) = -1"
  shows "muticast_client w = Some (Inr (0, overlays [] ms)) \<and>
         (sorted (map length ms) \<longrightarrow> overlays [] ms = ms)"
proof
  let ?fd = "ans_ret (nth_answer w 0)"
  let ?w1 = "snd (invoke (SysBind ?fd) (snd (invoke (SysSetsockopt ?fd IPPROTO_IP IP_ADD_MEMBERSHIP) (snd (invoke SysSocket w)))))"
  have start: "muticast_client_start w = (Go ?fd, ?w1)"
    using assms(1-3) by (simp add: muticast_client_start_def split_beta Let_def nth_answer_simps eval_nat_numeral)
  have "shows_text [] (zeros sizeof_datagram)" by (simp add: shows_text_def sizeof_datagram_def)
  then obtain w' where "muticast_client_loop ?fd (zeros sizeof_datagram) [] ?w1 = Some (Inr ([] @ overlays [] ms, w'))"
    using muticast_loop_overlays [of "[]" "zeros sizeof_datagram" ms ?w1 ?fd "[]"] assms(4-6)
    by (auto simp: nth_answer_simps eval_nat_numeral)
  then show "muticast_client w = Some (Inr (0, overlays [] ms))"
    by (simp add: muticast_client_def start)
  have "overlays old ms = ms" if "sorted (map length (old # ms))" for old
    using that by (induction ms arbitrary: old) (auto simp: overlay_def)
  from this [of "[]"] show "sorted (map length ms) \<longrightarrow> overlays [] ms = ms" by simp
qed

lemma muticast_client_prints_witness:
  "muticast_client (script [returns 3, returns 0, returns 0, delivers_bytes [104, 101, 121], delivers_bytes [111],
      fails EINTR]) = Some (Inr (0, [[104, 101, 121], [111, 101, 121]]))"
  using muticast_client_prints [of "script [returns 3, returns 0, returns 0, delivers_bytes [104, 101, 121],
      delivers_bytes [111], fails EINTR]" "[[104, 101, 121], [111]]"]
  by (simp add: nth_answer_script returns_def fails_def overlay_def sizeof_datagram_def All_less_Suc2)

text \<open>The sender of the sample sends buffers of zeros: an empty line at the receiver.\<close>

lemma zeros_print_empty: "print_cstring (recv_into (zeros sizeof_datagram) buf) = Inr []"
  by (simp add: print_cstring_def recv_into_def zeros_def sizeof_datagram_def eval_nat_numeral)

text \<open>The sender ends only when a send fails, and then closes its socket.\<close>

lemma muticast_server_ends:
  assumes "\<forall>k < n. ans_ret (nth_answer w k) \<noteq> -1" and "ans_ret (nth_answer w n) = -1"
  shows "\<exists>w'. muticast_server_loop fd w = Some w' \<and> extends_world w w' \<and>
           calls_since w w' = replicate (Suc n) (SysSendto fd (zeros sizeof_datagram)) @ [SysClose fd]"
  using assms
proof (induction n arbitrary: w)
  case 0
  then show ?case
    by (simp add: muticast_server_loop.simps [of fd w] split_beta Let_def nth_answer_simps)
next
  case (Suc n)
  let ?w1 = "snd (invoke (SysSendto fd (zeros sizeof_datagram)) w)"
  obtain w' where w': "muticast_server_loop fd ?w1 = Some w'" "extends_world ?w1 w'"
      "calls_since ?w1 w' = replicate (Suc n) (SysSendto fd (zeros sizeof_datagram)) @ [SysClose fd]"
    using Suc.IH [of ?w1] Suc.prems by (auto simp: nth_answer_simps)
  have "extends_world w ?w1" by simp
  from extends_world_trans [OF this w'(2)] calls_since_trans [OF this w'(2)] show ?case
    using w' Suc.prems(1) by (simp add: muticast_server_loop.simps [of fd w] split_beta Let_def nth_answer_simps)
qed

section \<open>The address that is printed\<close>

text \<open>For an IPv4 entry the walk prints the family and the port as if they were the address: the
  pointer passed is the one to the socket address, not to the address in it.\<close>

theorem sample_walk_prints_port:
  assumes "ae_family rp = AF_INET" and "ae_addr rp = sockaddr_in_bytes hi lo ip"
  shows "sample_walk (rp # rps) =
    EntryType True # EntryAddress [2, 0, hi, lo] # EntryName (ae_canonname rp) # sample_walk rps"
  using assms by (simp add: inet_ntop_def sockaddr_in_bytes_def)

section \<open>The names of functions\<close>

text \<open>
  \<^verbatim>\<open>set/macro\<close>: the lines it prints.  \<^verbatim>\<open>__func__\<close> is the name of the function it stands in, which for
  a lambda is \<^verbatim>\<open>operator()\<close>; what it is outside of functions, and in the initialiser of a member, is
  the compiler's choice and an argument here.
\<close>

definition macro_main :: "string \<Rightarrow> string \<Rightarrow> string \<Rightarrow> string list" where
  "macro_main out_func out_func1 class_func =
     [''lambda '' @ ''operator()'', ''normal '' @ ''main'', ''out func '' @ out_func,
      ''class_func '' @ class_func, ''lambda '' @ ''operator()'', ''out func1 '' @ out_func1]"

text \<open>The comments of the source expect \<open>top level\<close> for the three names the language leaves open.\<close>

lemma macro_main_top_level:
  "macro_main ''top level'' ''top level'' ''top level'' ! 2 = ''out func top level''"
  "macro_main a b c ! 0 = macro_main a b c ! 4"
  by (simp_all add: macro_main_def)

end
