(* ===== verification/Load_Generator.thy ===== *)
theory Load_Generator
  imports Sockops C_String
begin

text \<open>
  \<^verbatim>\<open>set/echo_fd/echo.client.cpp\<close>: a load generator.  It reads the names of network devices from a
  file, one byte at a time, looks up the address of each and starts a thread that connects from this
  address to the echo server again and again.
\<close>

section \<open>One connection\<close>

definition STDIN_FILENO :: int where "STDIN_FILENO = 0"

definition load_echo_client :: "bool \<Rightarrow> world \<Rightarrow> int run \<times> world" where
  "load_echo_client addr_ok w =
     (let (s, w1) = invoke SysSocket w; sock_fd = ans_ret s in
      if sock_fd < 0 then (Exit (-1), w1)
      else let (d, w2) = invoke SysOpen w1;
               (_, w3) = invoke (SysDup (ans_ret d)) w2;
               (_, w4) = invoke (SysSetsockopt sock_fd SOL_SOCKET SO_REUSEADDR) w3;
               (_, w5) = invoke (SysSetsockopt sock_fd SOL_SOCKET SO_REUSEPORT) w4;
               (b, w6) = invoke (SysBind sock_fd) w5
           in if ans_ret b \<noteq> 0 then (Exit (-1), w6)
              else if \<not> addr_ok then (Exit (-1), w6)
              else let (c, w7) = invoke (SysConnect sock_fd) w6 in
                if ans_ret c \<noteq> 0 then (Go (-1), w7) else (Go 0, w7))"

text \<open>The body of a thread: the results are ignored.\<close>

fun load_thread :: "nat \<Rightarrow> bool \<Rightarrow> world \<Rightarrow> unit run \<times> world" where
  "load_thread 0 addr_ok w = (Go (), w)"
| "load_thread (Suc j) addr_ok w =
     (let (r, w1) = load_echo_client addr_ok w in
      case r of Exit c \<Rightarrow> (Exit c, w1) | Go _ \<Rightarrow> load_thread j addr_ok w1)"

definition load_count :: nat where "load_count = 28000"

section \<open>The address of a device\<close>

record ifreq =
  ifrn_name :: "u8 list"
  ifr_addr :: u32

definition max_ifreqs :: nat where "max_ifreqs = 10"

text \<open>What the kernel answers: to \<^verbatim>\<open>socket\<close>, to \<^verbatim>\<open>SIOCGIFCONF\<close> (at most as many entries as there is
  room for) and to \<^verbatim>\<open>SIOCGIFADDR\<close> for the entry with a number; a failed call leaves the entry as it
  was.\<close>

record if_env =
  ie_socket :: int
  ie_conf_ret :: int
  ie_conf :: "ifreq list"
  ie_addr :: "nat \<Rightarrow> u32 option"

fun find_device :: "if_env \<Rightarrow> nat \<Rightarrow> ifreq list \<Rightarrow> u8 list \<Rightarrow> u32" where
  "find_device env i [] dev = 0"
| "find_device env i (r # rs) dev =
     (let r1 = (case ie_addr env i of None \<Rightarrow> r | Some a \<Rightarrow> r\<lparr>ifr_addr := a\<rparr>) in
      if ifrn_name r1 = cstr dev then ifr_addr r1 else find_device env (Suc i) rs dev)"

definition get_local_ip :: "if_env \<Rightarrow> u8 list \<Rightarrow> u32" where
  "get_local_ip env dev =
     (if ie_socket env < 0 then -1
      else if ie_conf_ret env < 0 then -1
      else find_device env 0 (take max_ifreqs (ie_conf env)) dev)"

section \<open>The list of devices\<close>

datatype read_result = ReadByte u8 | ReadEnd | ReadFail

record device_loop =
  dl_buf :: u8
  dl_name :: "u8 list"
  dl_started :: "u32 list"

definition newline :: u8 where "newline = 10"

text \<open>The part of the loop behind the condition: a read that failed leaves the byte of the one
  before.\<close>

definition device_byte :: "(u8 list \<Rightarrow> u32) \<Rightarrow> u8 \<Rightarrow> device_loop \<Rightarrow> device_loop" where
  "device_byte lookup c d =
     (if c \<noteq> newline then d\<lparr>dl_buf := c, dl_name := dl_name d @ [c]\<rparr>
      else let ip = lookup (dl_name d) in
        d\<lparr>dl_buf := c, dl_name := [], dl_started := (if ip = 0 then dl_started d else dl_started d @ [ip])\<rparr>)"

text \<open>The loop over the results of \<^verbatim>\<open>read\<close>; the flag says whether it has ended.\<close>

fun read_devices :: "(u8 list \<Rightarrow> u32) \<Rightarrow> read_result list \<Rightarrow> device_loop \<Rightarrow> bool \<times> device_loop" where
  "read_devices lookup [] d = (False, d)"
| "read_devices lookup (ReadEnd # rs) d = (True, d)"
| "read_devices lookup (ReadByte c # rs) d = read_devices lookup rs (device_byte lookup c d)"
| "read_devices lookup (ReadFail # rs) d = read_devices lookup rs (device_byte lookup (dl_buf d) d)"

definition load_main :: "if_env \<Rightarrow> int \<Rightarrow> read_result list \<Rightarrow> u8 \<Rightarrow> bool \<times> device_loop" where
  "load_main env devfd rs junk =
     (if devfd < 0 then (True, \<lparr>dl_buf = junk, dl_name = [], dl_started = []\<rparr>)
      else read_devices (get_local_ip env) rs \<lparr>dl_buf = junk, dl_name = [], dl_started = []\<rparr>)"

section \<open>What the file says\<close>

text \<open>The lines of a file that end with a newline, and what follows the last newline.\<close>

fun complete_lines :: "u8 list \<Rightarrow> u8 list \<Rightarrow> u8 list list" where
  "complete_lines cur [] = []"
| "complete_lines cur (c # cs) =
     (if c = newline then cur # complete_lines [] cs else complete_lines (cur @ [c]) cs)"

fun last_line :: "u8 list \<Rightarrow> u8 list \<Rightarrow> u8 list" where
  "last_line cur [] = cur"
| "last_line cur (c # cs) = (if c = newline then last_line [] cs else last_line (cur @ [c]) cs)"

lemma read_devices_bytes:
  "read_devices lookup (map ReadByte bs @ [ReadEnd]) d =
     (True, d\<lparr>dl_buf := last (dl_buf d # bs), dl_name := last_line (dl_name d) bs,
              dl_started := dl_started d @ filter (\<lambda>ip. ip \<noteq> 0) (map lookup (complete_lines (dl_name d) bs))\<rparr>)"
  by (induction bs arbitrary: d) (auto simp: device_byte_def Let_def)

lemma complete_lines_join:
  assumes "\<forall>l \<in> set ls. newline \<notin> set l" and "newline \<notin> set r"
  shows "complete_lines [] (concat (map (\<lambda>l. l @ [newline]) ls) @ r) = ls \<and>
         last_line [] (concat (map (\<lambda>l. l @ [newline]) ls) @ r) = r"
proof -
  have pre: "complete_lines cur (l @ cs) = complete_lines (cur @ l) cs \<and> last_line cur (l @ cs) = last_line (cur @ l) cs"
    if "newline \<notin> set l" for cur l cs using that by (induction l arbitrary: cur) auto
  show ?thesis using assms
  proof (induction ls)
    case Nil
    then show ?case using pre [of r "[]" "[]"] by simp
  next
    case (Cons l ls)
    then show ?case using pre [of l "[]"] by simp
  qed
qed

text \<open>For a file of complete lines and a rest without newline, a thread is started for exactly
  the complete lines that name a device whose address is not zero, in their order; the rest is
  never looked up.\<close>

theorem load_main_starts:
  assumes "0 \<le> devfd" and "\<forall>l \<in> set ls. newline \<notin> set l" and "newline \<notin> set r"
  shows "\<exists>d. load_main env devfd (map ReadByte (concat (map (\<lambda>l. l @ [newline]) ls) @ r) @ [ReadEnd]) junk = (True, d) \<and>
           dl_started d = filter (\<lambda>ip. ip \<noteq> 0) (map (get_local_ip env) ls) \<and> dl_name d = r"
  using assms complete_lines_join [OF assms(2,3)]
  by (simp add: load_main_def read_devices_bytes del: map_append)

text \<open>A read that fails does not end the loop: it goes on with the byte it has, for ever.\<close>

theorem failed_reads_never_end:
  "dl_buf d \<noteq> newline \<Longrightarrow>
     read_devices lookup (replicate n ReadFail) d = (False, d\<lparr>dl_name := dl_name d @ replicate n (dl_buf d)\<rparr>)"
  by (induction n arbitrary: d) (auto simp: device_byte_def replicate_append_same)

text \<open>The first device with the name decides; an error looks like an address.\<close>

lemma get_local_ip_found:
  assumes "0 \<le> ie_socket env" and "0 \<le> ie_conf_ret env" and "i < length (ie_conf env)" and "i < max_ifreqs"
    and "ifrn_name (ie_conf env ! i) = cstr dev" and "\<forall>j < i. ifrn_name (ie_conf env ! j) \<noteq> cstr dev"
  shows "get_local_ip env dev = (case ie_addr env i of None \<Rightarrow> ifr_addr (ie_conf env ! i) | Some a \<Rightarrow> a)"
proof -
  have "find_device env k (take n rs) dev = (case ie_addr env (k + i) of None \<Rightarrow> ifr_addr (rs ! i) | Some a \<Rightarrow> a)"
    if "i < length rs" "i < n" "ifrn_name (rs ! i) = cstr dev" "\<forall>j < i. ifrn_name (rs ! j) \<noteq> cstr dev" for k n i and rs :: "ifreq list"
    using that
  proof (induction rs arbitrary: i k n)
    case (Cons r rs)
    have name: "ifrn_name (case ie_addr env k of None \<Rightarrow> r | Some a \<Rightarrow> r\<lparr>ifr_addr := a\<rparr>) = ifrn_name r"
      by (simp split: option.split)
    show ?case
    proof (cases i)
      case 0
      then show ?thesis using Cons.prems name by (cases n) (auto simp: Let_def split: option.split)
    next
      case (Suc j)
      have "ifrn_name r \<noteq> cstr dev" using Cons.prems(4) Suc by auto
      moreover have "\<forall>m < j. ifrn_name (rs ! m) \<noteq> cstr dev" using Cons.prems(4) Suc by auto
      ultimately show ?thesis using Cons.prems Suc name Cons.IH [of j "n - 1" "Suc k"]
        by (cases n) (auto simp: Let_def split: option.splits)
    qed
  qed simp
  from this [of i "ie_conf env" max_ifreqs 0] show ?thesis using assms by (simp add: get_local_ip_def)
qed

lemma get_local_ip_error:
  "ie_socket env < 0 \<or> ie_conf_ret env < 0 \<Longrightarrow> get_local_ip env dev = -1 \<and> get_local_ip env dev \<noteq> 0"
  by (auto simp: get_local_ip_def)

section \<open>Descriptors\<close>

lemma load_echo_client_trace:
  "extends_world w (snd (load_echo_client ok w)) \<and>
   (\<forall>fd. SysClose fd \<notin> set (calls_since w (snd (load_echo_client ok w)))) \<and>
   (\<forall>r. fst (load_echo_client ok w) = Go r \<longrightarrow>
      count_list (calls_since w (snd (load_echo_client ok w))) SysSocket = 1 \<and>
      count_list (calls_since w (snd (load_echo_client ok w))) SysOpen = 1)"
  by (simp add: load_echo_client_def Let_def split_beta)

text \<open>A thread never closes a descriptor: after \<open>n\<close> connections it holds \<open>n\<close> sockets and has opened
  the input file \<open>n\<close> times.\<close>

theorem load_thread_leaks:
  assumes "load_thread n addr_ok w = (r, w')"
  shows "(\<forall>fd. SysClose fd \<notin> set (calls_since w w')) \<and>
         (r = Go () \<longrightarrow> count_list (calls_since w w') SysSocket = n \<and> count_list (calls_since w w') SysOpen = n)"
proof -
  have "extends_world w w' \<and> (\<forall>fd. SysClose fd \<notin> set (calls_since w w')) \<and>
      (r = Go () \<longrightarrow> count_list (calls_since w w') SysSocket = n \<and> count_list (calls_since w w') SysOpen = n)"
    using assms
  proof (induction n arbitrary: w)
    case (Suc n)
    obtain q w1 where one: "load_echo_client addr_ok w = (q, w1)" by fastforce
    note t = load_echo_client_trace [of w addr_ok, unfolded one fst_conv snd_conv]
    show ?case
    proof (cases q)
      case (Go x)
      have rest: "load_thread n addr_ok w1 = (r, w')" using Suc.prems one Go by simp
      note ih = Suc.IH [OF rest]
      have ext: "extends_world w w1" "extends_world w1 w'" using t ih by auto
      show ?thesis using t ih Go extends_world_trans [OF ext] calls_since_trans [OF ext] by simp
    next
      case (Exit c)
      then show ?thesis using Suc.prems one t by auto
    qed
  qed simp
  then show ?thesis by blast
qed

section \<open>Concrete runs\<close>

definition two_devices :: if_env where
  "two_devices = \<lparr>ie_socket = 3, ie_conf_ret = 0,
     ie_conf = [\<lparr>ifrn_name = [108, 111], ifr_addr = 0x0100007F\<rparr>, \<lparr>ifrn_name = [101], ifr_addr = 0x0500000A\<rparr>],
     ie_addr = (\<lambda>_. None)\<rparr>"

lemma load_main_starts_witness:
  "\<exists>d. load_main two_devices 4 (map ReadByte ([101, 10, 120, 10] @ [108, 111]) @ [ReadEnd]) 0 = (True, d) \<and>
     dl_started d = [0x0500000A] \<and> dl_name d = [108, 111]"
  using load_main_starts [of 4 "[[101], [120]]" "[108, 111]" two_devices 0]
  by (simp add: newline_def get_local_ip_def two_devices_def max_ifreqs_def cstr_def)

lemma load_thread_leaks_witness:
  "count_list (calls_since (script []) (snd (load_thread 2 True (script [])))) SysSocket = 2"
  using load_thread_leaks [of 2 True "script []" "Go ()" "snd (load_thread 2 True (script []))"]
  by (simp add: load_echo_client_def Let_def split_beta numeral_2_eq_2 nth_answer_simps nth_answer_script returns_def)

end
