(* ===== verification/Kprobe.thy ===== *)
theory Kprobe
  imports Prelude
begin

text \<open>
  The kernel module of \<^verbatim>\<open>src/set/hook/kprobe_example.c\<close>: the probe, its registration and the
  three handlers.  \<^verbatim>\<open>register_kprobe\<close> and \<^verbatim>\<open>unregister_kprobe\<close> belong to the kernel and
  are arguments.  The handler runs on every processor that executes \<^verbatim>\<open>do_fork\<close>, and
  \<^verbatim>\<open>total_count++\<close> is a load and a store: the steps of different calls interleave.  The counter is a
  32 bit integer that wraps, as the kernel is compiled.
\<close>

section \<open>The module\<close>

datatype kp_handler = Handler_pre | Handler_post | Handler_fault

record kprobe =
  symbol_name :: string
  pre_handler :: "kp_handler option"
  post_handler :: "kp_handler option"
  fault_handler :: "kp_handler option"
  kp_addr :: nat

datatype kernel_line =
  Forked int
| Fault nat int
| Register_failed int
| Planted nat
| Unregistered nat

definition kp :: kprobe where
  "kp = \<lparr>symbol_name = ''do_fork'', pre_handler = None, post_handler = None, fault_handler = None, kp_addr = 0\<rparr>"

definition kprobe_init :: "(kprobe \<Rightarrow> int \<times> kprobe) \<Rightarrow> kprobe \<Rightarrow> int \<times> kprobe \<times> kernel_line list" where
  "kprobe_init register_kprobe p =
     (let p1 = p\<lparr>pre_handler := Some Handler_pre, post_handler := Some Handler_post,
                  fault_handler := Some Handler_fault\<rparr>;
          (ret, p2) = register_kprobe p1
      in if ret < 0 then (ret, p2, [Register_failed ret])
         else (0, p2, [Planted (kp_addr p2)]))"

definition kprobe_exit :: "(kprobe \<Rightarrow> kprobe) \<Rightarrow> kprobe \<Rightarrow> kprobe \<times> kernel_line list" where
  "kprobe_exit unregister_kprobe p =
     (let p1 = unregister_kprobe p in (p1, [Unregistered (kp_addr p1)]))"

definition handler_fault :: "kprobe \<Rightarrow> int \<Rightarrow> int \<times> kernel_line list" where
  "handler_fault p trapnr = (0, [Fault (kp_addr p) trapnr])"

definition handler_post :: "kprobe \<Rightarrow> kernel_line list" where
  "handler_post p = []"

section \<open>Calls of handler_pre\<close>

text \<open>Where a call is: about to load the counter, about to store, about to print, returned.\<close>

datatype pre_phase = Entered | Read_count u32 | Counted | Returned

record probe_state =
  total_count :: u32
  pre_calls :: "nat \<Rightarrow> pre_phase"
  kernel_log :: "kernel_line list"

definition probe_start :: probe_state where
  "probe_start = \<lparr>total_count = 0, pre_calls = (\<lambda>_. Entered), kernel_log = []\<rparr>"

definition handler_pre_step :: "nat \<Rightarrow> probe_state \<Rightarrow> probe_state" where
  "handler_pre_step i s =
     (case pre_calls s i of
        Entered \<Rightarrow> s\<lparr>pre_calls := (pre_calls s)(i := Read_count (total_count s))\<rparr>
      | Read_count r \<Rightarrow> s\<lparr>total_count := r + 1, pre_calls := (pre_calls s)(i := Counted)\<rparr>
      | Counted \<Rightarrow> s\<lparr>kernel_log := kernel_log s @ [Forked (sint (total_count s))],
                     pre_calls := (pre_calls s)(i := Returned)\<rparr>
      | Returned \<Rightarrow> s)"

fun run_probe :: "nat list \<Rightarrow> probe_state \<Rightarrow> probe_state" where
  "run_probe [] s = s"
| "run_probe (i # is) s = run_probe is (handler_pre_step i s)"

text \<open>One call on its own.\<close>

definition handler_pre :: "nat \<Rightarrow> probe_state \<Rightarrow> probe_state" where
  "handler_pre i s = run_probe [i, i, i] s"

fun next_phase :: "u32 \<Rightarrow> pre_phase \<Rightarrow> pre_phase" where
  "next_phase c Entered = Read_count c"
| "next_phase c (Read_count r) = Counted"
| "next_phase c _ = Returned"

lemma handler_pre_step_fields:
  "pre_calls (handler_pre_step i s) = (pre_calls s)(i := next_phase (total_count s) (pre_calls s i))"
  "total_count (handler_pre_step i s) = (case pre_calls s i of Read_count r \<Rightarrow> r + 1 | _ \<Rightarrow> total_count s)"
  by (cases "pre_calls s i"; simp add: handler_pre_step_def fun_upd_idem)+

lemma run_probe_append: "run_probe (xs @ ys) s = run_probe ys (run_probe xs s)"
  by (induction xs arbitrary: s) simp_all

lemma handler_pre_alone:
  "pre_calls s i = Entered \<Longrightarrow>
     handler_pre i s = s\<lparr>total_count := total_count s + 1,
       kernel_log := kernel_log s @ [Forked (sint (total_count s + 1))], pre_calls := (pre_calls s)(i := Returned)\<rparr>"
  by (simp add: handler_pre_def handler_pre_step_def)

section \<open>Bounds for every interleaving\<close>

definition counted :: "nat \<Rightarrow> probe_state \<Rightarrow> nat set" where
  "counted n s = {i. i < n \<and> (pre_calls s i = Counted \<or> pre_calls s i = Returned)}"

lemma counted_finite [simp]: "finite (counted n s)"
  by (simp add: counted_def)

lemma counted_le: "card (counted n s) \<le> n"
proof -
  have "counted n s \<subseteq> {..<n}" by (auto simp: counted_def)
  from card_mono [OF _ this] show ?thesis by simp
qed

text \<open>Neither the counter nor a value that was read exceeds the number of calls that have stored.\<close>

definition count_inv :: "nat \<Rightarrow> probe_state \<Rightarrow> bool" where
  "count_inv n s \<longleftrightarrow>
     unat (total_count s) \<le> card (counted n s) \<and>
     (\<forall>i r. pre_calls s i = Read_count r \<longrightarrow> unat r \<le> card (counted n s)) \<and>
     (counted n s \<noteq> {} \<longrightarrow> 1 \<le> unat (total_count s)) \<and>
     (\<forall>v. Forked v \<in> set (kernel_log s) \<longrightarrow> 1 \<le> v \<and> v \<le> int n)"

lemma count_inv_start: "count_inv n probe_start"
  by (simp add: count_inv_def probe_start_def counted_def)

lemma sint_small: "unat (w :: u32) < 2 ^ 31 \<Longrightarrow> sint w = int (unat w)"
proof -
  assume "unat w < 2 ^ 31"
  then have "int (unat w) < int (2 ^ 31)" by (simp only: of_nat_less_iff)
  then have "uint w < 2 ^ 31" by simp
  moreover have "- (2 ^ 31) \<le> uint w" by (rule order_trans [of _ 0]) simp_all
  ultimately have "signed_take_bit 31 (uint w) = uint w" by (intro signed_take_bit_int_eq_self)
  then show ?thesis by (simp add: sint_uint)
qed

lemma count_inv_store:
  assumes inv: "count_inv n s" and i: "i < n" and n: "n < 2 ^ 31" and r: "pre_calls s i = Read_count r"
  shows "count_inv n (s\<lparr>total_count := r + 1, pre_calls := (pre_calls s)(i := Counted)\<rparr>)"
proof -
  let ?s = "s\<lparr>total_count := r + 1, pre_calls := (pre_calls s)(i := Counted)\<rparr>"
  have set: "counted n ?s = insert i (counted n s)" using i by (auto simp: counted_def)
  have "i \<notin> counted n s" using r by (simp add: counted_def)
  then have card: "card (counted n ?s) = Suc (card (counted n s))" by (simp add: set)
  have "unat r \<le> card (counted n s)" using inv r by (auto simp: count_inv_def)
  moreover from this have "unat r + 1 < 2 ^ 32" using counted_le [of n s] n by simp
  then have "unat (r + 1) = unat r + 1" by (simp add: unat_word_ariths)
  moreover have "unat r' \<le> Suc (card (counted n s))" if "pre_calls ?s j = Read_count r'" for j r'
    using inv that unfolding count_inv_def by (cases "j = i") (auto intro: le_SucI)
  ultimately show ?thesis
    using inv unfolding count_inv_def card by simp
qed

lemma count_inv_step:
  assumes inv: "count_inv n s" and i: "i < n" and n: "n < 2 ^ 31"
  shows "count_inv n (handler_pre_step i s)"
proof (cases "pre_calls s i")
  case Entered
  then have "counted n (handler_pre_step i s) = counted n s"
    by (auto simp: handler_pre_step_def counted_def)
  then show ?thesis using inv Entered by (auto simp: count_inv_def handler_pre_step_def)
next
  case (Read_count r)
  then show ?thesis using count_inv_store [OF inv i n] by (simp add: handler_pre_step_def)
next
  case Counted
  have "1 \<le> unat (total_count s)" "unat (total_count s) \<le> n"
    using inv Counted i counted_le [of n s] by (auto simp: count_inv_def counted_def)
  moreover from this n have "sint (total_count s) = int (unat (total_count s))" by (intro sint_small) simp
  ultimately have "1 \<le> sint (total_count s)" "sint (total_count s) \<le> int n" by linarith+
  moreover have "counted n (handler_pre_step i s) = counted n s"
    using Counted by (auto simp: handler_pre_step_def counted_def)
  ultimately show ?thesis using inv Counted by (auto simp: count_inv_def handler_pre_step_def)
next
  case Returned
  then show ?thesis using inv by (simp add: handler_pre_step_def)
qed

lemma count_inv_run:
  "count_inv n s \<Longrightarrow> n < 2 ^ 31 \<Longrightarrow> \<forall>i \<in> set xs. i < n \<Longrightarrow> count_inv n (run_probe xs s)"
  by (induction xs arbitrary: s) (simp_all add: count_inv_step)

section \<open>Schedules that lose counts\<close>

text \<open>The calls of a list all load, all store, all print.\<close>

lemma all_step:
  assumes "distinct js" and "\<forall>i \<in> set js. pre_calls s i = ph" and "total_count s = c"
    and step: "\<And>i s. pre_calls s i = ph \<Longrightarrow> total_count s = c \<Longrightarrow>
      total_count (handler_pre_step i s) = c \<and> pre_calls (handler_pre_step i s) = (pre_calls s)(i := ph')"
  shows "total_count (run_probe js s) = c \<and>
    (\<forall>i. pre_calls (run_probe js s) i = (if i \<in> set js then ph' else pre_calls s i))"
  using assms(1-3)
proof (induction js arbitrary: s)
  case (Cons j js)
  let ?t = "handler_pre_step j s"
  have t: "total_count ?t = c" "pre_calls ?t = (pre_calls s)(j := ph')" using Cons.prems step by simp_all
  have "\<forall>i \<in> set js. pre_calls ?t i = ph" using Cons.prems t(2) by auto
  from Cons.IH [OF _ this t(1)] Cons.prems(1) t(2) show ?case by simp
qed simp

lemma all_load:
  assumes "distinct js" and "\<forall>i \<in> set js. pre_calls s i = Entered"
  shows "total_count (run_probe js s) = total_count s \<and>
    (\<forall>i. pre_calls (run_probe js s) i = (if i \<in> set js then Read_count (total_count s) else pre_calls s i))"
  using assms by (intro all_step [where ph = Entered]) (simp_all add: handler_pre_step_fields)

lemma all_store:
  assumes "distinct js" and "\<forall>i \<in> set js. pre_calls s i = Read_count r" and "js \<noteq> []"
  shows "total_count (run_probe js s) = r + 1 \<and>
    (\<forall>i. pre_calls (run_probe js s) i = (if i \<in> set js then Counted else pre_calls s i))"
proof -
  obtain j ks where js: "js = j # ks" using assms(3) by (cases js) auto
  let ?t = "handler_pre_step j s"
  have t: "total_count ?t = r + 1" "pre_calls ?t = (pre_calls s)(j := Counted)"
    using assms(2) js by (simp_all add: handler_pre_step_fields)
  have "\<forall>i \<in> set ks. pre_calls ?t i = Read_count r" using assms(1,2) js t(2) by auto
  from all_step [OF _ this t(1), where ph' = Counted] assms(1) t(2) show ?thesis
    by (simp add: handler_pre_step_fields js)
qed

lemma all_print:
  assumes "distinct js" and "\<forall>i \<in> set js. pre_calls s i = Counted"
  shows "total_count (run_probe js s) = total_count s \<and>
    (\<forall>i. pre_calls (run_probe js s) i = (if i \<in> set js then Returned else pre_calls s i))"
  using assms by (intro all_step [where ph = Counted]) (simp_all add: handler_pre_step_fields)

definition serial_schedule :: "nat \<Rightarrow> nat list" where
  "serial_schedule k = concat (map (\<lambda>i. [i, i, i]) [0..<k])"

lemma serial_calls_count:
  "total_count (run_probe (serial_schedule k) probe_start) = of_nat k \<and>
   pre_calls (run_probe (serial_schedule k) probe_start) = (\<lambda>i. if i < k then Returned else Entered)"
proof (induction k)
  case 0
  show ?case by (simp add: serial_schedule_def probe_start_def)
next
  case (Suc k)
  let ?s = "run_probe (serial_schedule k) probe_start"
  have "run_probe (serial_schedule (Suc k)) probe_start = handler_pre k ?s"
    by (simp add: serial_schedule_def handler_pre_def run_probe_append)
  with Suc handler_pre_alone [of ?s k] show ?case by (auto simp: fun_eq_iff)
qed

text \<open>The first \<open>k\<close> calls one after the other, the others at the same time.\<close>

definition overlapping :: "nat \<Rightarrow> nat \<Rightarrow> nat list" where
  "overlapping k n = serial_schedule k @ [k..<n] @ [k..<n] @ [k..<n]"

lemma overlapping_calls_count:
  assumes "k < n"
  shows "total_count (run_probe (overlapping k n) probe_start) = of_nat (Suc k) \<and>
    (\<forall>i < n. pre_calls (run_probe (overlapping k n) probe_start) i = Returned)"
proof -
  let ?js = "[k..<n]"
  let ?s = "run_probe (serial_schedule k) probe_start"
  let ?s1 = "run_probe ?js ?s" and ?s2 = "run_probe ?js (run_probe ?js ?s)"
  note s = serial_calls_count [of k]
  have s1: "total_count ?s1 = of_nat k" "\<forall>i. pre_calls ?s1 i = (if i \<in> set ?js then Read_count (of_nat k) else pre_calls ?s i)"
    using all_load [of ?js ?s] s by simp_all
  have s2: "total_count ?s2 = of_nat k + 1" "\<forall>i. pre_calls ?s2 i = (if i \<in> set ?js then Counted else pre_calls ?s1 i)"
    using all_store [of ?js ?s1 "of_nat k"] assms s1 by simp_all
  have "total_count (run_probe ?js ?s2) = of_nat k + 1 \<and>
      (\<forall>i. pre_calls (run_probe ?js ?s2) i = (if i \<in> set ?js then Returned else pre_calls ?s2 i))"
    using all_print [of ?js ?s2] s2 by simp
  then show ?thesis using s s1 s2 by (auto simp: overlapping_def run_probe_append add.commute)
qed

lemma overlapping_below: "k < n \<Longrightarrow> i \<in> set (overlapping k n) \<Longrightarrow> i < n"
  by (auto simp: overlapping_def serial_schedule_def)

section \<open>Properties\<close>

text \<open>Every way in which \<open>n\<close> calls of the handler can run from start to end.\<close>

definition complete_runs :: "nat \<Rightarrow> probe_state set" where
  "complete_runs n =
     {s. \<exists>xs. (\<forall>i \<in> set xs. i < n) \<and> s = run_probe xs probe_start \<and> (\<forall>i < n. pre_calls s i = Returned)}"

text \<open>
  C38: what the module can count.  When \<open>n\<close> calls of \<^verbatim>\<open>do_fork\<close> have been probed, on
  whatever processors and however their handlers overlapped, the counter can be each of the
  numbers from 1 to \<open>n\<close> and nothing else, and no line printed names a number outside that
  range; it is \<open>n\<close> when the handlers ran one after the other.
\<close>

theorem probe_counts:
  assumes "0 < n" and "n < 2 ^ 31"
  shows "(\<lambda>s. sint (total_count s)) ` complete_runs n = {1..int n} \<and>
    (\<forall>s \<in> complete_runs n. \<forall>v. Forked v \<in> set (kernel_log s) \<longrightarrow> 1 \<le> v \<and> v \<le> int n) \<and>
    total_count (run_probe (serial_schedule n) probe_start) = of_nat n"
proof -
  have inv: "count_inv n s" if "s \<in> complete_runs n" for s
    using that count_inv_run [OF count_inv_start assms(2)] by (auto simp: complete_runs_def)
  have within: "sint (total_count s) \<in> {1..int n}" if s: "s \<in> complete_runs n" for s
  proof -
    have "0 \<in> counted n s" using s assms(1) by (auto simp: complete_runs_def counted_def)
    then have "1 \<le> unat (total_count s)" "unat (total_count s) \<le> n"
      using inv [OF s] counted_le [of n s] by (auto simp: count_inv_def)
    moreover from this assms(2) have "sint (total_count s) = int (unat (total_count s))"
      by (intro sint_small) simp
    ultimately have "1 \<le> sint (total_count s) \<and> sint (total_count s) \<le> int n" by linarith
    then show ?thesis by simp
  qed
  have reached: "v \<in> (\<lambda>s. sint (total_count s)) ` complete_runs n" if v: "v \<in> {1..int n}" for v
  proof -
    define k where "k = nat v - 1"
    have k: "k < n" "v = int (Suc k)" using v by (auto simp: k_def)
    let ?s = "run_probe (overlapping k n) probe_start"
    have "?s \<in> complete_runs n"
      using overlapping_calls_count [OF k(1)] overlapping_below [OF k(1)] by (auto simp: complete_runs_def)
    moreover have "unat (total_count ?s) = Suc k"
      using overlapping_calls_count [OF k(1)] k(1) assms(2) by (simp add: unat_of_nat take_bit_nat_eq_self del: of_nat_Suc)
    then have "sint (total_count ?s) = v" using k assms(2) by (simp add: sint_small)
    ultimately show ?thesis by force
  qed
  show ?thesis using within reached inv serial_calls_count [of n] by (auto simp: count_inv_def)
qed

theorem probe_counts_witness:
  "(\<lambda>s. sint (total_count s)) ` complete_runs 2 = {1..2} \<and>
   total_count (run_probe [0, 1, 0, 1, 0, 1] probe_start) = 1"
  using probe_counts [of 2] by (simp add: handler_pre_step_def probe_start_def)

text \<open>
  Loading the module: the probe is handed to the kernel with all three handlers set; when the
  kernel refuses it the error is printed and returned, otherwise the address is printed and the
  result is 0.
\<close>

theorem module_load_outcome:
  assumes "register_kprobe (kp\<lparr>pre_handler := Some Handler_pre, post_handler := Some Handler_post,
             fault_handler := Some Handler_fault\<rparr>) = (ret, p)"
  shows "kprobe_init register_kprobe kp =
    (min ret 0, p, [if ret < 0 then Register_failed ret else Planted (kp_addr p)])"
  using assms by (simp add: kprobe_init_def)

end
