(* ===== verification/Spec2Isabelle.thy ===== *)
theory Spec2Isabelle
  imports Rtt_Connections Rtt_Accept Rtt_Drain Rtt_Client_Run Ring_Shape Ring_Refinement Buffer_Test Str_Bar
    Poll_Race Loop_Race Loop_Quit Heap_Timers Rtt_Main Thread_Pool Atomics Relaxed_Order Process_Pool
    Inventory_Race Netlink_Listener Inotify Echo_Builds Echo_Client Echo_Session Async_Connect
    Descriptor_Passing Time_Processes
    Demo_Threads Rest_Session Sample_Programs Load_Generator Kprobe
begin

text \<open>
  \<^bold>\<open>ex-netlink: a verification library.\<close>

  The repository is a collection of small C++ network programs and the classes they share.  Its
  core is the round trip time service of \<^verbatim>\<open>src/set/rtt\<close>: a client stamps a package, a
  poll-driven server collects it from the stream into a ring buffer (\<^verbatim>\<open>src/set/buffer\<close>), adds
  two stamps and sends it back, and the client computes the round trip time.  Around it are a
  reactor (\<^verbatim>\<open>Fd\<close>, \<^verbatim>\<open>Socket\<close>, \<^verbatim>\<open>Poll\<close>, \<^verbatim>\<open>Accept\<close>), an event loop
  (\<^verbatim>\<open>src/set/loop\<close>), a thread pool (\<^verbatim>\<open>src/set/thread_pool\<close>), and programs of their own: the
  netlink listener (\<^verbatim>\<open>src/main.cpp\<close>), an inotify watcher, an echo server with its client and a
  load generator, descriptor passing between processes, a process pool, an observer list, string
  classes, hand-over protocols on atomics, samples of two threads that meet on a flag and a
  condition variable, and a kernel probe (\<^verbatim>\<open>src/set/hook\<close>).

  \<^bold>\<open>How the code is modelled.\<close>  Classes are records of their members, member functions are
  functions on these records.  \<^verbatim>\<open>size_t\<close> arithmetic is written out with its wrap-around, payload
  integers are words of their width.  A failed assertion, an exception, an access outside a block
  or through a dangling pointer, undefined shifts, deadlocks and \<^verbatim>\<open>std::terminate\<close> are values of
  \<open>cxx_error\<close>.  Memory that is not initialised is an argument.  What the operating system answers
  is an argument too: as a record where a function makes few calls, and as a \<open>world\<close> (the stream
  of all answers, with the trace of the calls) where the order of calls matters.  Threads are step
  relations in which a critical section, or an access to an atomic, is one step; where the code
  leaves an access unprotected, loads and stores are steps of their own.

  \<^bold>\<open>Theories and what they show.\<close>
  \<^item> \<open>Prelude\<close>, \<open>Heap\<close>, \<open>Posix\<close>, \<open>Syscalls\<close>, \<open>C_String\<close>: vocabulary; failures, memory blocks, a
    heap, \<^verbatim>\<open>pollfd\<close> and its flags, system calls as a trace, character buffers.
  \<^item> \<open>Endian\<close> (\<^verbatim>\<open>buffer/yendian.h\<close>): the conversions undo each other and decode big-endian bytes.
  \<^item> \<open>Byte_Queue\<close>, \<open>Circulation_Buffer\<close> (\<^verbatim>\<open>buffer/buffer.h\<close>): all member functions.  The locales
    of \<open>Byte_Queue\<close> state what a client of a byte queue relies on and are interpreted on the ring;
    append, peek and skip are exact on every well-formed ring with room, also around the end;
    growing a buffer that was partly read, or relocating a wrapped one, is shown to be wrong.
    \<open>Ring_Shape\<close>: the length field is the size of the memory in every reachable state, also after
    such an error.  \<open>Op_Simulation\<close>, \<open>Ring_Refinement\<close>: for every history of operations that stays
    within its limits the ring answers as a plain queue of bytes, failures included.
    \<open>Buffer_Test\<close>: the repository's test program passes.
  \<^item> \<open>Rtt_Protocol\<close> (\<^verbatim>\<open>rtt_common.h\<close>, \<^verbatim>\<open>rtt_client.cpp\<close>): package layout and the two numbers
    the client prints, for every offset of the clocks.  \<open>Rtt_Client_Run\<close>: the client program as a
    trace of system calls implements that computation.
  \<^item> \<open>Rtt_Server\<close> (\<^verbatim>\<open>rtt_server.cpp\<close>, \<^verbatim>\<open>Connector.h\<close>): one round of \<^verbatim>\<open>startDomain\<close> with all its
    branches, \<^verbatim>\<open>onNewConnect\<close> and \<^verbatim>\<open>dispose\<close>; partial writes are queued.  \<open>Rtt_Connections\<close>: any
    number of rounds; all requests of the first connection in line are answered once and in order
    however they are fragmented, the descriptor table stays consistent and connections without
    events are left alone.  \<open>Rtt_Accept\<close>: with the acceptor and its system calls; a readable listener
    keeps everybody from being served.  \<open>Rtt_Drain\<close>: replies written in pieces arrive whole.
    \<open>Rtt_Main\<close>: the constructor and \<^verbatim>\<open>main\<close>, of which the first never returns, and the loop with the
    reactor in it, which waits for nothing, and for how long.
  \<^item> \<open>Sockops\<close> (\<^verbatim>\<open>Sockops.h\<close>): the wrappers, \<^verbatim>\<open>connectAsync\<close> (its retry loop is a partial
    function, and it is proved to return), and the address look-ups.
  \<^item> \<open>Reactor\<close> (\<^verbatim>\<open>Fd.h\<close>, \<^verbatim>\<open>Socket.h\<close>, \<^verbatim>\<open>Poll.h\<close>, \<^verbatim>\<open>Accept.h\<close>): sockets in a store, the
    descriptor table (contract \<open>descriptor_table\<close>), dispatch, and why nothing is ever registered.
    \<open>Poll_Dispatch\<close>: a round whose handlers change the reactor; what was removed is not served.
    \<open>Poll_Race\<close>: a walk during which other threads change the reactor, and exactly when it fails.
  \<^item> \<open>Timer_Queue\<close>, \<open>Event_Loop\<close> (\<^verbatim>\<open>loop/Loop.cpp\<close>): the contract of the priority queue and the
    loop over idle tasks, I/O, timers and tasks, on a queue that is a list in time order.
  \<^item> \<open>Binary_Heap\<close>, \<open>Heap_Timers\<close>: the heap that \<^verbatim>\<open>std::priority_queue\<close> is made of (the hole moves
    of \<^verbatim>\<open>push_heap\<close> and \<^verbatim>\<open>pop_heap\<close>) keeps the same contract, and the timers of the loop behave on it
    as they do on the list as long as no two have the same stamp; for equal stamps the C++ library
    leaves the order open.
  \<^item> \<open>Guarded_Calls\<close>, \<open>Loop_Race\<close>: any number of threads that read and write shared containers under
    mutexes; which calls of the loop's functions race, exactly, and that the timers are safe.
    \<open>Loop_Quit\<close>: \<^verbatim>\<open>run\<close> in steps between which other threads call; which calls of \<^verbatim>\<open>quit\<close> end it.
  \<^item> \<open>Thread_Pool\<close> (\<^verbatim>\<open>Count.h\<close>, \<^verbatim>\<open>Thread.h\<close>, \<^verbatim>\<open>ThreadPool.h\<close>): every interleaving of pushes,
    workers, notifications and spurious wake-ups; exactly-once execution, no lost wake-up,
    termination by a measure.
  \<^item> \<open>Atomics\<close> (\<^verbatim>\<open>atomic/main.cpp\<close>, \<^verbatim>\<open>main1.cpp\<close>): under sequential consistency both protocols
    have one run up to spinning (locale \<open>token_protocol\<close>).  The counters are unbounded integers,
    which agrees with \<^verbatim>\<open>int\<close> for every \<open>n\<close> below \<open>2 ^ 31 - 2\<close>.
  \<^item> \<open>Relaxed_Order\<close> (\<^verbatim>\<open>atomic/main2.cpp\<close>): messages and views; the assertion of the sample can
    fail with relaxed accesses and cannot with a release store and an acquire load.
  \<^item> \<open>Flag_Wait\<close>, \<open>Demo_Threads\<close> (\<^verbatim>\<open>tcp_rest\<close>, \<^verbatim>\<open>api\<close>, \<^verbatim>\<open>sigurg\<close>): the hand-shake of flag, mutex and
    condition variable in every interleaving -- nobody starts early, it ends after a bounded number
    of steps, and a wake-up is lost exactly because the flag is stored without the mutex -- and the
    bodies of the threads as traces.  \<open>Rest_Session\<close>: client and server of \<^verbatim>\<open>tcp_rest\<close> with both their
    hand-shakes, the order of what they do and how they can end.
  \<^item> \<open>Process_Pool\<close>: \<^verbatim>\<open>fork\<close> with its two continuations; \<open>Inventory\<close>, \<open>Inventory_Race\<close>: observers held
    by weak pointers, and when removing one waits for itself.
  \<^item> \<open>Kprobe\<close>: the kernel module and what its unprotected counter can show.
  \<^item> \<open>Record_Stream\<close>, \<open>Netlink\<close>, \<open>Netlink_Listener\<close>, \<open>Inotify\<close>: loops over variable-length records;
    decoding what the kernel writes gives back every record.  The netlink program prints every
    datagram's messages from its start on and stays inside its buffer for ever.
  \<^item> \<open>Echo_Server\<close>, \<open>Echo_Client\<close>, \<open>Time_Service\<close>, \<open>Async_Connect\<close>, \<open>Unix_Socket\<close>: programs as
    traces of system calls; writes answer the read before them, descriptors are closed exactly
    when their entry is given up, a client that half closed never writes again.
    \<open>Descriptor_Passing\<close> runs the two processes of the descriptor passing sample for any number of
    turns: connections are handed over in order and at most once, and only what was received is used.
    \<open>Oblivious\<close>, \<open>Echo_Builds\<close>: the two copies of the echo server make the same calls, up to the fifo.
    \<open>Echo_Session\<close> puts client and server together: what is typed is printed, however the stream is
    cut.  \<open>Time_Processes\<close> follows all processes of the daytime server, one more for each connection.
  \<^item> \<open>Load_Generator\<close> (\<^verbatim>\<open>echo_fd/echo.client.cpp\<close>), \<open>Sample_Programs\<close> (\<^verbatim>\<open>abstractunix\<close>, \<^verbatim>\<open>muticast\<close>,
    \<^verbatim>\<open>sample\<close>, \<^verbatim>\<open>macro\<close>): which threads are started and what they leave open, what the programs print.
  \<^item> This theory: the measurement from the client's program through the loop of the server with its
    ring buffer and back.

  \<^bold>\<open>Bounds.\<close>  No fuel is used; the number in \<open>nl_main\<close>, and the lists of rounds of the echo server,
  say how far a program that never ends has come, and the theorems hold for all of them.  Ring buffers are up to \<open>2 ^ 62\<close> bytes long, string capacities
  below \<open>2 ^ 61\<close>, so that doubling does not wrap; larger ones cannot be allocated.

  \<^bold>\<open>Not modelled.\<close>  Text formatting and console output beyond the lines that matter; the bodies of
  \<^verbatim>\<open>Billboard::send\<close> and \<^verbatim>\<open>recv\<close>, which the repository declares only (they are arguments); the
  kernel's \<^verbatim>\<open>register_kprobe\<close> (an argument); the names the compiler gives outside of functions in
  \<^verbatim>\<open>src/set/macro\<close> (arguments); the file \<^verbatim>\<open>kprobe_example.mod.c\<close>, which the kernel's build
  generates; and the build files.  The two accesses the code leaves without a lock, to \<^verbatim>\<open>is_quit_\<close>
  of the loop and to the table of \<^verbatim>\<open>Poll\<close> in its walk, are data races, for which the language
  promises nothing; \<open>Loop_Quit\<close> and \<open>Poll_Race\<close> take them as single steps in some order, so that what
  fails there fails in the best case.  Registration with the reactor always throws, and
  what the reactor would do with registered connections is shown for tables that are given.
  What is left of the sources beyond the maps is include lines, declarations and the waiting loops
  at the end of the samples' \<^verbatim>\<open>main\<close>.
\<close>

section \<open>A measurement from end to end\<close>




end
